(* ===== verification/Wperf_Prelude.thy ===== *)
theory Wperf_Prelude
  imports
    Main
    "HOL-Library.Word"
    "HOL-Library.Mapping"
    "HOL-Library.AList_Mapping"
    "HOL-Library.Multiset"
    "HOL-Library.Monad_Syntax"
    "HOL-Library.Product_Lexorder"
begin

text \<open>
  Prelude of the wperf development: the machine integers of the Rust sources as words of
  their width, the integer operations of the Rust standard library the program calls
  (\<open>saturating_sub\<close>, \<open>to_le_bytes\<close>, \<open>from_le_bytes\<close>), the interface of a fixed-width
  codec, and the generic facts on words, lists and mappings that the components share.

  Arithmetic is the one of the release profile: \<open>+\<close>, \<open>-\<close> and \<open>*\<close> on a word wrap around.
  A function that can panic returns an option, where \<open>None\<close> is the panic.
\<close>

unbundle bit_operations_syntax

type_synonym u8 = "8 word"
type_synonym u16 = "16 word"
type_synonym u32 = "32 word"
type_synonym u64 = "64 word"

named_theorems unat_bounds "facts that move u64 sums and differences to nat"

section \<open>u64 arithmetic\<close>

definition saturating_sub :: "u64 \<Rightarrow> u64 \<Rightarrow> u64" where
  "saturating_sub a b = (if a \<le> b then 0 else a - b)"

lemma unat_saturating_sub: "unat (saturating_sub a b) = unat a - unat b"
  by (auto simp: saturating_sub_def unat_sub word_le_nat_alt)

lemma saturating_sub_le: "saturating_sub a b \<le> a"
  by (simp add: word_le_nat_alt unat_saturating_sub)

lemma saturating_sub_0 [simp]: "saturating_sub a 0 = a"
  by (simp add: saturating_sub_def)

lemma unat_plus_no_wrap [unat_bounds]:
  fixes a b :: "'a::len word"
  assumes "unat a + unat b < 2 ^ LENGTH('a)"
  shows "unat (a + b) = unat a + unat b"
  using assms by (simp add: unat_word_ariths)

lemma unat_diff_le [unat_bounds]:
  fixes a b :: "'a::len word"
  assumes "b \<le> a"
  shows "unat (a - b) = unat a - unat b"
  using assms by (simp add: unat_sub)

lemma unat_of_nat_small [unat_bounds]:
  assumes "n < 2 ^ LENGTH('a::len)"
  shows "unat (of_nat n :: 'a word) = n"
  using assms by (simp add: unat_of_nat take_bit_nat_eq_self)

lemma unat_succ_less:
  fixes d m :: "'a::len word"
  assumes "d < m"
  shows "unat (d + 1) = Suc (unat d)"
proof -
  have "unat m < 2 ^ LENGTH('a)"
    by (rule unsigned_less)
  moreover have "unat d < unat m"
    using assms by (simp add: word_less_nat_alt)
  ultimately have "unat d + 1 < 2 ^ LENGTH('a)"
    by linarith
  then show ?thesis by (simp add: unat_word_ariths)
qed

lemma unat_u64_less: "unat (a :: u64) < 18446744073709551616"
  using unsigned_less [of a] by simp

lemma unat_sum_list [unat_bounds]:
  fixes ws :: "'a::len word list"
  assumes "sum_list (map unat ws) < 2 ^ LENGTH('a)"
  shows "unat (sum_list ws) = sum_list (map unat ws)"
  using assms by (induction ws) (auto simp: unat_plus_no_wrap)

lemma sum_list_le_const:
  fixes f :: "'a \<Rightarrow> nat"
  assumes "\<And>x. x \<in> set xs \<Longrightarrow> f x \<le> c"
  shows "sum_list (map f xs) \<le> length xs * c"
  using assms by (induction xs) (auto simp: add_mono)

lemma unat_div_max: "unat (a div max b 1) = unat (a :: u64) div max (unat b) 1"
  by (auto simp: unat_div_distrib max_def word_le_nat_alt)

lemma foldl_plus_sum: "foldl (\<lambda>acc x. acc + f x) (a :: 'a::comm_monoid_add) xs = a + sum_list (map f xs)"
  by (induction xs arbitrary: a) (auto simp: add.assoc)

section \<open>Little-endian bytes\<close>

text \<open>\<open>to_le_bytes\<close> and \<open>from_le_bytes\<close> of the unsigned integers, least significant byte
  first; the width in bytes is the first argument of the encoder.\<close>

fun to_le_bytes :: "nat \<Rightarrow> 'a::len word \<Rightarrow> u8 list" where
  "to_le_bytes 0 w = []"
| "to_le_bytes (Suc n) w = ucast w # to_le_bytes n (drop_bit 8 w)"

fun from_le_bytes :: "u8 list \<Rightarrow> 'a::len word" where
  "from_le_bytes [] = 0"
| "from_le_bytes (b # bs) = ucast b OR push_bit 8 (from_le_bytes bs)"

lemma length_to_le_bytes [simp]: "length (to_le_bytes n w) = n"
  by (induction n arbitrary: w) auto

lemma from_le_bytes_zeros [simp]: "from_le_bytes (replicate n 0) = 0"
  by (induction n) simp_all

lemma from_to_le_bytes_bits:
  "from_le_bytes (to_le_bytes n (w :: 'a::len word)) = take_bit (8 * n) w"
proof (induction n arbitrary: w)
  case 0
  then show ?case by simp
next
  case (Suc n)
  show ?case
    by (rule bit_word_eqI)
      (auto simp: Suc bit_or_iff bit_push_bit_iff bit_take_bit_iff bit_drop_bit_eq bit_unsigned_iff)
qed

lemma from_to_le_bytes:
  assumes "LENGTH('a) \<le> 8 * n"
  shows "from_le_bytes (to_le_bytes n (w :: 'a::len word)) = w"
  using assms by (simp add: from_to_le_bytes_bits take_bit_word_eq_self)

lemma to_le_bytes_take_bit:
  assumes "8 * n \<le> m"
  shows "to_le_bytes n (take_bit m (w :: 'a::len word)) = to_le_bytes n w"
  using assms
proof (induction n arbitrary: w m)
  case 0
  then show ?case by simp
next
  case (Suc n)
  have low: "(ucast (take_bit m w) :: u8) = ucast w"
    by (rule bit_word_eqI) (use Suc.prems in \<open>auto simp: bit_take_bit_iff bit_unsigned_iff\<close>)
  have "drop_bit 8 (take_bit m w) = take_bit (m - 8) (drop_bit 8 w)"
    using Suc.prems by (simp add: drop_bit_take_bit)
  then show ?case
    using Suc by (simp add: low)
qed

lemma to_from_le_bytes:
  assumes "8 * length bs \<le> LENGTH('a)"
  shows "to_le_bytes (length bs) (from_le_bytes bs :: 'a::len word) = bs"
  using assms
proof (induction bs)
  case Nil
  then show ?case by simp
next
  case (Cons b bs)
  let ?w = "from_le_bytes bs :: 'a word"
  have low: "(ucast (ucast b OR push_bit 8 ?w) :: u8) = b"
    by (rule bit_word_eqI) (use Cons.prems in \<open>auto simp: bit_or_iff bit_push_bit_iff bit_unsigned_iff\<close>)
  have tail: "drop_bit 8 (ucast b OR push_bit 8 ?w) = take_bit (LENGTH('a) - 8) ?w"
    by (rule bit_word_eqI)
      (auto simp: bit_or_iff bit_push_bit_iff bit_take_bit_iff bit_drop_bit_eq bit_unsigned_iff
        dest: bit_imp_le_length)
  have "to_le_bytes (length bs) (take_bit (LENGTH('a) - 8) ?w) = bs"
    using Cons by (simp add: to_le_bytes_take_bit)
  then show ?case
    by (simp only: length_Cons to_le_bytes.simps from_le_bytes.simps low tail)
qed

lemma to_from_le_bytes_len:
  assumes "length bs = n" "8 * n \<le> LENGTH('a)"
  shows "to_le_bytes n (from_le_bytes bs :: 'a::len word) = bs"
  using assms to_from_le_bytes by auto

text \<open>The value of little-endian bytes as a natural number.\<close>

fun le_nat :: "u8 list \<Rightarrow> nat" where
  "le_nat [] = 0"
| "le_nat (b # bs) = unat b + 256 * le_nat bs"

lemma le_nat_append: "le_nat (xs @ ys) = le_nat xs + 256 ^ length xs * le_nat ys"
  by (induction xs) (auto simp: algebra_simps)

lemma le_nat_less: "le_nat xs < 256 ^ length xs"
proof (induction xs)
  case (Cons x xs)
  have "unat x \<le> 255"
    using unsigned_less [of x, where ?'a = nat] by simp
  moreover have "256 * (le_nat xs + 1) \<le> 256 * 256 ^ length xs"
    using Cons by (intro mult_le_mono2) simp
  ultimately show ?case by simp
qed simp

lemma unat_from_le_bytes:
  assumes "8 * length bs \<le> LENGTH('a)"
  shows "unat (from_le_bytes bs :: 'a::len word) = le_nat bs"
  using assms
proof (induction bs)
  case (Cons b bs)
  let ?w = "from_le_bytes bs :: 'a word"
  have w: "unat ?w = le_nat bs" "le_nat bs < 256 ^ length bs"
    using Cons le_nat_less by auto
  have "LENGTH('a) \<ge> 8"
    using Cons.prems by simp
  have "256 * le_nat bs < 256 * 256 ^ length bs"
    using w(2) by simp
  also have "\<dots> = 2 ^ (8 * length (b # bs))"
    by (simp add: power_mult power_add)
  also have "\<dots> \<le> 2 ^ LENGTH('a)"
    using Cons.prems by (intro power_increasing) simp_all
  finally have less: "256 * le_nat bs < 2 ^ LENGTH('a)" .
  have push: "unat (push_bit 8 ?w) = 256 * le_nat bs"
    unfolding unsigned_push_bit_eq w(1)
    using less by (simp add: push_bit_eq_mult take_bit_nat_eq_self_iff mult.commute)
  have "unat b < 2 ^ 8"
    using unsigned_less [of b, where ?'a = nat] by simp
  also have "\<dots> \<le> 2 ^ LENGTH('a)"
    using \<open>LENGTH('a) \<ge> 8\<close> by (rule power_increasing) simp
  finally have low: "unat (ucast b :: 'a word) = unat b"
    by (simp add: unsigned_ucast_eq take_bit_nat_eq_self_iff)
  have disj: "bit (ucast b :: 'a word) n \<Longrightarrow> bit (push_bit 8 ?w) n \<Longrightarrow> False" for n
    by (auto simp: bit_push_bit_iff bit_unsigned_iff dest: bit_imp_le_length)
  have "unat (ucast b OR push_bit 8 ?w :: 'a word) = unat b OR 256 * le_nat bs"
    by (simp only: unsigned_or_eq low push)
  also have "unat b OR 256 * le_nat bs = unat b + 256 * le_nat bs"
  proof -
    have shift: "256 * le_nat bs = push_bit 8 (le_nat bs)"
      by (simp add: push_bit_eq_mult)
    have "\<not> (bit (unat b) n \<and> bit (256 * le_nat bs) n)" for n
      unfolding shift by (auto simp: bit_unsigned_iff bit_push_bit_iff dest: bit_imp_le_length)
    then show ?thesis
      by (intro disjunctive_add [symmetric]) blast
  qed
  finally show ?case by simp
qed simp

text \<open>Overwriting the low bytes of a number by those of a larger one yields no larger number.\<close>

lemma le_nat_torn:
  assumes "length old = length new" "le_nat old \<le> le_nat new"
  shows "le_nat (take k new @ drop k old) \<le> le_nat new"
proof (cases "k \<le> length new")
  case True
  let ?B = "256 ^ k :: nat"
  have len: "length (take k new) = k" "length (take k old) = k"
    using True assms(1) by auto
  have new: "le_nat new = le_nat (take k new) + ?B * le_nat (drop k new)"
    using le_nat_append [of "take k new" "drop k new"] len by simp
  have old: "le_nat old = le_nat (take k old) + ?B * le_nat (drop k old)"
    using le_nat_append [of "take k old" "drop k old"] len by simp
  have "le_nat (drop k xs) = le_nat xs div ?B" if "le_nat xs = le_nat (take k xs) + ?B * le_nat (drop k xs)"
    "length (take k xs) = k" for xs
    using that le_nat_less [of "take k xs"] by (simp add: div_add1_eq)
  then have "le_nat (drop k old) = le_nat old div ?B" "le_nat (drop k new) = le_nat new div ?B"
    using new old len by blast+
  then have "le_nat (drop k old) \<le> le_nat (drop k new)"
    using assms(2) by (simp add: div_le_mono)
  then show ?thesis
    using new len by (simp add: le_nat_append)
next
  case False
  then show ?thesis using assms by simp
qed

section \<open>Fixed-width codecs\<close>

text \<open>The interface of a fixed-width binary codec: what the file format relies on when it
  lays values out one after the other.\<close>

locale codec =
  fixes enc :: "'a \<Rightarrow> u8 list"
    and dec :: "u8 list \<Rightarrow> 'a"
    and width :: nat
  assumes enc_length: "length (enc x) = width"
    and dec_enc: "dec (enc x) = x"
begin

lemma enc_inject: "enc x = enc y \<longleftrightarrow> x = y"
  by (metis dec_enc)

lemma dec_take: "dec (take width (enc x @ rest)) = x"
  by (simp add: enc_length dec_enc)

lemma drop_width: "drop width (enc x @ rest) = rest"
  by (simp add: enc_length)

lemma length_concat_enc: "length (concat (map enc xs)) = width * length xs"
  by (induction xs) (auto simp: enc_length)

end

locale exact_codec = codec +
  assumes enc_dec: "length bs = width \<Longrightarrow> enc (dec bs) = bs"
begin

lemma dec_inject: "length bs = width \<Longrightarrow> length cs = width \<Longrightarrow> dec bs = dec cs \<longleftrightarrow> bs = cs"
  by (metis enc_dec)

end

interpretation u16_codec: exact_codec "to_le_bytes 2 :: u16 \<Rightarrow> u8 list" from_le_bytes 2
  by unfold_locales (simp_all add: from_to_le_bytes, simp add: to_from_le_bytes_len)

interpretation u32_codec: exact_codec "to_le_bytes 4 :: u32 \<Rightarrow> u8 list" from_le_bytes 4
  by unfold_locales (simp_all add: from_to_le_bytes, simp add: to_from_le_bytes_len)

interpretation u64_codec: exact_codec "to_le_bytes 8 :: u64 \<Rightarrow> u8 list" from_le_bytes 8
  by unfold_locales (simp_all add: from_to_le_bytes, simp add: to_from_le_bytes_len)

section \<open>Decimal output\<close>

text \<open>The \<open>Display\<close> of the integer types: decimal digits, a leading minus sign for a
  negative value.\<close>

definition digit_char :: "nat \<Rightarrow> char" where
  "digit_char d = char_of (48 + d)"

fun show_nat :: "nat \<Rightarrow> string" where
  "show_nat n = (if n < 10 then [digit_char n] else show_nat (n div 10) @ [digit_char (n mod 10)])"

declare show_nat.simps [simp del]

definition show_int :: "int \<Rightarrow> string" where
  "show_int i = (if i < 0 then CHR ''-'' # show_nat (nat (- i)) else show_nat (nat i))"

fun read_nat :: "string \<Rightarrow> nat" where
  "read_nat cs = foldl (\<lambda>acc c. 10 * acc + (of_char c - 48)) 0 cs"

lemma of_digit_char: "d < 10 \<Longrightarrow> of_char (digit_char d) = 48 + d"
  by (simp add: digit_char_def)

lemma read_show_nat: "read_nat (show_nat n) = n"
proof (induction n rule: show_nat.induct)
  case (1 n)
  then show ?case
    by (auto simp: show_nat.simps [of n] of_digit_char)
qed

lemma show_nat_inject [simp]: "show_nat m = show_nat n \<longleftrightarrow> m = n"
  by (metis read_show_nat)

lemma show_nat_digits: "c \<in> set (show_nat n) \<Longrightarrow> 48 \<le> (of_char c :: nat) \<and> (of_char c :: nat) < 58"
proof (induction n rule: show_nat.induct)
  case (1 n)
  then show ?case
    by (cases "n < 10") (auto simp: show_nat.simps [of n] of_digit_char)
qed

lemma show_nat_not_Nil [simp]: "show_nat n \<noteq> []"
  by (subst show_nat.simps) simp

lemma minus_notin_show_nat: "CHR ''-'' \<notin> set (show_nat n)"
  using show_nat_digits [of "CHR ''-''" n] by auto

lemma minus_Cons_neq_show_nat [simp]:
  "CHR ''-'' # cs \<noteq> show_nat n" "show_nat n \<noteq> CHR ''-'' # cs"
  using minus_notin_show_nat [of n] by (metis list.set_intros(1))+

lemma show_int_inject [simp]: "show_int i = show_int j \<longleftrightarrow> i = j"
  by (auto simp: show_int_def)

section \<open>Text\<close>

text \<open>The lines of a text: what lies before each newline, and what lies after the last one when it
  is not empty.\<close>

fun lines :: "string \<Rightarrow> string list" where
  "lines [] = []"
| "lines (c # cs) = (if c = CHR 0x0A then [] # lines cs
     else case lines cs of [] \<Rightarrow> [[c]] | l # ls \<Rightarrow> (c # l) # ls)"

section \<open>Consecutive pairs\<close>

text \<open>The slice method \<open>windows(2)\<close>.\<close>

fun windows2 :: "'a list \<Rightarrow> ('a \<times> 'a) list" where
  "windows2 (x # y # zs) = (x, y) # windows2 (y # zs)"
| "windows2 [x] = []"
| "windows2 [] = []"

lemma windows2_in: "p \<in> set (windows2 ps) \<Longrightarrow> fst p \<in> set ps \<and> snd p \<in> set ps"
  by (induction ps rule: windows2.induct) auto

lemma windows2_le:
  fixes ps :: "'a::linorder list"
  shows "sorted ps \<Longrightarrow> p \<in> set (windows2 ps) \<Longrightarrow> fst p \<le> snd p"
  by (induction ps rule: windows2.induct) auto

lemma windows2_sorted_iff:
  fixes f :: "'a \<Rightarrow> 'b::linorder"
  shows "(\<forall>p \<in> set (windows2 ps). f (fst p) \<le> f (snd p)) \<longleftrightarrow> sorted (map f ps)"
  by (induction ps rule: windows2.induct) (auto intro: order_trans)

lemma windows2_ordered:
  fixes ps :: "'a::linorder list"
  shows "sorted ps \<Longrightarrow> sorted_wrt (\<lambda>a b. snd a \<le> fst b) (windows2 ps)"
proof (induction ps rule: windows2.induct)
  case (1 x y zs)
  then show ?case by (auto dest!: windows2_in)
qed simp_all

lemma windows2_gap:
  fixes ps :: "'a::linorder list"
  assumes "sorted ps" "(s, e) \<in> set (windows2 ps)" "x \<in> set ps"
  shows "x \<le> s \<or> e \<le> x"
  using assms
proof (induction ps rule: windows2.induct)
  case (1 a b zs)
  have "a \<le> s" if "(s, e) \<in> set (windows2 (b # zs))"
    using windows2_in [OF that] "1.prems"(1) by auto
  with 1 show ?case by auto
qed simp_all

lemma windows2_around:
  fixes ps :: "'a::linorder list"
  assumes "sorted ps" "a \<in> set ps" "b \<in> set ps" "a \<le> t" "t < b"
  shows "\<exists>(s, e) \<in> set (windows2 ps). s \<le> t \<and> t < e"
  using assms
proof (induction ps arbitrary: a rule: windows2.induct)
  case (1 x y zs)
  show ?case
  proof (cases "t < y")
    case True
    then show ?thesis using 1 by auto
  next
    case False
    then have "\<exists>(s, e) \<in> set (windows2 (y # zs)). s \<le> t \<and> t < e"
      using 1 by (intro "1.IH" [of y]) auto
    then show ?thesis by auto
  qed
qed auto

lemma distinct_remdups_adj_sorted:
  fixes xs :: "'a::linorder list"
  shows "sorted xs \<Longrightarrow> distinct (remdups_adj xs)"
  by (induction xs rule: remdups_adj.induct) (auto simp: order.antisym)

lemma insort_key_map:
  "insort_key k (h x) (map h xs) = map h (insort_key (\<lambda>y. k (h y)) x xs)"
  by (induction xs) auto

lemma sort_key_map: "sort_key k (map h xs) = map h (sort_key (\<lambda>y. k (h y)) xs)"
  by (induction xs) (auto simp: insort_key_map)

section \<open>Loops that can panic\<close>

text \<open>A \<open>for\<close> loop whose body can panic: \<open>None\<close> as soon as one iteration panics.\<close>

fun foldM :: "('a \<Rightarrow> 's \<Rightarrow> 's option) \<Rightarrow> 'a list \<Rightarrow> 's \<Rightarrow> 's option" where
  "foldM f [] s = Some s"
| "foldM f (x # xs) s = Option.bind (f x s) (foldM f xs)"

lemma foldM_append: "foldM f (xs @ ys) s = Option.bind (foldM f xs s) (foldM f ys)"
proof (induction xs arbitrary: s)
  case (Cons x xs)
  then show ?case by (cases "f x s") simp_all
qed simp

lemma foldM_total:
  assumes "\<And>x s. x \<in> set xs \<Longrightarrow> P s \<Longrightarrow> \<exists>s'. f x s = Some s' \<and> P s'"
    and "P s"
  shows "\<exists>s'. foldM f xs s = Some s' \<and> P s'"
  using assms
proof (induction xs arbitrary: s)
  case Nil
  then show ?case by simp
next
  case (Cons x xs)
  then obtain s' where "f x s = Some s'" "P s'"
    by (meson list.set_intros(1))
  with Cons show ?case by simp
qed

text \<open>An invariant that relates the state to what has been consumed.\<close>

lemma foldM_history:
  assumes "\<And>h x s. P h s \<Longrightarrow> \<exists>s'. f x s = Some s' \<and> P (h @ [x]) s'"
    and "P h s"
  shows "\<exists>s'. foldM f xs s = Some s' \<and> P (h @ xs) s'"
  using assms(2)
proof (induction xs arbitrary: h s)
  case (Cons x xs)
  obtain s' where "f x s = Some s'" "P (h @ [x]) s'"
    using assms(1) [OF Cons.prems] by blast
  with Cons.IH [of "h @ [x]" s'] show ?case by simp
qed simp

lemma foldM_cong:
  "(\<And>x s. x \<in> set xs \<Longrightarrow> f x s = g x s) \<Longrightarrow> foldM f xs s = foldM g xs s"
proof (induction xs arbitrary: s)
  case (Cons x xs)
  then show ?case by (cases "g x s") simp_all
qed simp

lemma those_map_Some:
  assumes "\<And>x. x \<in> set xs \<Longrightarrow> f x = Some (g x)"
  shows "those (map f xs) = Some (map g xs)"
  using assms by (induction xs) auto

text \<open>\<open>Iterator::all\<close> and \<open>Iterator::filter\<close> with a closure that can panic.\<close>

fun allM :: "('a \<Rightarrow> bool option) \<Rightarrow> 'a list \<Rightarrow> bool option" where
  "allM f [] = Some True"
| "allM f (x # xs) = Option.bind (f x) (\<lambda>b. if b then allM f xs else Some False)"

fun filterM :: "('a \<Rightarrow> bool option) \<Rightarrow> 'a list \<Rightarrow> 'a list option" where
  "filterM f [] = Some []"
| "filterM f (x # xs) =
     Option.bind (f x) (\<lambda>b. Option.bind (filterM f xs) (\<lambda>ys. Some (if b then x # ys else ys)))"

lemma allM_Some:
  assumes "\<And>x. x \<in> set xs \<Longrightarrow> f x = Some (P x)"
  shows "allM f xs = Some (list_all P xs)"
  using assms by (induction xs) auto

lemma filterM_Some:
  assumes "\<And>x. x \<in> set xs \<Longrightarrow> f x = Some (P x)"
  shows "filterM f xs = Some (filter P xs)"
  using assms by (induction xs) auto

section \<open>Ordered collections\<close>

text \<open>Iteration over a \<open>BTreeMap\<close>: its entries in key order.\<close>

definition mapping_entries :: "('k::linorder, 'v) mapping \<Rightarrow> ('k \<times> 'v) list" where
  "mapping_entries m = map (\<lambda>k. (k, the (Mapping.lookup m k))) (Mapping.ordered_keys m)"

lemma set_mapping_entries:
  assumes "finite (Mapping.keys m)"
  shows "(k, v) \<in> set (mapping_entries m) \<longleftrightarrow> Mapping.lookup m k = Some v"
  using assms by (auto simp: mapping_entries_def keys_dom_lookup)

lemma sorted_mapping_entries:
  "sorted_wrt (<) (map fst (mapping_entries m))"
  by (simp add: mapping_entries_def comp_def strict_sorted_iff Mapping.ordered_keys_def
      sorted_list_of_set.distinct_sorted_key_list_of_set)

lemma distinct_mapping_entries: "distinct (map fst (mapping_entries m))"
  using sorted_mapping_entries [of m] by (simp add: strict_sorted_iff)

text \<open>Inserting, removing and draining: sizes and contents.\<close>

lemma lookup_delete_if:
  "Mapping.lookup (Mapping.delete k m) k' = (if k = k' then None else Mapping.lookup m k')"
  by simp

lemma in_keys_lookup: "k \<in> Mapping.keys m \<longleftrightarrow> Mapping.lookup m k \<noteq> None"
  by (simp add: keys_dom_lookup domIff)

lemma size_update_new:
  assumes "finite (Mapping.keys m)"
  shows "Mapping.size (Mapping.update k v m) =
    (if Mapping.lookup m k = None then Suc (Mapping.size m) else Mapping.size m)"
  using assms by (simp add: Mapping.size_update in_keys_lookup)

lemma size_delete_present:
  assumes "finite (Mapping.keys m)" "Mapping.lookup m k = Some v"
  shows "Mapping.size m = Suc (Mapping.size (Mapping.delete k m))"
proof -
  have "k \<in> Mapping.keys m"
    using assms(2) by (simp add: in_keys_lookup)
  moreover from this have "0 < Mapping.size m"
    using assms(1) by (auto simp: Mapping.size_def card_gt_0_iff)
  ultimately show ?thesis
    by (simp add: Mapping.size_delete)
qed

text \<open>The order in which a \<open>HashMap\<close> hands out its entries is unspecified: it is a function
  of the map of which only this is known.\<close>

definition drain_ok :: "(('k, 'v) mapping \<Rightarrow> ('k \<times> 'v) list) \<Rightarrow> bool" where
  "drain_ok drain \<longleftrightarrow> (\<forall>m. finite (Mapping.keys m) \<longrightarrow> distinct (map fst (drain m)) \<and>
     (\<forall>k v. (k, v) \<in> set (drain m) \<longleftrightarrow> Mapping.lookup m k = Some v))"

lemma drain_ok_entries: "drain_ok mapping_entries"
  by (simp add: drain_ok_def set_mapping_entries distinct_mapping_entries)

lemma filter_key:
  assumes "distinct (map fst D)" "\<And>k v. (k, v) \<in> set D \<longleftrightarrow> Mapping.lookup m k = Some v"
  shows "filter (\<lambda>(k, v). k = t) D = (case Mapping.lookup m t of None \<Rightarrow> [] | Some v \<Rightarrow> [(t, v)])"
proof -
  have "filter (\<lambda>(k, v). k = t) D = (case map_of D t of None \<Rightarrow> [] | Some v \<Rightarrow> [(t, v)])"
    using assms(1)
  proof (induction D)
    case (Cons p D)
    have "filter (\<lambda>(k, v). k = t) D = []" if "t \<notin> fst ` set D"
      using that by (force simp: filter_empty_conv)
    with Cons show ?case
      by (cases p) (force simp: map_of_eq_None_iff split: option.splits)
  qed simp
  also have "map_of D t = Mapping.lookup m t"
    using assms by (cases "Mapping.lookup m t") (auto simp: map_of_eq_None_iff)
  finally show ?thesis .
qed

lemma drain_length:
  assumes "drain_ok drain" "finite (Mapping.keys m)"
  shows "length (drain m) = Mapping.size m"
proof -
  have "distinct (map fst (drain m))" "set (map fst (drain m)) = Mapping.keys m"
    using assms by (force simp: drain_ok_def in_keys_lookup)+
  then have "length (map fst (drain m)) = card (Mapping.keys m)"
    by (metis distinct_card)
  then show ?thesis
    using assms(2) by (simp add: Mapping.size_def)
qed

text \<open>\<open>slice::binary_search(x).is_ok()\<close>, by bisection of the index range.\<close>

function bisect :: "'a::linorder list \<Rightarrow> 'a \<Rightarrow> nat \<Rightarrow> nat \<Rightarrow> bool" where
  "bisect xs x lo hi =
     (if hi \<le> lo then False
      else let mid = lo + (hi - lo) div 2
           in if xs ! mid = x then True
              else if xs ! mid < x then bisect xs x (Suc mid) hi else bisect xs x lo mid)"
  by pat_completeness auto
termination
  by (relation "measure (\<lambda>(xs, x, lo, hi). hi - lo)") auto

declare bisect.simps [simp del]

definition binary_search_is_ok :: "'a::linorder list \<Rightarrow> 'a \<Rightarrow> bool" where
  "binary_search_is_ok xs x = bisect xs x 0 (length xs)"

lemma bisect_iff:
  assumes "sorted xs" "hi \<le> length xs"
  shows "bisect xs x lo hi \<longleftrightarrow> (\<exists>i. lo \<le> i \<and> i < hi \<and> xs ! i = x)"
  using assms
proof (induction xs x lo hi rule: bisect.induct)
  case (1 xs x lo hi)
  show ?case
  proof (cases "hi \<le> lo")
    case True
    then show ?thesis by (subst bisect.simps) auto
  next
    case False
    define mid where "mid = lo + (hi - lo) div 2"
    have mid: "lo \<le> mid" "mid < hi"
      using False by (auto simp: mid_def)
    have step: "bisect xs x lo hi =
        (if xs ! mid = x then True
         else if xs ! mid < x then bisect xs x (Suc mid) hi else bisect xs x lo mid)"
      using False by (subst bisect.simps) (simp add: mid_def Let_def)
    have le: "i \<le> j \<Longrightarrow> j < length xs \<Longrightarrow> xs ! i \<le> xs ! j" for i j
      using "1.prems"(1) by (simp add: sorted_iff_nth_mono)
    consider "xs ! mid = x" | "xs ! mid < x" | "x < xs ! mid"
      by fastforce
    then show ?thesis
    proof cases
      case 1
      then show ?thesis using mid by (auto simp: step)
    next
      case 2
      then have "bisect xs x (Suc mid) hi \<longleftrightarrow> (\<exists>i. Suc mid \<le> i \<and> i < hi \<and> xs ! i = x)"
        using "1.IH"(1) [OF False mid_def] "1.prems" by auto
      moreover have "Suc mid \<le> i" if "lo \<le> i" "i < hi" "xs ! i = x" for i
        using le [of i mid] that 2 mid "1.prems"(2) by (meson leD less_le_trans not_less_eq_eq order_trans)
      moreover have "lo \<le> i" if "Suc mid \<le> i" for i
        using that mid by simp
      ultimately show ?thesis
        using 2 unfolding step by auto
    next
      case 3
      then have "bisect xs x lo mid \<longleftrightarrow> (\<exists>i. lo \<le> i \<and> i < mid \<and> xs ! i = x)"
        using "1.IH"(2) [OF False mid_def] "1.prems" mid by auto
      moreover have "i < mid" if "lo \<le> i" "i < hi" "xs ! i = x" for i
        using le [of mid i] that 3 "1.prems"(2) by (meson leD leI less_le_trans)
      moreover have "i < hi" if "i < mid" for i
        using that mid by simp
      ultimately show ?thesis
        using 3 unfolding step by auto
    qed
  qed
qed

lemma binary_search_is_ok_iff: "sorted xs \<Longrightarrow> binary_search_is_ok xs x \<longleftrightarrow> x \<in> set xs"
  by (auto simp: binary_search_is_ok_def bisect_iff in_set_conv_nth)

text \<open>\<open>Iterator::max\<close> followed by \<open>unwrap_or(0)\<close>.\<close>

fun iter_max :: "'a::linorder list \<Rightarrow> 'a option" where
  "iter_max [] = None"
| "iter_max (x # xs) = Some (fold max xs x)"

definition unwrap_or :: "'a \<Rightarrow> 'a option \<Rightarrow> 'a" where
  "unwrap_or d x = (case x of None \<Rightarrow> d | Some y \<Rightarrow> y)"

definition max_or_zero :: "u64 list \<Rightarrow> u64" where
  "max_or_zero xs = unwrap_or 0 (iter_max xs)"

lemma max_or_zero_Max: "max_or_zero xs = (if xs = [] then 0 else Max (set xs))"
  by (cases xs) (simp_all add: max_or_zero_def unwrap_or_def flip: Max.set_eq_fold)

end
