(* ===== verification/Cli.thy ===== *)
theory Cli
  imports Complex_Main Wperf_Prelude
begin

text \<open>
  The command line (\<open>src/cli.rs\<close>): the parsed commands with their arguments, and the
  validation of a duration. Clap's derived parser is not modelled; its value parser for
  durations is, over the argument \<open>parse_f64\<close> for \<open>str::parse::<f64>\<close>.
\<close>

text \<open>A floating-point number: a finite value, an infinity (\<open>True\<close> for the positive one) or not
  a number.\<close>

datatype f64 = Finite rat | Infinite bool | NaN

fun f64_positive :: "f64 \<Rightarrow> bool" where
  "f64_positive (Finite x) \<longleftrightarrow> 0 < x"
| "f64_positive (Infinite pos) \<longleftrightarrow> pos"
| "f64_positive NaN \<longleftrightarrow> False"

datatype ReportFormat = Json | Dot | Svg

record RecordArgs =
  ra_output :: string
  ra_duration :: "f64 option"
  ra_buffer_size :: "u32 option"

record ReportArgs =
  rp_input :: string
  rp_format :: ReportFormat
  rp_spurious_threshold_us :: u32

datatype Command = Record RecordArgs | Report ReportArgs | Version

definition parse_positive_duration :: "(string \<Rightarrow> string + f64) \<Rightarrow> string \<Rightarrow> string + f64" where
  "parse_positive_duration parse_f64 s =
     (case parse_f64 s of
        Inl e \<Rightarrow> Inl e
      | Inr val \<Rightarrow> if f64_positive val then Inr val else Inl ''duration must be positive'')"

lemma parse_positive_duration_Inr:
  "parse_positive_duration parse_f64 s = Inr val \<longleftrightarrow> parse_f64 s = Inr val \<and> f64_positive val"
  by (auto simp: parse_positive_duration_def split: sum.splits)

end
