(* ===== verification/Petgraph.thy ===== *)
theory Petgraph
  imports Wperf_Prelude
begin

text \<open>
  The interface of the crate \<open>petgraph\<close>, whose sources are not part of the repository.
  The program's definitions take the operations of \<open>petgraph::graph::DiGraph\<close> they call as
  one argument, a record of functions over an abstract graph type \<open>'g\<close>; the locale
  \<open>petgraph\<close> states the documented behaviour of those operations the program relies on:
  node and edge indices are contiguous and handed out in insertion order, a weight or the
  endpoints are there exactly for an index in range, \<open>add_edge\<close> panics (\<open>None\<close>) when an
  endpoint is missing, and \<open>edges_directed\<close> enumerates the incident edges once each, in an
  order that is left open. \<open>tarjan_scc\<close> and \<open>toposort\<close> are parameters as well; the
  predicates \<open>tarjan_ok\<close> and \<open>toposort_ok\<close> state what their documentation promises of a
  result on a given graph. The indices of \<open>DiGraph\<close> are u32, and adding to a graph that has
  2^32 - 1 nodes or edges already panics; the laws speak of graphs below that capacity.
\<close>

section \<open>Operations\<close>

datatype Direction = Outgoing | Incoming

record ('g, 'n, 'e) petgraph_api =
  pg_new :: "'g"
  pg_add_node :: "'g \<Rightarrow> 'n \<Rightarrow> 'g \<times> nat"
  pg_add_edge :: "'g \<Rightarrow> nat \<Rightarrow> nat \<Rightarrow> 'e \<Rightarrow> ('g \<times> nat) option"
  pg_node_count :: "'g \<Rightarrow> nat"
  pg_edge_count :: "'g \<Rightarrow> nat"
  pg_node_indices :: "'g \<Rightarrow> nat list"
  pg_edge_indices :: "'g \<Rightarrow> nat list"
  pg_node_weight :: "'g \<Rightarrow> nat \<Rightarrow> 'n option"
  pg_edge_weight :: "'g \<Rightarrow> nat \<Rightarrow> 'e option"
  pg_set_node_weight :: "'g \<Rightarrow> nat \<Rightarrow> 'n \<Rightarrow> 'g option"
  pg_set_edge_weight :: "'g \<Rightarrow> nat \<Rightarrow> 'e \<Rightarrow> 'g option"
  pg_edge_endpoints :: "'g \<Rightarrow> nat \<Rightarrow> (nat \<times> nat) option"
  pg_edges_directed :: "'g \<Rightarrow> nat \<Rightarrow> Direction \<Rightarrow> nat list"

text \<open>The contents of a graph, read through the operations: its node weights and its edges
  with their endpoints, by index.\<close>

definition pg_nodes :: "('g, 'n, 'e) petgraph_api \<Rightarrow> 'g \<Rightarrow> 'n list" where
  "pg_nodes api g = map (\<lambda>i. the (pg_node_weight api g i)) [0..<pg_node_count api g]"

definition pg_edges :: "('g, 'n, 'e) petgraph_api \<Rightarrow> 'g \<Rightarrow> (nat \<times> nat \<times> 'e) list" where
  "pg_edges api g =
     map (\<lambda>i. (fst (the (pg_edge_endpoints api g i)), snd (the (pg_edge_endpoints api g i)),
               the (pg_edge_weight api g i)))
       [0..<pg_edge_count api g]"

definition end_of :: "Direction \<Rightarrow> nat \<times> nat \<times> 'e \<Rightarrow> nat" where
  "end_of dir e = (case dir of Outgoing \<Rightarrow> fst e | Incoming \<Rightarrow> fst (snd e))"

section \<open>Documented behaviour\<close>

locale petgraph =
  fixes api :: "('g, 'n, 'e) petgraph_api"
  assumes node_indices: "pg_node_indices api g = [0..<pg_node_count api g]"
    and edge_indices: "pg_edge_indices api g = [0..<pg_edge_count api g]"
    and node_weight_some: "pg_node_weight api g i \<noteq> None \<longleftrightarrow> i < pg_node_count api g"
    and edge_weight_some: "pg_edge_weight api g e \<noteq> None \<longleftrightarrow> e < pg_edge_count api g"
    and endpoints_some: "pg_edge_endpoints api g e \<noteq> None \<longleftrightarrow> e < pg_edge_count api g"
    and new_empty: "pg_node_count api (pg_new api) = 0" "pg_edge_count api (pg_new api) = 0"
    and add_node_index: "snd (pg_add_node api g n) = pg_node_count api g"
    and add_node_nodes: "pg_nodes api (fst (pg_add_node api g n)) = pg_nodes api g @ [n]"
    and add_node_edges: "pg_edges api (fst (pg_add_node api g n)) = pg_edges api g"
    and add_edge_law:
      "if s < pg_node_count api g \<and> d < pg_node_count api g
       then (\<exists>g'. pg_add_edge api g s d w = Some (g', pg_edge_count api g) \<and>
               pg_nodes api g' = pg_nodes api g \<and>
               pg_edges api g' = pg_edges api g @ [(s, d, w)])
       else pg_add_edge api g s d w = None"
    and set_node_weight_law:
      "if i < pg_node_count api g
       then (\<exists>g'. pg_set_node_weight api g i n = Some g' \<and>
               pg_nodes api g' = (pg_nodes api g)[i := n] \<and> pg_edges api g' = pg_edges api g)
       else pg_set_node_weight api g i n = None"
    and set_edge_weight_law:
      "if e < pg_edge_count api g
       then (\<exists>g'. pg_set_edge_weight api g e w = Some g' \<and>
               pg_nodes api g' = pg_nodes api g \<and>
               pg_edges api g' =
                 (pg_edges api g)[e := (fst (pg_edges api g ! e), fst (snd (pg_edges api g ! e)), w)])
       else pg_set_edge_weight api g e w = None"
    and edges_directed_distinct: "distinct (pg_edges_directed api g a dir)"
    and edges_directed_set:
      "set (pg_edges_directed api g a dir) =
         {e. e < pg_edge_count api g \<and> end_of dir (pg_edges api g ! e) = a}"
begin

lemma length_pg_nodes [simp]: "length (pg_nodes api g) = pg_node_count api g"
  by (simp add: pg_nodes_def)

lemma length_pg_edges [simp]: "length (pg_edges api g) = pg_edge_count api g"
  by (simp add: pg_edges_def)

lemma node_weight_eq:
  "i < pg_node_count api g \<Longrightarrow> pg_node_weight api g i = Some (pg_nodes api g ! i)"
  using node_weight_some [of g i] by (auto simp: pg_nodes_def)

lemma edge_weight_eq:
  "e < pg_edge_count api g \<Longrightarrow> pg_edge_weight api g e = Some (snd (snd (pg_edges api g ! e)))"
  using edge_weight_some [of g e] by (auto simp: pg_edges_def)

lemma endpoints_eq:
  "e < pg_edge_count api g \<Longrightarrow>
   pg_edge_endpoints api g e = Some (fst (pg_edges api g ! e), fst (snd (pg_edges api g ! e)))"
  using endpoints_some [of g e] by (auto simp: pg_edges_def)

lemma new_nodes: "pg_nodes api (pg_new api) = []"
  by (simp add: pg_nodes_def new_empty)

lemma new_edges: "pg_edges api (pg_new api) = []"
  by (simp add: pg_edges_def new_empty)

lemma add_node_counts:
  "pg_node_count api (fst (pg_add_node api g n)) = Suc (pg_node_count api g)"
  "pg_edge_count api (fst (pg_add_node api g n)) = pg_edge_count api g"
  using add_node_nodes [of g n] add_node_edges [of g n]
  by (metis length_append_singleton length_pg_nodes, metis length_pg_edges)

lemma add_edge_ok:
  assumes "s < pg_node_count api g" "d < pg_node_count api g"
  obtains g' where "pg_add_edge api g s d w = Some (g', pg_edge_count api g)"
    "pg_nodes api g' = pg_nodes api g" "pg_edges api g' = pg_edges api g @ [(s, d, w)]"
  using add_edge_law [of s g d w] assms by auto

lemma set_edge_weight_ok:
  assumes "e < pg_edge_count api g"
  obtains g' where "pg_set_edge_weight api g e w = Some g'"
    "pg_nodes api g' = pg_nodes api g"
    "pg_edges api g' =
       (pg_edges api g)[e := (fst (pg_edges api g ! e), fst (snd (pg_edges api g ! e)), w)]"
  using set_edge_weight_law [of e g w] assms by auto

lemma set_node_weight_ok:
  assumes "i < pg_node_count api g"
  obtains g' where "pg_set_node_weight api g i n = Some g'"
    "pg_nodes api g' = (pg_nodes api g)[i := n]" "pg_edges api g' = pg_edges api g"
  using set_node_weight_law [of i g n] assms by auto

lemma edges_directed_less:
  "e \<in> set (pg_edges_directed api g a dir) \<Longrightarrow> e < pg_edge_count api g"
  by (simp add: edges_directed_set)

end

section \<open>Graph algorithms\<close>

definition pg_rel :: "('g, 'n, 'e) petgraph_api \<Rightarrow> 'g \<Rightarrow> (nat \<times> nat) set" where
  "pg_rel api g = (\<lambda>(s, d, w). (s, d)) ` set (pg_edges api g)"

text \<open>\<open>petgraph::algo::tarjan_scc\<close>: every node is in exactly one component, a component
  holds the nodes that reach each other, and the components come in reverse topological
  order (an edge never leads to a later component).\<close>

definition tarjan_ok :: "('g, 'n, 'e) petgraph_api \<Rightarrow> 'g \<Rightarrow> nat list list \<Rightarrow> bool" where
  "tarjan_ok api g cs \<longleftrightarrow>
     distinct (concat cs) \<and> [] \<notin> set cs \<and>
     set (concat cs) = {..<pg_node_count api g} \<and>
     (\<forall>c \<in> set cs. \<forall>u \<in> set c. \<forall>v < pg_node_count api g.
        v \<in> set c \<longleftrightarrow> (u, v) \<in> (pg_rel api g)\<^sup>* \<and> (v, u) \<in> (pg_rel api g)\<^sup>*) \<and>
     (\<forall>i < length cs. \<forall>j < length cs. \<forall>u \<in> set (cs ! i). \<forall>v \<in> set (cs ! j).
        (u, v) \<in> pg_rel api g \<longrightarrow> j \<le> i)"

text \<open>\<open>petgraph::algo::toposort\<close>: an order in which every node comes before its successors,
  or an error (\<open>None\<close>), which is returned only for a graph with a cycle.\<close>

definition toposort_ok :: "('g, 'n, 'e) petgraph_api \<Rightarrow> 'g \<Rightarrow> nat list option \<Rightarrow> bool" where
  "toposort_ok api g r \<longleftrightarrow>
     (case r of
        Some order \<Rightarrow>
          distinct order \<and> set order = {..<pg_node_count api g} \<and>
          (\<forall>i < length order. \<forall>j < length order. (order ! i, order ! j) \<in> pg_rel api g \<longrightarrow> i < j)
      | None \<Rightarrow> \<not> acyclic (pg_rel api g))"

section \<open>An adjacency-list implementation\<close>

text \<open>A directed graph as its list of nodes and its list of edges: it satisfies the laws, so
  they are consistent, and the concrete runs of the development use it.
  \<open>edges_directed\<close> yields the most recent edge first.\<close>

type_synonym ('n, 'e) adj = "'n list \<times> (nat \<times> nat \<times> 'e) list"

definition adj_add_edge :: "('n, 'e) adj \<Rightarrow> nat \<Rightarrow> nat \<Rightarrow> 'e \<Rightarrow> (('n, 'e) adj \<times> nat) option" where
  "adj_add_edge g s d w =
     (if s < length (fst g) \<and> d < length (fst g)
      then Some ((fst g, snd g @ [(s, d, w)]), length (snd g)) else None)"

definition adj_edges_directed :: "('n, 'e) adj \<Rightarrow> nat \<Rightarrow> Direction \<Rightarrow> nat list" where
  "adj_edges_directed g a dir =
     rev (filter (\<lambda>e. end_of dir (snd g ! e) = a) [0..<length (snd g)])"

definition adj_api :: "(('n, 'e) adj, 'n, 'e) petgraph_api" where
  "adj_api =
     \<lparr>pg_new = ([], []),
      pg_add_node = (\<lambda>g n. ((fst g @ [n], snd g), length (fst g))),
      pg_add_edge = adj_add_edge,
      pg_node_count = (\<lambda>g. length (fst g)),
      pg_edge_count = (\<lambda>g. length (snd g)),
      pg_node_indices = (\<lambda>g. [0..<length (fst g)]),
      pg_edge_indices = (\<lambda>g. [0..<length (snd g)]),
      pg_node_weight = (\<lambda>g i. if i < length (fst g) then Some (fst g ! i) else None),
      pg_edge_weight = (\<lambda>g e. if e < length (snd g) then Some (snd (snd (snd g ! e))) else None),
      pg_set_node_weight =
        (\<lambda>g i n. if i < length (fst g) then Some ((fst g)[i := n], snd g) else None),
      pg_set_edge_weight =
        (\<lambda>g e w. if e < length (snd g)
                 then Some (fst g, (snd g)[e := (fst (snd g ! e), fst (snd (snd g ! e)), w)])
                 else None),
      pg_edge_endpoints =
        (\<lambda>g e. if e < length (snd g) then Some (fst (snd g ! e), fst (snd (snd g ! e))) else None),
      pg_edges_directed = adj_edges_directed\<rparr>"

lemma adj_ops [simp]:
  "pg_new adj_api = ([], [])"
  "pg_add_node adj_api g n = ((fst g @ [n], snd g), length (fst g))"
  "pg_add_edge adj_api g s d w = adj_add_edge g s d w"
  "pg_node_count adj_api g = length (fst g)"
  "pg_edge_count adj_api g = length (snd g)"
  "pg_node_indices adj_api g = [0..<length (fst g)]"
  "pg_edge_indices adj_api g = [0..<length (snd g)]"
  "pg_node_weight adj_api g i = (if i < length (fst g) then Some (fst g ! i) else None)"
  "pg_edge_weight adj_api g e = (if e < length (snd g) then Some (snd (snd (snd g ! e))) else None)"
  "pg_set_node_weight adj_api g i n =
     (if i < length (fst g) then Some ((fst g)[i := n], snd g) else None)"
  "pg_set_edge_weight adj_api g e w =
     (if e < length (snd g)
      then Some (fst g, (snd g)[e := (fst (snd g ! e), fst (snd (snd g ! e)), w)]) else None)"
  "pg_edge_endpoints adj_api g e =
     (if e < length (snd g) then Some (fst (snd g ! e), fst (snd (snd g ! e))) else None)"
  "pg_edges_directed adj_api g a dir = adj_edges_directed g a dir"
  by (simp_all add: adj_api_def)

lemma adj_nodes [simp]: "pg_nodes adj_api g = fst g"
  by (rule nth_equalityI) (auto simp: pg_nodes_def)

lemma adj_edges [simp]: "pg_edges adj_api g = snd g"
  by (rule nth_equalityI) (auto simp: pg_edges_def)

interpretation adj: petgraph adj_api
  by unfold_locales (auto simp: adj_add_edge_def adj_edges_directed_def)

lemma adj_rel: "pg_rel adj_api g = (\<lambda>(s, d, w). (s, d)) ` set (snd g)"
  by (simp add: pg_rel_def)

end
