(* ===== verification/Graph_Types.thy ===== *)
theory Graph_Types
  imports Wperf_Prelude
begin

text \<open>
  The data of the Wait-For Graph (\<open>src/graph/types.rs\<close>): thread identifiers with their
  order and display, half-open time windows in u64 milliseconds, wait types, the edge and
  node metadata with the three constructors of an edge weight, and the elementary interval
  of the sweep.
\<close>

section \<open>Thread identifiers\<close>

text \<open>\<open>ThreadId(pub i64)\<close> with its derived order. No arithmetic is done on the identifier,
  so its i64 is an \<open>int\<close>.\<close>

datatype ThreadId = ThreadId (tid_val: int)

instantiation ThreadId :: linorder
begin

definition less_eq_ThreadId :: "ThreadId \<Rightarrow> ThreadId \<Rightarrow> bool" where
  "less_eq_ThreadId a b \<longleftrightarrow> tid_val a \<le> tid_val b"

definition less_ThreadId :: "ThreadId \<Rightarrow> ThreadId \<Rightarrow> bool" where
  "less_ThreadId a b \<longleftrightarrow> tid_val a < tid_val b"

instance
  by standard (auto simp: less_eq_ThreadId_def less_ThreadId_def intro: ThreadId.expand)

end

lemma ThreadId_le [simp]: "ThreadId a \<le> ThreadId b \<longleftrightarrow> a \<le> b"
  by (simp add: less_eq_ThreadId_def)

lemma ThreadId_less [simp]: "ThreadId a < ThreadId b \<longleftrightarrow> a < b"
  by (simp add: less_ThreadId_def)

definition NIC_TID :: int where "NIC_TID = -4"
definition DISK_TID :: int where "DISK_TID = -5"
definition HARDIRQ_TID :: int where "HARDIRQ_TID = -15"
definition SOFTIRQ_TID :: int where "SOFTIRQ_TID = -16"

definition ThreadId_fmt :: "ThreadId \<Rightarrow> string" where
  "ThreadId_fmt t =
     (if tid_val t = NIC_TID then ''NIC''
      else if tid_val t = DISK_TID then ''Disk''
      else if tid_val t = HARDIRQ_TID then ''HardIRQ''
      else if tid_val t = SOFTIRQ_TID then ''SoftIRQ''
      else CHR ''T'' # show_int (tid_val t))"

section \<open>Time windows\<close>

record TimeWindow =
  start_ms :: u64
  end_ms :: u64

text \<open>\<open>TimeWindow::new\<close> only carries a \<open>debug_assert\<close>, which a release build drops; the
  asserted condition is \<open>window_ok\<close>, and the components prove it of every window they build.\<close>

definition TimeWindow_new :: "u64 \<Rightarrow> u64 \<Rightarrow> TimeWindow" where
  "TimeWindow_new s e = \<lparr>start_ms = s, end_ms = e\<rparr>"

definition window_ok :: "TimeWindow \<Rightarrow> bool" where
  "window_ok w \<longleftrightarrow> start_ms w \<le> end_ms w"

definition duration :: "TimeWindow \<Rightarrow> u64" where
  "duration w = end_ms w - start_ms w"

definition overlap :: "TimeWindow \<Rightarrow> TimeWindow \<Rightarrow> TimeWindow option" where
  "overlap w other =
     (let s = max (start_ms w) (start_ms other);
          e = min (end_ms w) (end_ms other)
      in if s < e then Some \<lparr>start_ms = s, end_ms = e\<rparr> else None)"

definition contains :: "TimeWindow \<Rightarrow> u64 \<Rightarrow> bool" where
  "contains w point_ms \<longleftrightarrow> start_ms w \<le> point_ms \<and> point_ms < end_ms w"

lemma window_ok_new [simp]: "window_ok (TimeWindow_new s e) \<longleftrightarrow> s \<le> e"
  by (simp add: window_ok_def TimeWindow_new_def)

lemma new_simps [simp]:
  "start_ms (TimeWindow_new s e) = s" "end_ms (TimeWindow_new s e) = e"
  by (simp_all add: TimeWindow_new_def)

lemma unat_duration: "window_ok w \<Longrightarrow> unat (duration w) = unat (end_ms w) - unat (start_ms w)"
  by (simp add: window_ok_def duration_def unat_diff_le)

lemma contains_overlap:
  "contains w t \<and> contains v t \<longleftrightarrow> (\<exists>o'. overlap w v = Some o' \<and> contains o' t)"
  by (auto simp: contains_def overlap_def Let_def)

lemma overlap_commute: "overlap w v = overlap v w"
  by (simp add: overlap_def max.commute min.commute)

lemma overlap_SomeD:
  assumes "overlap w v = Some u"
  shows "start_ms u < end_ms u" "window_ok u"
    "start_ms w \<le> start_ms u" "end_ms u \<le> end_ms w"
    "start_ms v \<le> start_ms u" "end_ms u \<le> end_ms v"
  using assms by (auto simp: overlap_def Let_def window_ok_def split: if_splits)

section \<open>Edge and node metadata\<close>

datatype WaitType =
  Unknown | FutexWait | FutexLockPi | FutexWaitBitset | FutexWaitRequeuePi | IoBlock

datatype EdgeKind = Normal | SyntheticClosureReturn

lemma EdgeKind_neq [simp]: "k \<noteq> SyntheticClosureReturn \<longleftrightarrow> k = Normal"
  by (cases k) auto

record EdgeWeight =
  time_window :: TimeWindow
  raw_wait_ms :: u64
  attributed_delay_ms :: u64
  wait_type :: "WaitType option"
  edge_kind :: EdgeKind

definition EdgeWeight_new :: "TimeWindow \<Rightarrow> EdgeWeight" where
  "EdgeWeight_new w =
     (let raw = duration w
      in \<lparr>time_window = w, raw_wait_ms = raw, attributed_delay_ms = raw,
          wait_type = None, edge_kind = Normal\<rparr>)"

definition with_wait_type :: "TimeWindow \<Rightarrow> WaitType \<Rightarrow> EdgeWeight" where
  "with_wait_type w wt = (EdgeWeight_new w)\<lparr>wait_type := Some wt\<rparr>"

definition synthetic_closure_return :: "TimeWindow \<Rightarrow> WaitType \<Rightarrow> EdgeWeight" where
  "synthetic_closure_return w wt = (with_wait_type w wt)\<lparr>edge_kind := SyntheticClosureReturn\<rparr>"

datatype NodeKind = UserThread | KernelThread | PseudoDisk | PseudoNic | PseudoSoftirq

record NodeWeight =
  nw_tid :: ThreadId
  nw_kind :: NodeKind

record ElementaryInterval =
  ei_window :: TimeWindow
  ei_targets :: "ThreadId list"

text \<open>An edge weight as the constructors build it: the raw wait is the duration of a
  well-formed window.\<close>

definition edge_ok :: "EdgeWeight \<Rightarrow> bool" where
  "edge_ok ew \<longleftrightarrow> window_ok (time_window ew) \<and> raw_wait_ms ew = duration (time_window ew)"

lemma edge_constructors [simp]:
  "time_window (EdgeWeight_new w) = w" "time_window (with_wait_type w wt) = w"
  "time_window (synthetic_closure_return w wt) = w"
  "raw_wait_ms (EdgeWeight_new w) = duration w" "raw_wait_ms (with_wait_type w wt) = duration w"
  "raw_wait_ms (synthetic_closure_return w wt) = duration w"
  "attributed_delay_ms (EdgeWeight_new w) = duration w"
  "attributed_delay_ms (with_wait_type w wt) = duration w"
  "attributed_delay_ms (synthetic_closure_return w wt) = duration w"
  "edge_kind (EdgeWeight_new w) = Normal" "edge_kind (with_wait_type w wt) = Normal"
  "edge_kind (synthetic_closure_return w wt) = SyntheticClosureReturn"
  "wait_type (EdgeWeight_new w) = None" "wait_type (with_wait_type w wt) = Some wt"
  "wait_type (synthetic_closure_return w wt) = Some wt"
  by (simp_all add: EdgeWeight_new_def with_wait_type_def synthetic_closure_return_def Let_def)

lemma ThreadId_fmt_inject: "ThreadId_fmt a = ThreadId_fmt b \<longleftrightarrow> a = b"
  by (cases a; cases b)
    (auto simp: ThreadId_fmt_def NIC_TID_def DISK_TID_def HARDIRQ_TID_def SOFTIRQ_TID_def)

end
