(* ===== verification/Wfg.thy ===== *)
theory Wfg
  imports Petgraph Graph_Types
begin

text \<open>
  The Wait-For Graph (\<open>src/graph/wfg.rs\<close>): a petgraph \<open>DiGraph\<close> together with a
  \<open>BTreeMap\<close> from thread identifiers to node indices. Every operation takes the petgraph
  operations as its first argument; \<open>None\<close> is a panic (an index out of range, a failed
  \<open>expect\<close>). The second half gives the contents of a graph as plain data, the list of its
  edges with their thread ids, and shows what each operation does to it.
\<close>

section \<open>State and operations\<close>

record 'g WaitForGraph =
  graph :: 'g
  node_map :: "(ThreadId, nat) mapping"

type_synonym 'g wfg_api = "('g, NodeWeight, EdgeWeight) petgraph_api"
type_synonym edge_ref = "nat \<times> ThreadId \<times> EdgeWeight"
type_synonym full_edge_ref = "nat \<times> ThreadId \<times> ThreadId \<times> EdgeWeight"

definition WaitForGraph_new :: "'g wfg_api \<Rightarrow> 'g WaitForGraph" where
  "WaitForGraph_new api = \<lparr>graph = pg_new api, node_map = Mapping.empty\<rparr>"

definition add_node :: "'g wfg_api \<Rightarrow> 'g WaitForGraph \<Rightarrow> ThreadId \<Rightarrow> NodeKind \<Rightarrow> 'g WaitForGraph \<times> nat" where
  "add_node api g t k =
     (case Mapping.lookup (node_map g) t of
        Some idx \<Rightarrow> (g, idx)
      | None \<Rightarrow>
          (let (gr, idx) = pg_add_node api (graph g) \<lparr>nw_tid = t, nw_kind = k\<rparr>
           in (g\<lparr>graph := gr, node_map := Mapping.update t idx (node_map g)\<rparr>, idx)))"

text \<open>The common tail of the three edge constructors: resolve both endpoints (an \<open>expect\<close>
  each), then \<open>DiGraph::add_edge\<close>.\<close>

definition insert_edge ::
    "'g wfg_api \<Rightarrow> 'g WaitForGraph \<Rightarrow> ThreadId \<Rightarrow> ThreadId \<Rightarrow> EdgeWeight \<Rightarrow> ('g WaitForGraph \<times> nat) option" where
  "insert_edge api g src dst ew = do {
     src_idx \<leftarrow> Mapping.lookup (node_map g) src;
     dst_idx \<leftarrow> Mapping.lookup (node_map g) dst;
     (gr, eidx) \<leftarrow> pg_add_edge api (graph g) src_idx dst_idx ew;
     Some (g\<lparr>graph := gr\<rparr>, eidx)
   }"

definition add_edge ::
    "'g wfg_api \<Rightarrow> 'g WaitForGraph \<Rightarrow> ThreadId \<Rightarrow> ThreadId \<Rightarrow> TimeWindow \<Rightarrow> ('g WaitForGraph \<times> nat) option" where
  "add_edge api g src dst w = insert_edge api g src dst (EdgeWeight_new w)"

definition add_edge_with_wait_type ::
    "'g wfg_api \<Rightarrow> 'g WaitForGraph \<Rightarrow> ThreadId \<Rightarrow> ThreadId \<Rightarrow> TimeWindow \<Rightarrow> WaitType \<Rightarrow>
     ('g WaitForGraph \<times> nat) option" where
  "add_edge_with_wait_type api g src dst w wt = insert_edge api g src dst (with_wait_type w wt)"

definition add_synthetic_closure_return ::
    "'g wfg_api \<Rightarrow> 'g WaitForGraph \<Rightarrow> ThreadId \<Rightarrow> ThreadId \<Rightarrow> TimeWindow \<Rightarrow> WaitType \<Rightarrow>
     ('g WaitForGraph \<times> nat) option" where
  "add_synthetic_closure_return api g src dst w wt =
     insert_edge api g src dst (synthetic_closure_return w wt)"

definition thread_id :: "'g wfg_api \<Rightarrow> 'g WaitForGraph \<Rightarrow> nat \<Rightarrow> ThreadId option" where
  "thread_id api g idx = map_option nw_tid (pg_node_weight api (graph g) idx)"

definition node_index :: "'g WaitForGraph \<Rightarrow> ThreadId \<Rightarrow> nat option" where
  "node_index g t = Mapping.lookup (node_map g) t"

definition outgoing_edges :: "'g wfg_api \<Rightarrow> 'g WaitForGraph \<Rightarrow> nat \<Rightarrow> edge_ref list option" where
  "outgoing_edges api g node =
     those (map (\<lambda>e. do {
         (s, d) \<leftarrow> pg_edge_endpoints api (graph g) e;
         t \<leftarrow> thread_id api g d;
         ew \<leftarrow> pg_edge_weight api (graph g) e;
         Some (e, t, ew) })
       (pg_edges_directed api (graph g) node Outgoing))"

definition incoming_edges :: "'g wfg_api \<Rightarrow> 'g WaitForGraph \<Rightarrow> nat \<Rightarrow> edge_ref list option" where
  "incoming_edges api g node =
     those (map (\<lambda>e. do {
         (s, d) \<leftarrow> pg_edge_endpoints api (graph g) e;
         t \<leftarrow> thread_id api g s;
         ew \<leftarrow> pg_edge_weight api (graph g) e;
         Some (e, t, ew) })
       (pg_edges_directed api (graph g) node Incoming))"

text \<open>The sort key of \<open>all_edges\<close>: source, then destination; the sort is stable.\<close>

definition edge_key :: "full_edge_ref \<Rightarrow> ThreadId \<times> ThreadId" where
  "edge_key r = (case r of (_, s, d, _) \<Rightarrow> (s, d))"

definition all_edges :: "'g wfg_api \<Rightarrow> 'g WaitForGraph \<Rightarrow> full_edge_ref list option" where
  "all_edges api g = do {
     es \<leftarrow> those (map (\<lambda>e. do {
         (s, d) \<leftarrow> pg_edge_endpoints api (graph g) e;
         st \<leftarrow> thread_id api g s;
         dt \<leftarrow> thread_id api g d;
         ew \<leftarrow> pg_edge_weight api (graph g) e;
         Some (e, st, dt, ew) })
       (pg_edge_indices api (graph g)));
     Some (sort_key edge_key es)
   }"

definition node_count :: "'g wfg_api \<Rightarrow> 'g WaitForGraph \<Rightarrow> nat" where
  "node_count api g = pg_node_count api (graph g)"

definition edge_count :: "'g wfg_api \<Rightarrow> 'g WaitForGraph \<Rightarrow> nat" where
  "edge_count api g = pg_edge_count api (graph g)"

definition edge_weight :: "'g wfg_api \<Rightarrow> 'g WaitForGraph \<Rightarrow> nat \<Rightarrow> EdgeWeight option" where
  "edge_weight api g e = pg_edge_weight api (graph g) e"

text \<open>\<open>edge_weight_mut\<close> followed by a write through the reference, as a modification.\<close>

definition edge_weight_mut ::
    "'g wfg_api \<Rightarrow> 'g WaitForGraph \<Rightarrow> nat \<Rightarrow> (EdgeWeight \<Rightarrow> EdgeWeight) \<Rightarrow> 'g WaitForGraph option" where
  "edge_weight_mut api g e f = do {
     ew \<leftarrow> pg_edge_weight api (graph g) e;
     gr \<leftarrow> pg_set_edge_weight api (graph g) e (f ew);
     Some (g\<lparr>graph := gr\<rparr>)
   }"

definition node_weight :: "'g wfg_api \<Rightarrow> 'g WaitForGraph \<Rightarrow> nat \<Rightarrow> NodeWeight option" where
  "node_weight api g i = pg_node_weight api (graph g) i"

text \<open>The entries of the \<open>BTreeMap\<close> in key order.\<close>

definition node_map_entries :: "'g WaitForGraph \<Rightarrow> (ThreadId \<times> nat) list" where
  "node_map_entries g =
     map (\<lambda>t. (t, the (Mapping.lookup (node_map g) t))) (Mapping.ordered_keys (node_map g))"

definition node_indices :: "'g WaitForGraph \<Rightarrow> nat list" where
  "node_indices g = map snd (node_map_entries g)"

definition reset_attribution :: "EdgeWeight \<Rightarrow> EdgeWeight" where
  "reset_attribution ew = ew\<lparr>attributed_delay_ms := raw_wait_ms ew\<rparr>"

definition clone_nodes :: "'g wfg_api \<Rightarrow> 'g WaitForGraph \<Rightarrow> 'g WaitForGraph option" where
  "clone_nodes api g =
     foldM (\<lambda>(t, idx) new. do {
         nw \<leftarrow> pg_node_weight api (graph g) idx;
         Some (fst (add_node api new t (nw_kind nw))) })
       (node_map_entries g) (WaitForGraph_new api)"

definition clone_edge :: "'g wfg_api \<Rightarrow> 'g WaitForGraph \<Rightarrow> nat \<Rightarrow> 'g WaitForGraph \<Rightarrow> 'g WaitForGraph option" where
  "clone_edge api g e new = do {
     (s, d) \<leftarrow> pg_edge_endpoints api (graph g) e;
     src_tid \<leftarrow> thread_id api g s;
     dst_tid \<leftarrow> thread_id api g d;
     new_src \<leftarrow> Mapping.lookup (node_map new) src_tid;
     new_dst \<leftarrow> Mapping.lookup (node_map new) dst_tid;
     ew \<leftarrow> pg_edge_weight api (graph g) e;
     (gr, _) \<leftarrow> pg_add_edge api (graph new) new_src new_dst (reset_attribution ew);
     Some (new\<lparr>graph := gr\<rparr>)
   }"

definition clone_with_reset_attribution :: "'g wfg_api \<Rightarrow> 'g WaitForGraph \<Rightarrow> 'g WaitForGraph option" where
  "clone_with_reset_attribution api g = do {
     new \<leftarrow> clone_nodes api g;
     foldM (clone_edge api g) (pg_edge_indices api (graph g)) new
   }"

definition total_raw_wait :: "'g wfg_api \<Rightarrow> 'g WaitForGraph \<Rightarrow> u64 option" where
  "total_raw_wait api g = do {
     ws \<leftarrow> those (map (\<lambda>e. map_option raw_wait_ms (pg_edge_weight api (graph g) e))
            (pg_edge_indices api (graph g)));
     Some (sum_list ws)
   }"

definition total_attributed :: "'g wfg_api \<Rightarrow> 'g WaitForGraph \<Rightarrow> u64 option" where
  "total_attributed api g = do {
     ws \<leftarrow> those (map (\<lambda>e. map_option attributed_delay_ms (pg_edge_weight api (graph g) e))
            (pg_edge_indices api (graph g)));
     Some (sum_list ws)
   }"

text \<open>\<open>is_acyclic\<close>: petgraph's \<open>toposort\<close> is the argument.\<close>

definition is_acyclic :: "('g \<Rightarrow> nat list option) \<Rightarrow> 'g WaitForGraph \<Rightarrow> bool" where
  "is_acyclic toposort g \<longleftrightarrow> toposort (graph g) \<noteq> None"

section \<open>Contents and well-formedness\<close>

text \<open>The edges by index, with the thread ids of their endpoints; the kind of each node.\<close>

definition wfg_edges :: "'g wfg_api \<Rightarrow> 'g WaitForGraph \<Rightarrow> (ThreadId \<times> ThreadId \<times> EdgeWeight) list" where
  "wfg_edges api g =
     map (\<lambda>(s, d, ew). (nw_tid (pg_nodes api (graph g) ! s), nw_tid (pg_nodes api (graph g) ! d), ew))
       (pg_edges api (graph g))"

definition wfg_kind :: "'g wfg_api \<Rightarrow> 'g WaitForGraph \<Rightarrow> ThreadId \<Rightarrow> NodeKind option" where
  "wfg_kind api g t = map_option (\<lambda>i. nw_kind (pg_nodes api (graph g) ! i)) (Mapping.lookup (node_map g) t)"

definition wfg_threads :: "'g WaitForGraph \<Rightarrow> ThreadId set" where
  "wfg_threads g = Mapping.keys (node_map g)"

text \<open>The map and the node weights agree, and every edge has its endpoints.\<close>

definition wfg_inv :: "'g wfg_api \<Rightarrow> 'g WaitForGraph \<Rightarrow> bool" where
  "wfg_inv api g \<longleftrightarrow>
     (\<forall>t i. Mapping.lookup (node_map g) t = Some i \<longleftrightarrow>
        i < pg_node_count api (graph g) \<and> nw_tid (pg_nodes api (graph g) ! i) = t) \<and>
     (\<forall>(s, d, ew) \<in> set (pg_edges api (graph g)).
        s < pg_node_count api (graph g) \<and> d < pg_node_count api (graph g))"

text \<open>The entry of edge \<open>e\<close> in an enumeration from its source, or from its target.\<close>

definition edge_ref_out :: "'g wfg_api \<Rightarrow> 'g WaitForGraph \<Rightarrow> nat \<Rightarrow> edge_ref" where
  "edge_ref_out api g e = (e, fst (snd (wfg_edges api g ! e)), snd (snd (wfg_edges api g ! e)))"

definition edge_ref_in :: "'g wfg_api \<Rightarrow> 'g WaitForGraph \<Rightarrow> nat \<Rightarrow> edge_ref" where
  "edge_ref_in api g e = (e, fst (wfg_edges api g ! e), snd (snd (wfg_edges api g ! e)))"

text \<open>The edges with their indices.\<close>

definition indexed :: "(ThreadId \<times> ThreadId \<times> EdgeWeight) list \<Rightarrow> full_edge_ref list" where
  "indexed E = map (\<lambda>e. (e, E ! e)) [0..<length E]"

lemma length_indexed [simp]: "length (indexed E) = length E"
  by (simp add: indexed_def)

lemma in_indexed: "(e, s, d, ew) \<in> set (indexed E) \<longleftrightarrow> e < length E \<and> E ! e = (s, d, ew)"
  by (auto simp: indexed_def)

lemma indexed_weights: "map snd (indexed E) = E"
  by (rule nth_equalityI) (auto simp: indexed_def)

lemma indexed_weights_case: "map (\<lambda>(e, x). x) (indexed E) = E"
  by (rule nth_equalityI) (auto simp: indexed_def)

lemma indexed_map: "indexed (map f E) = map (\<lambda>(e, x). (e, f x)) (indexed E)"
  by (auto simp: indexed_def)

lemma in_wfg_threads: "t \<in> wfg_threads g \<longleftrightarrow> (\<exists>i. Mapping.lookup (node_map g) t = Some i)"
  by (simp add: wfg_threads_def keys_is_none_rep rep_def domIff Mapping.keys_dom_lookup)

lemma length_wfg_edges [simp]: "length (wfg_edges api g) = length (pg_edges api (graph g))"
  by (simp add: wfg_edges_def)

lemma nth_wfg_edges:
  "e < length (pg_edges api (graph g)) \<Longrightarrow>
   wfg_edges api g ! e =
     (nw_tid (pg_nodes api (graph g) ! fst (pg_edges api (graph g) ! e)),
      nw_tid (pg_nodes api (graph g) ! fst (snd (pg_edges api (graph g) ! e))),
      snd (snd (pg_edges api (graph g) ! e)))"
  by (simp add: wfg_edges_def split_beta)

locale wfg_graph = petgraph api for api :: "('g, NodeWeight, EdgeWeight) petgraph_api"
begin

lemma inv_node:
  "wfg_inv api g \<Longrightarrow> Mapping.lookup (node_map g) t = Some i \<longleftrightarrow>
   i < pg_node_count api (graph g) \<and> nw_tid (pg_nodes api (graph g) ! i) = t"
  by (simp add: wfg_inv_def)

lemma inv_lookup_nth:
  "wfg_inv api g \<Longrightarrow> i < pg_node_count api (graph g) \<Longrightarrow>
   Mapping.lookup (node_map g) (nw_tid (pg_nodes api (graph g) ! i)) = Some i"
  by (simp add: wfg_inv_def)

lemma inv_edge:
  assumes "wfg_inv api g" "e < pg_edge_count api (graph g)"
  shows "fst (pg_edges api (graph g) ! e) < pg_node_count api (graph g)"
    "fst (snd (pg_edges api (graph g) ! e)) < pg_node_count api (graph g)"
proof -
  have "pg_edges api (graph g) ! e \<in> set (pg_edges api (graph g))"
    using assms(2) by simp
  with assms(1) show "fst (pg_edges api (graph g) ! e) < pg_node_count api (graph g)"
    and "fst (snd (pg_edges api (graph g) ! e)) < pg_node_count api (graph g)"
    by (auto simp: wfg_inv_def split_beta)
qed

lemma thread_id_eq:
  "i < pg_node_count api (graph g) \<Longrightarrow>
   thread_id api g i = Some (nw_tid (pg_nodes api (graph g) ! i))"
  by (simp add: thread_id_def node_weight_eq)

lemma edges_in_threads:
  assumes "wfg_inv api g" "(s, d, ew) \<in> set (wfg_edges api g)"
  shows "s \<in> wfg_threads g" "d \<in> wfg_threads g"
  using assms by (auto simp: wfg_edges_def in_wfg_threads inv_node wfg_inv_def split_beta)

subsection \<open>Construction\<close>

lemma new_wfg:
  "wfg_inv api (WaitForGraph_new api)" "wfg_edges api (WaitForGraph_new api) = []"
  "wfg_threads (WaitForGraph_new api) = {}"
  by (simp_all add: wfg_inv_def WaitForGraph_new_def new_edges new_empty wfg_edges_def wfg_threads_def)

lemma add_node_inv:
  assumes "wfg_inv api g"
  shows "wfg_inv api (fst (add_node api g t k))"
proof (cases "Mapping.lookup (node_map g) t")
  case None
  let ?n = "pg_node_count api (graph g)"
  have fresh: "i < ?n \<Longrightarrow> nw_tid (pg_nodes api (graph g) ! i) \<noteq> t" for i
    using inv_node [OF assms, of t i] None by auto
  show ?thesis
    using assms None fresh
    by (auto simp: add_node_def wfg_inv_def split_beta Let_def add_node_index add_node_counts
        add_node_nodes add_node_edges nth_append less_Suc_eq lookup_update')
qed (use assms in \<open>simp add: add_node_def\<close>)

lemma add_node_edges_same:
  assumes "wfg_inv api g"
  shows "wfg_edges api (fst (add_node api g t k)) = wfg_edges api g"
proof (cases "Mapping.lookup (node_map g) t")
  case None
  then show ?thesis
    using assms
    by (auto simp: add_node_def wfg_inv_def wfg_edges_def split_beta Let_def
        add_node_nodes add_node_edges nth_append)
qed (simp add: add_node_def)

lemma add_node_kind:
  assumes "wfg_inv api g"
  shows "wfg_kind api (fst (add_node api g t k)) =
    (case wfg_kind api g t of None \<Rightarrow> (wfg_kind api g)(t \<mapsto> k) | Some _ \<Rightarrow> wfg_kind api g)"
proof (cases "Mapping.lookup (node_map g) t")
  case None
  then show ?thesis
    using assms
    by (auto simp: add_node_def wfg_inv_def wfg_kind_def split_beta Let_def fun_eq_iff
        add_node_nodes add_node_index nth_append lookup_update' intro!: option.map_cong0
        split: option.splits)
qed (simp add: add_node_def wfg_kind_def)

lemma add_node_threads: "wfg_threads (fst (add_node api g t k)) = insert t (wfg_threads g)"
  by (auto simp: add_node_def in_wfg_threads split_beta Let_def lookup_update'
      split: option.splits if_splits)

lemma insert_edge_ok:
  assumes "wfg_inv api g" "s \<in> wfg_threads g" "d \<in> wfg_threads g"
  obtains g' where "insert_edge api g s d ew = Some (g', length (wfg_edges api g))"
    "wfg_inv api g'" "wfg_edges api g' = wfg_edges api g @ [(s, d, ew)]"
    "node_map g' = node_map g" "wfg_kind api g' = wfg_kind api g"
proof -
  obtain i j where ij: "Mapping.lookup (node_map g) s = Some i" "Mapping.lookup (node_map g) d = Some j"
    using assms by (auto simp: in_wfg_threads)
  then have bounds: "i < pg_node_count api (graph g)" "j < pg_node_count api (graph g)"
    and tids: "nw_tid (pg_nodes api (graph g) ! i) = s" "nw_tid (pg_nodes api (graph g) ! j) = d"
    using assms(1) by (auto simp: inv_node)
  obtain gr where gr: "pg_add_edge api (graph g) i j ew = Some (gr, pg_edge_count api (graph g))"
    "pg_nodes api gr = pg_nodes api (graph g)" "pg_edges api gr = pg_edges api (graph g) @ [(i, j, ew)]"
    using add_edge_ok [OF bounds] by blast
  have n: "pg_node_count api gr = pg_node_count api (graph g)"
    using gr(2) by (metis length_pg_nodes)
  show thesis
  proof (rule that [of "g\<lparr>graph := gr\<rparr>"])
    show "wfg_inv api (g\<lparr>graph := gr\<rparr>)"
      using assms(1) bounds gr n by (auto simp: wfg_inv_def)
  qed (use gr tids ij in \<open>auto simp: insert_edge_def wfg_edges_def wfg_kind_def fun_eq_iff\<close>)
qed

lemma insert_edge_None:
  "s \<notin> wfg_threads g \<or> d \<notin> wfg_threads g \<Longrightarrow> insert_edge api g s d ew = None"
  by (auto simp: insert_edge_def in_wfg_threads not_Some_eq bind_eq_None_conv)

subsection \<open>Enumeration\<close>

lemma outgoing_edges_eq:
  assumes "wfg_inv api g"
  shows "outgoing_edges api g i =
    Some (map (edge_ref_out api g) (pg_edges_directed api (graph g) i Outgoing))"
  unfolding outgoing_edges_def
  by (rule those_map_Some)
    (auto dest!: edges_directed_less
      simp: endpoints_eq edge_weight_eq thread_id_eq inv_edge [OF assms] nth_wfg_edges edge_ref_out_def)

lemma incoming_edges_eq:
  assumes "wfg_inv api g"
  shows "incoming_edges api g i =
    Some (map (edge_ref_in api g) (pg_edges_directed api (graph g) i Incoming))"
  unfolding incoming_edges_def
  by (rule those_map_Some)
    (auto dest!: edges_directed_less
      simp: endpoints_eq edge_weight_eq thread_id_eq inv_edge [OF assms] nth_wfg_edges edge_ref_in_def)

lemma directed_out_set:
  assumes "wfg_inv api g" "node_index g t = Some i"
  shows "set (pg_edges_directed api (graph g) i Outgoing) =
    {e. e < length (wfg_edges api g) \<and> fst (wfg_edges api g ! e) = t}"
  using assms inv_edge [OF assms(1)]
  by (auto simp: edges_directed_set end_of_def nth_wfg_edges node_index_def inv_node)
    (metis assms(1) inv_node option.inject)

lemma directed_in_set:
  assumes "wfg_inv api g" "node_index g t = Some i"
  shows "set (pg_edges_directed api (graph g) i Incoming) =
    {e. e < length (wfg_edges api g) \<and> fst (snd (wfg_edges api g ! e)) = t}"
  using assms inv_edge [OF assms(1)]
  by (auto simp: edges_directed_set end_of_def nth_wfg_edges node_index_def inv_node)
    (metis assms(1) inv_node option.inject)

lemma outgoing_set:
  assumes "wfg_inv api g" "node_index g t = Some i"
  shows "(x, d, ew) \<in> set (map (edge_ref_out api g) (pg_edges_directed api (graph g) i Outgoing)) \<longleftrightarrow>
    x < length (wfg_edges api g) \<and> wfg_edges api g ! x = (t, d, ew)"
proof -
  let ?es = "pg_edges_directed api (graph g) i Outgoing"
  have "edge_ref_out api g e = (x, d, ew) \<longleftrightarrow> e = x \<and> snd (wfg_edges api g ! e) = (d, ew)" for e
    by (auto simp: edge_ref_out_def)
  then have "(x, d, ew) \<in> set (map (edge_ref_out api g) ?es) \<longleftrightarrow> x \<in> set ?es \<and> snd (wfg_edges api g ! x) = (d, ew)"
    unfolding set_map image_iff by metis
  then show ?thesis
    unfolding directed_out_set [OF assms] by (cases "wfg_edges api g ! x") auto
qed

lemma incoming_set:
  assumes "wfg_inv api g" "node_index g t = Some i"
  shows "(x, s, ew) \<in> set (map (edge_ref_in api g) (pg_edges_directed api (graph g) i Incoming)) \<longleftrightarrow>
    x < length (wfg_edges api g) \<and> wfg_edges api g ! x = (s, t, ew)"
proof -
  let ?es = "pg_edges_directed api (graph g) i Incoming"
  have "edge_ref_in api g e = (x, s, ew) \<longleftrightarrow>
      e = x \<and> fst (wfg_edges api g ! e) = s \<and> snd (snd (wfg_edges api g ! e)) = ew" for e
    by (auto simp: edge_ref_in_def)
  then have "(x, s, ew) \<in> set (map (edge_ref_in api g) ?es) \<longleftrightarrow>
      x \<in> set ?es \<and> fst (wfg_edges api g ! x) = s \<and> snd (snd (wfg_edges api g ! x)) = ew"
    unfolding set_map image_iff by metis
  then show ?thesis
    unfolding directed_in_set [OF assms] by (cases "wfg_edges api g ! x") auto
qed

lemma all_edges_eq:
  assumes "wfg_inv api g"
  shows "all_edges api g =
    Some (sort_key edge_key (indexed (wfg_edges api g)))"
proof -
  have "those (map (\<lambda>e. do {
         (s, d) \<leftarrow> pg_edge_endpoints api (graph g) e;
         st \<leftarrow> thread_id api g s;
         dt \<leftarrow> thread_id api g d;
         ew \<leftarrow> pg_edge_weight api (graph g) e;
         Some (e, st, dt, ew) })
       (pg_edge_indices api (graph g))) =
     Some (map (\<lambda>e. (e, wfg_edges api g ! e)) (pg_edge_indices api (graph g)))"
    by (rule those_map_Some)
      (auto simp: edge_indices endpoints_eq edge_weight_eq thread_id_eq inv_edge [OF assms] nth_wfg_edges)
  then show ?thesis
    by (simp add: all_edges_def edge_indices indexed_def)
qed

lemma total_raw_wait_eq:
  "total_raw_wait api g = Some (sum_list (map (\<lambda>(_, _, ew). raw_wait_ms ew) (wfg_edges api g)))"
proof -
  have "those (map (\<lambda>e. map_option raw_wait_ms (pg_edge_weight api (graph g) e))
          (pg_edge_indices api (graph g))) =
        Some (map (\<lambda>e. raw_wait_ms (snd (snd (pg_edges api (graph g) ! e)))) (pg_edge_indices api (graph g)))"
    by (rule those_map_Some) (auto simp: edge_indices edge_weight_eq)
  moreover have "map (\<lambda>e. raw_wait_ms (snd (snd (pg_edges api (graph g) ! e)))) (pg_edge_indices api (graph g)) =
      map (\<lambda>(_, _, ew). raw_wait_ms ew) (wfg_edges api g)"
    by (rule nth_equalityI) (auto simp: edge_indices nth_wfg_edges)
  ultimately show ?thesis
    by (simp add: total_raw_wait_def)
qed

lemma total_attributed_eq:
  "total_attributed api g =
   Some (sum_list (map (\<lambda>(_, _, ew). attributed_delay_ms ew) (wfg_edges api g)))"
proof -
  have "those (map (\<lambda>e. map_option attributed_delay_ms (pg_edge_weight api (graph g) e))
          (pg_edge_indices api (graph g))) =
        Some (map (\<lambda>e. attributed_delay_ms (snd (snd (pg_edges api (graph g) ! e)))) (pg_edge_indices api (graph g)))"
    by (rule those_map_Some) (auto simp: edge_indices edge_weight_eq)
  moreover have "map (\<lambda>e. attributed_delay_ms (snd (snd (pg_edges api (graph g) ! e)))) (pg_edge_indices api (graph g)) =
      map (\<lambda>(_, _, ew). attributed_delay_ms ew) (wfg_edges api g)"
    by (rule nth_equalityI) (auto simp: edge_indices nth_wfg_edges)
  ultimately show ?thesis
    by (simp add: total_attributed_def)
qed

subsection \<open>Cloning and writing\<close>

lemma lookup_bij:
  assumes "wfg_inv api g"
  shows "bij_betw (\<lambda>t. the (Mapping.lookup (node_map g) t)) (wfg_threads g) {..<pg_node_count api (graph g)}"
proof (rule bij_betw_byWitness [where f' = "\<lambda>i. nw_tid (pg_nodes api (graph g) ! i)"])
  show "(\<lambda>t. the (Mapping.lookup (node_map g) t)) ` wfg_threads g \<subseteq> {..<pg_node_count api (graph g)}"
    using assms by (auto simp: in_wfg_threads inv_lookup_nth inv_node)
  show "(\<lambda>i. nw_tid (pg_nodes api (graph g) ! i)) ` {..<pg_node_count api (graph g)} \<subseteq> wfg_threads g"
    using assms by (auto simp: in_wfg_threads inv_lookup_nth)
  show "\<forall>t \<in> wfg_threads g. nw_tid (pg_nodes api (graph g) ! the (Mapping.lookup (node_map g) t)) = t"
    using assms by (auto simp: in_wfg_threads inv_lookup_nth inv_node)
  show "\<forall>i \<in> {..<pg_node_count api (graph g)}.
      the (Mapping.lookup (node_map g) (nw_tid (pg_nodes api (graph g) ! i))) = i"
    using assms by (simp add: inv_lookup_nth)
qed

lemma finite_threads: "wfg_inv api g \<Longrightarrow> finite (wfg_threads g)"
  using lookup_bij by (metis bij_betw_finite finite_lessThan)

lemma node_count_threads: "wfg_inv api g \<Longrightarrow> node_count api g = card (wfg_threads g)"
  using bij_betw_same_card [OF lookup_bij] by (simp add: node_count_def)

lemma clone_nodes_loop:
  assumes "wfg_inv api g" "set ts \<subseteq> wfg_threads g" "distinct ts"
    "wfg_inv api new" "wfg_edges api new = []" "wfg_threads new \<inter> set ts = {}"
  shows "\<exists>new'. foldM (\<lambda>(t, idx) new. do {
         nw \<leftarrow> pg_node_weight api (graph g) idx;
         Some (fst (add_node api new t (nw_kind nw))) })
       (map (\<lambda>t. (t, the (Mapping.lookup (node_map g) t))) ts) new = Some new' \<and>
     wfg_inv api new' \<and> wfg_edges api new' = [] \<and> wfg_threads new' = wfg_threads new \<union> set ts \<and>
     (\<forall>t. wfg_kind api new' t = (if t \<in> set ts then wfg_kind api g t else wfg_kind api new t))"
  using assms(2-)
proof (induction ts arbitrary: new)
  case Nil
  then show ?case by simp
next
  case (Cons t ts)
  then obtain i where i: "Mapping.lookup (node_map g) t = Some i"
    by (auto simp: in_wfg_threads)
  then have w: "pg_node_weight api (graph g) i = Some (pg_nodes api (graph g) ! i)"
    using assms(1) by (simp add: inv_node node_weight_eq)
  let ?k = "nw_kind (pg_nodes api (graph g) ! i)"
  let ?new = "fst (add_node api new t ?k)"
  have k: "wfg_kind api g t = Some ?k"
    using i by (simp add: wfg_kind_def)
  have "t \<notin> wfg_threads new"
    using Cons.prems by auto
  then have fresh: "wfg_kind api new t = None"
    by (simp add: wfg_kind_def in_wfg_threads)
  have "wfg_inv api ?new" "wfg_edges api ?new = []" "wfg_threads ?new \<inter> set ts = {}"
    using Cons.prems by (auto simp: add_node_inv add_node_edges_same add_node_threads)
  then show ?case
    using Cons.IH [of ?new] Cons.prems
    by (auto simp: i w k fresh add_node_threads add_node_kind)
qed

lemma clone_nodes_eq:
  assumes "wfg_inv api g"
  obtains new where "clone_nodes api g = Some new" "wfg_inv api new" "wfg_edges api new = []"
    "wfg_threads new = wfg_threads g" "wfg_kind api new = wfg_kind api g"
proof -
  have fin: "finite (Mapping.keys (node_map g))"
    using finite_threads [OF assms] by (simp add: wfg_threads_def)
  have outside: "t \<notin> wfg_threads g \<Longrightarrow> wfg_kind api g t = None" for t
    by (simp add: wfg_kind_def in_wfg_threads)
  have "wfg_kind api (WaitForGraph_new api) t = None" for t
    by (simp add: wfg_kind_def WaitForGraph_new_def)
  moreover have "Mapping.keys (node_map (WaitForGraph_new api)) = {}"
    using new_wfg(3) by (simp add: wfg_threads_def)
  ultimately show thesis
    using clone_nodes_loop [OF assms, of "Mapping.ordered_keys (node_map g)" "WaitForGraph_new api"]
      that fin outside
    by (auto simp: new_wfg clone_nodes_def node_map_entries_def wfg_threads_def fun_eq_iff)
qed

lemma clone_edges_loop:
  assumes "wfg_inv api g" "wfg_inv api new" "wfg_edges api new = []" "wfg_threads new = wfg_threads g"
    "k \<le> length (wfg_edges api g)"
  shows "\<exists>new'. foldM (clone_edge api g) [0..<k] new = Some new' \<and> wfg_inv api new' \<and>
    wfg_edges api new' = map (\<lambda>(s, d, ew). (s, d, reset_attribution ew)) (take k (wfg_edges api g)) \<and>
    node_map new' = node_map new \<and> wfg_kind api new' = wfg_kind api new"
  using assms(5)
proof (induction k)
  case 0
  then show ?case using assms by simp
next
  case (Suc k)
  then obtain mid where mid: "foldM (clone_edge api g) [0..<k] new = Some mid" "wfg_inv api mid"
    "wfg_edges api mid = map (\<lambda>(s, d, ew). (s, d, reset_attribution ew)) (take k (wfg_edges api g))"
    "node_map mid = node_map new" "wfg_kind api mid = wfg_kind api new"
    by auto
  obtain s d ew where e: "wfg_edges api g ! k = (s, d, ew)"
    by (metis surj_pair)
  have k: "k < pg_edge_count api (graph g)" "k < length (wfg_edges api g)"
    using Suc.prems by simp_all
  have "(s, d, ew) \<in> set (wfg_edges api g)"
    using k(2) e by (metis nth_mem)
  then have "s \<in> wfg_threads mid" "d \<in> wfg_threads mid"
    using edges_in_threads [OF assms(1)] assms(4) mid(4) by (auto simp: wfg_threads_def)
  then obtain g' where g': "insert_edge api mid s d (reset_attribution ew) = Some (g', length (wfg_edges api mid))"
    "wfg_inv api g'" "wfg_edges api g' = wfg_edges api mid @ [(s, d, reset_attribution ew)]"
    "node_map g' = node_map mid" "wfg_kind api g' = wfg_kind api mid"
    using insert_edge_ok [OF mid(2)] by metis
  have "clone_edge api g k mid = map_option fst (insert_edge api mid s d (reset_attribution ew))"
    using k e by (auto simp: clone_edge_def insert_edge_def endpoints_eq edge_weight_eq thread_id_eq
        inv_edge [OF assms(1)] nth_wfg_edges bind_eq_Some_conv
        split: option.splits bind_splits intro!: arg_cong2 [where f = Option.bind])
  then have "clone_edge api g k mid = Some g'"
    by (simp add: g')
  then show ?case
    using mid g' e k by (auto simp: foldM_append take_Suc_conv_app_nth)
qed

lemma clone_with_reset_attribution_eq:
  assumes "wfg_inv api g"
  obtains new where "clone_with_reset_attribution api g = Some new" "wfg_inv api new"
    "wfg_edges api new = map (\<lambda>(s, d, ew). (s, d, reset_attribution ew)) (wfg_edges api g)"
    "wfg_threads new = wfg_threads g" "wfg_kind api new = wfg_kind api g"
proof -
  obtain mid where mid: "clone_nodes api g = Some mid" "wfg_inv api mid" "wfg_edges api mid = []"
    "wfg_threads mid = wfg_threads g" "wfg_kind api mid = wfg_kind api g"
    using clone_nodes_eq [OF assms] by blast
  from clone_edges_loop [OF assms mid(2-4), of "length (wfg_edges api g)"]
  show thesis
    using that mid by (auto simp: clone_with_reset_attribution_def edge_indices wfg_threads_def)
qed

lemma edge_weight_mut_eq:
  assumes "wfg_inv api g" "e < length (wfg_edges api g)"
  obtains g' where "edge_weight_mut api g e f = Some g'" "wfg_inv api g'"
    "wfg_edges api g' =
      (wfg_edges api g)[e := (fst (wfg_edges api g ! e), fst (snd (wfg_edges api g ! e)),
                              f (snd (snd (wfg_edges api g ! e))))]"
    "node_map g' = node_map g" "wfg_kind api g' = wfg_kind api g"
proof -
  have e: "e < pg_edge_count api (graph g)"
    using assms by simp
  let ?E = "pg_edges api (graph g)"
  obtain gr where gr: "pg_set_edge_weight api (graph g) e (f (snd (snd (?E ! e)))) = Some gr"
    "pg_nodes api gr = pg_nodes api (graph g)"
    "pg_edges api gr = ?E[e := (fst (?E ! e), fst (snd (?E ! e)), f (snd (snd (?E ! e))))]"
    using set_edge_weight_ok [OF e] by blast
  have n: "pg_node_count api gr = pg_node_count api (graph g)"
    using gr(2) by (metis length_pg_nodes)
  show thesis
  proof (rule that [of "g\<lparr>graph := gr\<rparr>"])
    show "edge_weight_mut api g e f = Some (g\<lparr>graph := gr\<rparr>)"
      using e gr by (simp add: edge_weight_mut_def edge_weight_eq)
    have "\<forall>(s, d, ew) \<in> set (pg_edges api gr).
        s < pg_node_count api (graph g) \<and> d < pg_node_count api (graph g)"
      using assms(1) gr(3) inv_edge [OF assms(1) e] set_update_subset_insert
      by (auto simp: wfg_inv_def split_beta dest!: set_update_subset_insert [THEN subsetD])
    then show "wfg_inv api (g\<lparr>graph := gr\<rparr>)"
      using assms(1) gr(2) n by (simp add: wfg_inv_def)
    show "wfg_edges api (g\<lparr>graph := gr\<rparr>) =
      (wfg_edges api g)[e := (fst (wfg_edges api g ! e), fst (snd (wfg_edges api g ! e)),
                              f (snd (snd (wfg_edges api g ! e))))]"
      using e gr by (simp add: wfg_edges_def map_update split_beta)
  qed (use gr in \<open>auto simp: wfg_kind_def fun_eq_iff\<close>)
qed

subsection \<open>Building a graph from a list of nodes and edges\<close>

lemma add_nodes_loop:
  assumes "wfg_inv api g"
  shows "wfg_inv api (fold (\<lambda>(t, k) h. fst (add_node api h t k)) ns g) \<and>
    wfg_edges api (fold (\<lambda>(t, k) h. fst (add_node api h t k)) ns g) = wfg_edges api g \<and>
    wfg_threads (fold (\<lambda>(t, k) h. fst (add_node api h t k)) ns g) = wfg_threads g \<union> fst ` set ns"
  using assms
proof (induction ns arbitrary: g)
  case (Cons n ns)
  show ?case
    using Cons.IH [OF add_node_inv [OF Cons.prems, of "fst n" "snd n"]]
      add_node_edges_same [OF Cons.prems, of "fst n" "snd n"] add_node_threads [of g "fst n" "snd n"]
    by (simp add: split_beta)
qed simp

lemma insert_edges_loop:
  assumes "wfg_inv api g" "\<And>s d ew. (s, d, ew) \<in> set es \<Longrightarrow> s \<in> wfg_threads g \<and> d \<in> wfg_threads g"
  shows "\<exists>h. foldM (\<lambda>(s, d, ew) h. map_option fst (insert_edge api h s d ew)) es g = Some h \<and>
    wfg_inv api h \<and> wfg_edges api h = wfg_edges api g @ es \<and> wfg_threads h = wfg_threads g \<and>
    wfg_kind api h = wfg_kind api g"
  using assms
proof (induction es arbitrary: g)
  case Nil
  then show ?case by simp
next
  case (Cons e es)
  obtain s d ew where e: "e = (s, d, ew)" by (metis surj_pair)
  with Cons.prems have "s \<in> wfg_threads g" "d \<in> wfg_threads g" by auto
  then obtain g' where g': "insert_edge api g s d ew = Some (g', length (wfg_edges api g))"
    "wfg_inv api g'" "wfg_edges api g' = wfg_edges api g @ [(s, d, ew)]"
    "node_map g' = node_map g" "wfg_kind api g' = wfg_kind api g"
    using insert_edge_ok [OF Cons.prems(1)] by metis
  then have "wfg_threads g' = wfg_threads g" by (simp add: wfg_threads_def)
  with Cons.IH [OF g'(2)] Cons.prems g' e show ?case by auto
qed

end

text \<open>The graph with the given nodes and edges, built by the operations.\<close>

definition build_graph ::
    "'g wfg_api \<Rightarrow> (ThreadId \<times> NodeKind) list \<Rightarrow> (ThreadId \<times> ThreadId \<times> EdgeWeight) list \<Rightarrow>
     'g WaitForGraph option" where
  "build_graph api ns es =
     foldM (\<lambda>(s, d, ew) h. map_option fst (insert_edge api h s d ew)) es
       (fold (\<lambda>(t, k) h. fst (add_node api h t k)) ns (WaitForGraph_new api))"

context wfg_graph
begin

lemma build_graph_ok:
  assumes "fst ` set es \<union> (fst \<circ> snd) ` set es \<subseteq> fst ` set ns"
  shows "\<exists>g. build_graph api ns es = Some g \<and> wfg_inv api g \<and> wfg_edges api g = es \<and>
    wfg_threads g = fst ` set ns"
proof -
  let ?g = "fold (\<lambda>(t, k) h. fst (add_node api h t k)) ns (WaitForGraph_new api)"
  have g: "wfg_inv api ?g" "wfg_edges api ?g = []" "wfg_threads ?g = fst ` set ns"
    using add_nodes_loop [OF new_wfg(1), of ns] by (simp_all add: new_wfg)
  have "s \<in> wfg_threads ?g \<and> d \<in> wfg_threads ?g" if "(s, d, ew) \<in> set es" for s d ew
    using that assms g(3) by force
  with insert_edges_loop [OF g(1), of es] obtain h where
    "foldM (\<lambda>(s, d, ew) h. map_option fst (insert_edge api h s d ew)) es ?g = Some h"
    "wfg_inv api h" "wfg_edges api h = wfg_edges api ?g @ es" "wfg_threads h = wfg_threads ?g"
    by blast
  then show ?thesis
    using g by (simp add: build_graph_def)
qed

end

interpretation adj_wfg: wfg_graph adj_api
  by unfold_locales

text \<open>The running example of the cascade (Figure 4 of the wPerf paper, as in the program's own
  tests): a user thread waits for a parser, which waits for the network.\<close>

definition figure4_edges :: "(ThreadId \<times> ThreadId \<times> EdgeWeight) list" where
  "figure4_edges =
     [(ThreadId 1, ThreadId 2, EdgeWeight_new (TimeWindow_new 0 100)),
      (ThreadId 2, ThreadId 3, EdgeWeight_new (TimeWindow_new 20 100))]"

definition figure4 :: "(NodeWeight, EdgeWeight) adj WaitForGraph" where
  "figure4 = the (build_graph adj_api
     [(ThreadId 1, UserThread), (ThreadId 2, UserThread), (ThreadId 3, PseudoNic)] figure4_edges)"

lemma figure4_ok:
  "wfg_inv adj_api figure4" "wfg_edges adj_api figure4 = figure4_edges"
  "wfg_threads figure4 = {ThreadId 1, ThreadId 2, ThreadId 3}"
proof -
  have "fst ` set figure4_edges \<union> (fst \<circ> snd) ` set figure4_edges \<subseteq>
      fst ` set [(ThreadId 1, UserThread), (ThreadId 2, UserThread), (ThreadId 3, PseudoNic)]"
    by (auto simp: figure4_edges_def)
  from adj_wfg.build_graph_ok [OF this] obtain g where
    "build_graph adj_api [(ThreadId 1, UserThread), (ThreadId 2, UserThread), (ThreadId 3, PseudoNic)]
       figure4_edges = Some g" "wfg_inv adj_api g" "wfg_edges adj_api g = figure4_edges"
    "wfg_threads g = {ThreadId 1, ThreadId 2, ThreadId 3}"
    by auto
  then show "wfg_inv adj_api figure4" "wfg_edges adj_api figure4 = figure4_edges"
    "wfg_threads figure4 = {ThreadId 1, ThreadId 2, ThreadId 3}"
    by (simp_all add: figure4_def)
qed

lemma figure4_counts: "length (snd (graph figure4)) = 2"
proof -
  have "length (wfg_edges adj_api figure4) = 2"
    by (simp only: figure4_ok(2)) (simp add: figure4_edges_def)
  then show ?thesis by simp
qed

text \<open>The same example closed by a synthetic return edge.\<close>

definition closure4 :: "(NodeWeight, EdgeWeight) adj WaitForGraph" where
  "closure4 = the (build_graph adj_api
     [(ThreadId 1, UserThread), (ThreadId 2, UserThread), (ThreadId 3, PseudoNic)]
     (figure4_edges @
       [(ThreadId 3, ThreadId 2, synthetic_closure_return (TimeWindow_new 20 100) IoBlock)]))"

lemma closure4_ok:
  "wfg_inv adj_api closure4"
  "wfg_edges adj_api closure4 = figure4_edges @
     [(ThreadId 3, ThreadId 2, synthetic_closure_return (TimeWindow_new 20 100) IoBlock)]"
proof -
  let ?es = "figure4_edges @
     [(ThreadId 3, ThreadId 2, synthetic_closure_return (TimeWindow_new 20 100) IoBlock)]"
  have "fst ` set ?es \<union> (fst \<circ> snd) ` set ?es \<subseteq>
      fst ` set [(ThreadId 1, UserThread), (ThreadId 2, UserThread), (ThreadId 3, PseudoNic)]"
    by (auto simp: figure4_edges_def)
  from adj_wfg.build_graph_ok [OF this]
  show "wfg_inv adj_api closure4" "wfg_edges adj_api closure4 = ?es"
    by (auto simp: closure4_def)
qed

section \<open>Properties\<close>

text \<open>Cloning for the engine never panics on a well-formed graph and rebuilds it
  exactly, node kinds and edge order included, except that every edge is attributed its raw
  wait again.\<close>

theorem clone_resets:
  assumes "petgraph api" "wfg_inv api g"
  shows "\<exists>c. clone_with_reset_attribution api g = Some c \<and> wfg_inv api c \<and>
    wfg_threads c = wfg_threads g \<and> wfg_kind api c = wfg_kind api g \<and>
    wfg_edges api c =
      map (\<lambda>(s, d, ew). (s, d, ew\<lparr>attributed_delay_ms := raw_wait_ms ew\<rparr>)) (wfg_edges api g)"
  using wfg_graph.clone_with_reset_attribution_eq [OF wfg_graph.intro [OF assms(1)] assms(2)]
  unfolding reset_attribution_def by blast

lemma clone_resets_witness:
  "\<exists>c. clone_with_reset_attribution adj_api figure4 = Some c \<and> wfg_edges adj_api c = figure4_edges"
  using clone_resets [OF adj.petgraph_axioms figure4_ok(1)]
  by (auto simp: figure4_ok figure4_edges_def EdgeWeight_new_def Let_def)

text \<open>\<open>add_edge\<close> appends exactly one normal edge, attributed its whole duration,
  keeps the graph well formed and touches no node, when both ends were added before; otherwise
  it panics.\<close>

theorem add_edge_correct:
  assumes "petgraph api" "wfg_inv api g"
  shows "case add_edge api g s d w of
      None \<Rightarrow> s \<notin> wfg_threads g \<or> d \<notin> wfg_threads g
    | Some (h, e) \<Rightarrow> s \<in> wfg_threads g \<and> d \<in> wfg_threads g \<and> wfg_inv api h \<and>
        wfg_threads h = wfg_threads g \<and> wfg_kind api h = wfg_kind api g \<and>
        e = edge_count api g \<and> wfg_edges api h = wfg_edges api g @
          [(s, d, \<lparr>time_window = w, raw_wait_ms = duration w, attributed_delay_ms = duration w,
             wait_type = None, edge_kind = Normal\<rparr>)]"
proof (cases "s \<in> wfg_threads g \<and> d \<in> wfg_threads g")
  case True
  note wg = wfg_graph.intro [OF assms(1)]
  from True show ?thesis
    by (auto intro: wfg_graph.insert_edge_ok [OF wg assms(2), of s d "EdgeWeight_new w"]
        simp: add_edge_def EdgeWeight_new_def Let_def wfg_threads_def edge_count_def
          petgraph.length_pg_edges [OF assms(1)])
next
  case False
  then show ?thesis
    using wfg_graph.insert_edge_None [OF wfg_graph.intro [OF assms(1)]]
    by (auto simp: add_edge_def)
qed

lemma add_edge_correct_witness:
  "\<exists>h. add_edge adj_api figure4 (ThreadId 1) (ThreadId 3) (TimeWindow_new 5 9) = Some (h, 2) \<and>
    wfg_edges adj_api h =
      figure4_edges @ [(ThreadId 1, ThreadId 3, EdgeWeight_new (TimeWindow_new 5 9))]"
proof -
  have "add_edge adj_api figure4 (ThreadId 1) (ThreadId 3) (TimeWindow_new 5 9) \<noteq> None"
    using add_edge_correct [OF adj.petgraph_axioms figure4_ok(1), of "ThreadId 1" "ThreadId 3" "TimeWindow_new 5 9"]
    by (auto simp: figure4_ok split: option.splits)
  then show ?thesis
    using add_edge_correct [OF adj.petgraph_axioms figure4_ok(1), of "ThreadId 1" "ThreadId 3" "TimeWindow_new 5 9"]
    by (auto simp: edge_count_def figure4_counts figure4_ok EdgeWeight_new_def Let_def)
qed

end
