(* ===== verification/Sweep.thy ===== *)
theory Sweep
  imports Wfg
begin

text \<open>
  The sweep-line partition (\<open>src/graph/sweep.rs\<close>): the outgoing edges of a node that overlap
  a window are clipped to it and cut into elementary intervals, each with the sorted list of
  the targets that are active throughout it. The lemmas show that the intervals are ordered,
  disjoint and inside the window, that a target is listed at a time exactly when a clipped
  edge to it is active then, and that the result depends on the set of edges only.
\<close>

section \<open>The partition\<close>

type_synonym clipped = "(TimeWindow \<times> ThreadId) list"

text \<open>The loop over \<open>edges_directed\<close>: closure-return edges are skipped, the others are
  clipped to the window and kept when something is left.\<close>

definition clip_edge :: "'g wfg_api \<Rightarrow> 'g WaitForGraph \<Rightarrow> TimeWindow \<Rightarrow> nat \<Rightarrow> clipped option" where
  "clip_edge api g w e = do {
     ew \<leftarrow> pg_edge_weight api (graph g) e;
     if edge_kind ew = SyntheticClosureReturn then Some []
     else (case overlap w (time_window ew) of
         None \<Rightarrow> Some []
       | Some ov \<Rightarrow> do {
           (s, d) \<leftarrow> pg_edge_endpoints api (graph g) e;
           t \<leftarrow> thread_id api g d;
           Some [(ov, t)] }) }"

definition clip_edges :: "'g wfg_api \<Rightarrow> 'g WaitForGraph \<Rightarrow> nat \<Rightarrow> TimeWindow \<Rightarrow> clipped option" where
  "clip_edges api g node_idx w =
     map_option concat (those (map (clip_edge api g w) (pg_edges_directed api (graph g) node_idx Outgoing)))"

definition boundary_points :: "clipped \<Rightarrow> u64 list" where
  "boundary_points cl = sort (remdups (concat (map (\<lambda>(w, _). [start_ms w, end_ms w]) cl)))"

definition active_targets :: "clipped \<Rightarrow> u64 \<Rightarrow> u64 \<Rightarrow> ThreadId list" where
  "active_targets cl s e =
     remdups_adj (sort (map snd (filter (\<lambda>(w, _). start_ms w \<le> s \<and> e \<le> end_ms w) cl)))"

definition elementary_interval :: "clipped \<Rightarrow> u64 \<times> u64 \<Rightarrow> ElementaryInterval list" where
  "elementary_interval cl p =
     (let (s, e) = p
      in if e \<le> s then []
         else (let targets = active_targets cl s e
               in if targets = [] then []
                  else [\<lparr>ei_window = TimeWindow_new s e, ei_targets = targets\<rparr>]))"

definition sweep_clipped :: "clipped \<Rightarrow> ElementaryInterval list" where
  "sweep_clipped cl =
     (let points = boundary_points cl
      in concat (map (elementary_interval cl) (windows2 points)))"

definition sweep_line_partition ::
    "'g wfg_api \<Rightarrow> 'g WaitForGraph \<Rightarrow> ThreadId \<Rightarrow> TimeWindow \<Rightarrow> ElementaryInterval list option" where
  "sweep_line_partition api g node w =
     (case node_index g node of
        None \<Rightarrow> Some []
      | Some node_idx \<Rightarrow> do {
          cl \<leftarrow> clip_edges api g node_idx w;
          Some (if cl = [] then [] else sweep_clipped cl) })"

section \<open>Intervals of clipped edges\<close>

lemma set_boundary_points:
  "set (boundary_points cl) = (start_ms \<circ> fst) ` set cl \<union> (end_ms \<circ> fst) ` set cl"
  by (force simp: boundary_points_def)

lemma sorted_boundary_points [simp]: "sorted (boundary_points cl)" "distinct (boundary_points cl)"
  by (simp_all add: boundary_points_def)

lemma active_targets_props [simp]:
  "sorted (active_targets cl s e)" "distinct (active_targets cl s e)"
  by (simp_all add: active_targets_def distinct_remdups_adj_sorted)

lemma set_active_targets:
  "x \<in> set (active_targets cl s e) \<longleftrightarrow> (\<exists>w. (w, x) \<in> set cl \<and> start_ms w \<le> s \<and> e \<le> end_ms w)"
  by (force simp: active_targets_def)

lemma in_sweep_clipped:
  "iv \<in> set (sweep_clipped cl) \<longleftrightarrow>
     (\<exists>s e. (s, e) \<in> set (windows2 (boundary_points cl)) \<and> s < e \<and>
            active_targets cl s e \<noteq> [] \<and>
            iv = \<lparr>ei_window = TimeWindow_new s e, ei_targets = active_targets cl s e\<rparr>)"
  by (auto simp: sweep_clipped_def elementary_interval_def Let_def split: if_splits)
    (force simp: not_le)+

lemma sweep_clipped_interval:
  assumes "iv \<in> set (sweep_clipped cl)"
  shows "start_ms (ei_window iv) < end_ms (ei_window iv)"
    "ei_targets iv \<noteq> []" "sorted (ei_targets iv)" "distinct (ei_targets iv)"
    "\<exists>(w, x) \<in> set cl. start_ms w \<le> start_ms (ei_window iv) \<and> end_ms (ei_window iv) \<le> end_ms w"
proof -
  show "\<exists>(w, x) \<in> set cl. start_ms w \<le> start_ms (ei_window iv) \<and> end_ms (ei_window iv) \<le> end_ms w"
    using assms by (fastforce simp: in_sweep_clipped neq_Nil_conv set_active_targets
        dest: arg_cong [where f = set] equalityD2)
qed (use assms in \<open>auto simp: in_sweep_clipped\<close>)

lemma sweep_clipped_sorted:
  "sorted_wrt (\<lambda>a b. end_ms (ei_window a) \<le> start_ms (ei_window b)) (sweep_clipped cl)"
proof -
  have "sorted_wrt (\<lambda>a b. end_ms (ei_window a) \<le> start_ms (ei_window b))
          (concat (map (elementary_interval cl) ps))"
    if "sorted_wrt (\<lambda>a b. snd a \<le> fst b) ps" for ps
    using that
    by (induction ps)
      (auto simp: sorted_wrt_append elementary_interval_def Let_def split: if_splits)
  then show ?thesis
    by (simp add: sweep_clipped_def Let_def windows2_ordered)
qed

text \<open>A target is listed for a time exactly when a clipped edge to it is active then.\<close>

lemma sweep_clipped_exact:
  "(\<exists>iv \<in> set (sweep_clipped cl). contains (ei_window iv) t \<and> x \<in> set (ei_targets iv)) \<longleftrightarrow>
   (\<exists>w. (w, x) \<in> set cl \<and> contains w t)"
proof
  assume "\<exists>w. (w, x) \<in> set cl \<and> contains w t"
  then obtain w where w: "(w, x) \<in> set cl" "start_ms w \<le> t" "t < end_ms w"
    by (auto simp: contains_def)
  then have pts: "start_ms w \<in> set (boundary_points cl)" "end_ms w \<in> set (boundary_points cl)"
    by (force simp: set_boundary_points)+
  then obtain s e where se: "(s, e) \<in> set (windows2 (boundary_points cl))"
    "s \<le> t" "t < e"
    using windows2_around [OF sorted_boundary_points(1)] w(2,3) by blast
  have "start_ms w \<le> s" "e \<le> end_ms w"
    using windows2_gap [OF sorted_boundary_points(1) se(1)] pts w(2,3) se(2,3) by force+
  with w(1) have "x \<in> set (active_targets cl s e)"
    by (auto simp: set_active_targets)
  moreover from this have "active_targets cl s e \<noteq> []" by auto
  ultimately show "\<exists>iv \<in> set (sweep_clipped cl). contains (ei_window iv) t \<and> x \<in> set (ei_targets iv)"
    using se by (intro bexI [of _ "\<lparr>ei_window = TimeWindow_new s e, ei_targets = active_targets cl s e\<rparr>"])
      (fastforce simp: in_sweep_clipped contains_def)+
qed (fastforce simp: in_sweep_clipped contains_def set_active_targets)

lemma sweep_clipped_cong:
  assumes "set cl = set cl'"
  shows "sweep_clipped cl = sweep_clipped cl'"
proof -
  have "boundary_points cl = boundary_points cl'"
    using assms by (intro sorted_distinct_set_unique) (auto simp: set_boundary_points)
  moreover have "active_targets cl s e = active_targets cl' s e" for s e
    using assms by (intro sorted_distinct_set_unique) (auto simp: set_active_targets)
  moreover from this have "elementary_interval cl = elementary_interval cl'"
    by (simp add: elementary_interval_def fun_eq_iff)
  ultimately show ?thesis
    by (simp add: sweep_clipped_def Let_def)
qed

lemma sweep_clipped_Nil [simp]: "sweep_clipped [] = []"
  by (simp add: sweep_clipped_def boundary_points_def)

section \<open>The partition of an edge list\<close>

text \<open>What the partition computes, on the contents of the graph: the normal edges out of
  the node, clipped to the window.\<close>

fun clip_list :: "(ThreadId \<times> ThreadId \<times> EdgeWeight) list \<Rightarrow> ThreadId \<Rightarrow> TimeWindow \<Rightarrow> clipped" where
  "clip_list [] n w = []"
| "clip_list ((s, d, ew) # E) n w =
     (case (if s = n \<and> edge_kind ew = Normal then overlap w (time_window ew) else None) of
        None \<Rightarrow> clip_list E n w
      | Some ov \<Rightarrow> (ov, d) # clip_list E n w)"

definition sweep_edges ::
    "(ThreadId \<times> ThreadId \<times> EdgeWeight) list \<Rightarrow> ThreadId \<Rightarrow> TimeWindow \<Rightarrow> ElementaryInterval list" where
  "sweep_edges E n w = sweep_clipped (clip_list E n w)"

lemma in_clip_list:
  "(ov, d) \<in> set (clip_list E n w) \<longleftrightarrow>
     (\<exists>ew. (n, d, ew) \<in> set E \<and> edge_kind ew = Normal \<and> overlap w (time_window ew) = Some ov)"
proof (induction E n w rule: clip_list.induct)
  case (2 s d' ew E n w)
  then show ?case by (auto split: option.split)
qed simp

context wfg_graph
begin

lemma clip_edge_eq:
  assumes "wfg_inv api g" "e < length (wfg_edges api g)"
  shows "clip_edge api g w e = Some (clip_list [wfg_edges api g ! e] (fst (wfg_edges api g ! e)) w)"
  using assms inv_edge [OF assms(1)]
  by (auto simp: clip_edge_def edge_weight_eq endpoints_eq thread_id_eq nth_wfg_edges
      split: option.splits)

lemma clip_edges_set:
  assumes "wfg_inv api g" "node_index g n = Some i"
  shows "\<exists>cl. clip_edges api g i w = Some cl \<and> set cl = set (clip_list (wfg_edges api g) n w)"
proof -
  let ?es = "pg_edges_directed api (graph g) i Outgoing"
  have es: "set ?es = {e. e < length (wfg_edges api g) \<and> fst (wfg_edges api g ! e) = n}"
    by (rule directed_out_set [OF assms])
  have "those (map (clip_edge api g w) ?es) =
      Some (map (\<lambda>e. clip_list [wfg_edges api g ! e] (fst (wfg_edges api g ! e)) w) ?es)"
    by (rule those_map_Some) (simp add: clip_edge_eq [OF assms(1)] es)
  moreover have "set (concat (map (\<lambda>e. clip_list [wfg_edges api g ! e] (fst (wfg_edges api g ! e)) w) ?es)) =
      set (clip_list (wfg_edges api g) n w)"
  proof -
    have "set (concat (map (\<lambda>e. clip_list [wfg_edges api g ! e] (fst (wfg_edges api g ! e)) w) ?es)) =
        (\<Union>e \<in> {e. e < length (wfg_edges api g) \<and> fst (wfg_edges api g ! e) = n}.
           set (clip_list [wfg_edges api g ! e] n w))"
      by (auto simp: es)
    also have "\<dots> = set (clip_list (wfg_edges api g) n w)"
    proof (rule set_eqI)
      fix p :: "TimeWindow \<times> ThreadId"
      obtain ov d where p: "p = (ov, d)" by fastforce
      show "p \<in> (\<Union>e \<in> {e. e < length (wfg_edges api g) \<and> fst (wfg_edges api g ! e) = n}.
           set (clip_list [wfg_edges api g ! e] n w)) \<longleftrightarrow> p \<in> set (clip_list (wfg_edges api g) n w)"
        unfolding p by (simp add: in_clip_list in_set_conv_nth [of "(n, d, _)" "wfg_edges api g"])
          (metis fst_conv)
    qed
    finally show ?thesis .
  qed
  ultimately show ?thesis
    by (simp add: clip_edges_def)
qed

lemma sweep_line_partition_eq:
  assumes "wfg_inv api g"
  shows "sweep_line_partition api g n w = Some (sweep_edges (wfg_edges api g) n w)"
proof (cases "node_index g n")
  case None
  then have "n \<notin> wfg_threads g"
    by (simp add: node_index_def in_wfg_threads)
  then have "set (clip_list (wfg_edges api g) n w) = {}"
    using edges_in_threads(1) [OF assms] by (intro equals0I) (auto simp: in_clip_list)
  then show ?thesis
    using None by (simp add: sweep_line_partition_def sweep_edges_def)
next
  case (Some i)
  obtain cl where cl: "clip_edges api g i w = Some cl"
    "set cl = set (clip_list (wfg_edges api g) n w)"
    using clip_edges_set [OF assms Some] by blast
  then show ?thesis
    using Some sweep_clipped_cong [OF cl(2)]
    by (auto simp: sweep_line_partition_def sweep_edges_def)
qed

end

section \<open>Properties of the partition\<close>

lemma sweep_edges_interval:
  assumes "iv \<in> set (sweep_edges E n w)"
  shows "start_ms (ei_window iv) < end_ms (ei_window iv)"
    "start_ms w \<le> start_ms (ei_window iv)" "end_ms (ei_window iv) \<le> end_ms w"
    "ei_targets iv \<noteq> []" "sorted (ei_targets iv)" "distinct (ei_targets iv)"
proof -
  note iv = sweep_clipped_interval [OF assms [unfolded sweep_edges_def]]
  obtain ov and ew :: EdgeWeight where ov: "overlap w (time_window ew) = Some ov"
    "start_ms ov \<le> start_ms (ei_window iv)" "end_ms (ei_window iv) \<le> end_ms ov"
    using iv(5) by (auto simp: in_clip_list)
  show "start_ms w \<le> start_ms (ei_window iv)" "end_ms (ei_window iv) \<le> end_ms w"
    using ov(2,3) overlap_SomeD [OF ov(1)] by auto
qed (use sweep_clipped_interval [OF assms [unfolded sweep_edges_def]] in auto)

lemma sweep_edges_sorted:
  "sorted_wrt (\<lambda>a b. end_ms (ei_window a) \<le> start_ms (ei_window b)) (sweep_edges E n w)"
  by (simp add: sweep_edges_def sweep_clipped_sorted)

lemma sweep_edges_exact:
  "(\<exists>iv \<in> set (sweep_edges E n w). contains (ei_window iv) t \<and> x \<in> set (ei_targets iv)) \<longleftrightarrow>
   contains w t \<and>
   (\<exists>ew. (n, x, ew) \<in> set E \<and> edge_kind ew = Normal \<and> contains (time_window ew) t)"
proof -
  have "(\<exists>iv \<in> set (sweep_edges E n w). contains (ei_window iv) t \<and> x \<in> set (ei_targets iv)) \<longleftrightarrow>
      (\<exists>ew. (n, x, ew) \<in> set E \<and> edge_kind ew = Normal \<and>
        (\<exists>ov. overlap w (time_window ew) = Some ov \<and> contains ov t))"
    unfolding sweep_edges_def sweep_clipped_exact in_clip_list by blast
  then show ?thesis
    by (simp flip: contains_overlap) blast
qed

lemma sweep_edges_targets:
  assumes "iv \<in> set (sweep_edges E n w)"
  shows "set (ei_targets iv) \<subseteq> (fst \<circ> snd) ` set E"
proof
  fix x assume x: "x \<in> set (ei_targets iv)"
  have "contains (ei_window iv) (start_ms (ei_window iv))"
    using sweep_edges_interval(1) [OF assms] by (simp add: contains_def)
  with x assms show "x \<in> (fst \<circ> snd) ` set E"
    using sweep_edges_exact [of E n w "start_ms (ei_window iv)" x] by force
qed

text \<open>Ordered disjoint intervals inside a window last no longer than the window.\<close>

lemma disjoint_durations:
  assumes "sorted_wrt (\<lambda>a b. end_ms (ei_window a) \<le> start_ms (ei_window b)) ivs"
    "\<forall>iv \<in> set ivs. start_ms (ei_window iv) < end_ms (ei_window iv) \<and>
       a \<le> start_ms (ei_window iv) \<and> end_ms (ei_window iv) \<le> b"
    "a \<le> b"
  shows "(\<Sum>iv \<leftarrow> ivs. unat (duration (ei_window iv))) \<le> unat b - unat a"
  using assms
proof (induction ivs arbitrary: a)
  case Nil
  then show ?case by simp
next
  case (Cons iv ivs)
  let ?s = "start_ms (ei_window iv)" and ?e = "end_ms (ei_window iv)"
  have le: "a \<le> ?s" "?s < ?e" "?e \<le> b"
    using Cons.prems by auto
  have "(\<Sum>iv \<leftarrow> ivs. unat (duration (ei_window iv))) \<le> unat b - unat ?e"
    using Cons.prems le by (intro Cons.IH) auto
  moreover have "unat (duration (ei_window iv)) = unat ?e - unat ?s"
    using le by (intro unat_duration) (simp add: window_ok_def)
  ultimately show ?case
    using le by (simp add: word_le_nat_alt word_less_nat_alt)
qed

lemma sweep_edges_durations:
  assumes "window_ok w"
  shows "(\<Sum>iv \<leftarrow> sweep_edges E n w. unat (duration (ei_window iv))) \<le> unat (duration w)"
  using disjoint_durations [OF sweep_edges_sorted, of E n w "start_ms w" "end_ms w"]
    sweep_edges_interval assms by (simp add: unat_duration window_ok_def)



text \<open>The intervals of a partition are non-empty, lie inside the window, follow
  each other without overlapping, list their targets in order without repetition, and their
  durations add up (in machine arithmetic, without wrap-around) to at most the window's.\<close>

theorem sweep_line_partition_shape:
  assumes "petgraph api" "wfg_inv api g" "window_ok w" "sweep_line_partition api g n w = Some ivs"
  shows "sorted_wrt (\<lambda>a b. end_ms (ei_window a) \<le> start_ms (ei_window b)) ivs \<and>
    (\<forall>iv \<in> set ivs. start_ms w \<le> start_ms (ei_window iv) \<and>
      start_ms (ei_window iv) < end_ms (ei_window iv) \<and> end_ms (ei_window iv) \<le> end_ms w \<and>
      ei_targets iv \<noteq> [] \<and> sorted (ei_targets iv) \<and> distinct (ei_targets iv)) \<and>
    (\<Sum>iv \<leftarrow> ivs. unat (duration (ei_window iv))) \<le> unat (duration w) \<and>
    unat (\<Sum>iv \<leftarrow> ivs. duration (ei_window iv)) = (\<Sum>iv \<leftarrow> ivs. unat (duration (ei_window iv)))"
proof -
  have ivs: "ivs = sweep_edges (wfg_edges api g) n w"
    using assms(4) wfg_graph.sweep_line_partition_eq [OF wfg_graph.intro [OF assms(1)] assms(2)] by simp
  have le: "(\<Sum>iv \<leftarrow> ivs. unat (duration (ei_window iv))) \<le> unat (duration w)"
    unfolding ivs by (rule sweep_edges_durations [OF assms(3)])
  moreover have "unat (duration w) < 2 ^ 64"
    using unat_u64_less by simp
  ultimately have "unat (\<Sum>iv \<leftarrow> ivs. duration (ei_window iv)) = (\<Sum>iv \<leftarrow> ivs. unat (duration (ei_window iv)))"
    by (subst unat_sum_list) (simp_all add: comp_def)
  with le show ?thesis
    using sweep_edges_interval sweep_edges_sorted by (simp add: ivs)
qed

lemma sweep_line_partition_shape_witness:
  "\<exists>ivs. sweep_line_partition adj_api figure4 (ThreadId 2) (TimeWindow_new 0 50) = Some ivs \<and>
    (\<Sum>iv \<leftarrow> ivs. unat (duration (ei_window iv))) \<le> 50"
proof -
  obtain ivs where ivs: "sweep_line_partition adj_api figure4 (ThreadId 2) (TimeWindow_new 0 50) = Some ivs"
    using adj_wfg.sweep_line_partition_eq [OF figure4_ok(1)] by blast
  show ?thesis
    using sweep_line_partition_shape [OF adj.petgraph_axioms figure4_ok(1) _ ivs] ivs
    by (simp add: duration_def)
qed

end
