(* ===== verification/Invariants.thy ===== *)
theory Invariants
  imports Wfg
begin

text \<open>
  The cascade invariant checks (\<open>src/cascade/invariants.rs\<close>): I-2 non-amplification, I-3
  non-negativity, I-4 termination, I-7 locality, the sentinel \<open>invariants_ok\<close> and the engine's
  postcondition check with its error value. The checks that run the engine twice (I-5, I-6)
  are with the engine, in theory \<open>Cascade\<close>. The lemmas characterise the checks by the edge
  lists of the two graphs.
\<close>

record InvariantError =
  i2_ok :: bool
  i7_ok :: bool

definition show_bool :: "bool \<Rightarrow> string" where
  "show_bool b = (if b then ''true'' else ''false'')"

definition InvariantError_fmt :: "InvariantError \<Rightarrow> string" where
  "InvariantError_fmt e = ''INVARIANT VIOLATION: postcondition check failed (I-2='' @ show_bool (i2_ok e) @
     '', I-7='' @ show_bool (i7_ok e) @ '')''"

definition check_non_amplification :: "'g wfg_api \<Rightarrow> 'g WaitForGraph \<Rightarrow> bool option" where
  "check_non_amplification api result = do {
     es \<leftarrow> all_edges api result;
     Some (list_all (\<lambda>(_, _, _, ew). attributed_delay_ms ew \<le> raw_wait_ms ew) es)
   }"

definition check_non_negativity :: "'g WaitForGraph \<Rightarrow> bool" where
  "check_non_negativity _ = True"

definition check_termination :: "'g wfg_api \<Rightarrow> 'g WaitForGraph \<Rightarrow> 'g WaitForGraph \<Rightarrow> bool" where
  "check_termination api original result \<longleftrightarrow>
     node_count api original = node_count api result \<and> edge_count api original = edge_count api result"

definition same_edge :: "full_edge_ref \<Rightarrow> full_edge_ref \<Rightarrow> bool" where
  "same_edge orig res =
     (case (orig, res) of ((_, s, d, ew), (_, s', d', ew')) \<Rightarrow>
        if s \<noteq> s' \<or> d \<noteq> d' then False
        else if time_window ew \<noteq> time_window ew' then False
        else if raw_wait_ms ew \<noteq> raw_wait_ms ew' then False
        else True)"

definition check_locality :: "'g wfg_api \<Rightarrow> 'g WaitForGraph \<Rightarrow> 'g WaitForGraph \<Rightarrow> bool option" where
  "check_locality api original result = do {
     orig_edges \<leftarrow> all_edges api original;
     res_edges \<leftarrow> all_edges api result;
     Some (if length orig_edges \<noteq> length res_edges then False
           else list_all (\<lambda>(o', r). same_edge o' r) (zip orig_edges res_edges))
   }"

definition invariants_ok :: "'g wfg_api \<Rightarrow> 'g WaitForGraph \<Rightarrow> 'g WaitForGraph \<Rightarrow> bool option" where
  "invariants_ok api original result = do {
     amp \<leftarrow> check_non_amplification api result;
     if amp then check_locality api original result else Some False
   }"

definition verify_engine_postconditions ::
    "'g wfg_api \<Rightarrow> 'g WaitForGraph \<Rightarrow> 'g WaitForGraph \<Rightarrow> (InvariantError + unit) option" where
  "verify_engine_postconditions api original result = do {
     i2 \<leftarrow> check_non_amplification api result;
     i7 \<leftarrow> check_locality api original result;
     Some (if i2 \<and> i7 then Inr () else Inl \<lparr>i2_ok = i2, i7_ok = i7\<rparr>)
   }"

context wfg_graph
begin

lemma check_non_amplification_eq:
  assumes "wfg_inv api r"
  shows "check_non_amplification api r =
    Some (\<forall>(s, d, ew) \<in> set (wfg_edges api r). attributed_delay_ms ew \<le> raw_wait_ms ew)"
proof -
  have "list_all (\<lambda>(_, _, _, ew). attributed_delay_ms ew \<le> raw_wait_ms ew)
      (sort_key edge_key (indexed (wfg_edges api r))) \<longleftrightarrow>
    (\<forall>x \<in> set (map snd (indexed (wfg_edges api r))). case x of (s, d, ew) \<Rightarrow>
       attributed_delay_ms ew \<le> raw_wait_ms ew)"
    by (auto simp: list_all_iff)
  then show ?thesis
    by (simp add: check_non_amplification_def all_edges_eq [OF assms] indexed_weights)
qed

text \<open>Locality holds of two graphs whose edges, index by index, have the same ends, window
  and raw wait.\<close>

lemma check_locality_map:
  assumes "wfg_inv api g" "wfg_inv api r"
    "wfg_edges api r = map (\<lambda>(s, d, ew). (s, d, f s d ew)) (wfg_edges api g)"
    "\<And>s d ew. time_window (f s d ew) = time_window ew"
    "\<And>s d ew. raw_wait_ms (f s d ew) = raw_wait_ms ew"
  shows "check_locality api g r = Some True"
proof -
  let ?h = "\<lambda>(e :: nat, s, d, ew). (e, s, d, f s d ew)"
  have "indexed (wfg_edges api r) = map ?h (indexed (wfg_edges api g))"
    by (auto simp: assms(3) indexed_map)
  moreover have "(\<lambda>y. edge_key (?h y)) = edge_key"
    by (auto simp: fun_eq_iff edge_key_def)
  ultimately have "all_edges api r = Some (map ?h (sort_key edge_key (indexed (wfg_edges api g))))"
    by (simp add: all_edges_eq [OF assms(2)] sort_key_map)
  moreover have "list_all (\<lambda>(o', r). same_edge o' r) (zip es (map ?h es))" for es
    using assms(4,5) by (induction es) (auto simp: same_edge_def)
  ultimately show ?thesis
    by (simp add: check_locality_def all_edges_eq [OF assms(1)])
qed

end

end
