(* ===== verification/Cascade.thy ===== *)
theory Cascade
  imports Sweep Invariants
begin

text \<open>
  The cascade redistribution engine (\<open>src/cascade/engine.rs\<close>) and the two checks of
  \<open>src/cascade/invariants.rs\<close> that run it twice. \<open>compute_cascade\<close> is modelled with its two
  nested loops and the mutable path set threaded through; the recursion stops because the
  depth grows to \<open>max_depth\<close>. The lemmas show that the recursion computes a structural
  function of the edge list (and restores the path), that its results are those of the same
  recursion on natural numbers, and that the engine always succeeds on a well-formed graph.
\<close>

section \<open>The recursion\<close>

definition DEFAULT_MAX_DEPTH :: u32 where "DEFAULT_MAX_DEPTH = 10"

definition count_concurrent_waiters ::
    "'g wfg_api \<Rightarrow> 'g WaitForGraph \<Rightarrow> ThreadId \<Rightarrow> TimeWindow \<Rightarrow> u64 option" where
  "count_concurrent_waiters api g target w =
     (case node_index g target of
        None \<Rightarrow> Some 1
      | Some node_idx \<Rightarrow> do {
          es \<leftarrow> incoming_edges api g node_idx;
          let count = card (set (map (\<lambda>(_, src_tid, _). src_tid)
                (filter (\<lambda>(_, _, ew). overlap (time_window ew) w \<noteq> None)
                  (filter (\<lambda>(_, _, ew). edge_kind ew \<noteq> SyntheticClosureReturn) es))));
          Some (if count = 0 then 1 else of_nat count) })"

text \<open>The result of \<open>compute_cascade\<close> is the pair (propagated, self blame) together with the
  path set after the call. The loops over the intervals and over the targets of an interval
  are functions of their own; their depth argument is the one the source passes to the
  recursive call, \<open>depth + 1\<close>.\<close>

function compute_cascade ::
    "'g wfg_api \<Rightarrow> 'g WaitForGraph \<Rightarrow> ThreadId \<Rightarrow> TimeWindow \<Rightarrow> u32 \<Rightarrow> u32 \<Rightarrow> ThreadId set \<Rightarrow>
     ((u64 \<times> u64) \<times> ThreadId set) option"
  and cascade_intervals ::
    "'g wfg_api \<Rightarrow> 'g WaitForGraph \<Rightarrow> ElementaryInterval list \<Rightarrow> u32 \<Rightarrow> u32 \<Rightarrow> ThreadId set \<Rightarrow> u64 \<Rightarrow> u64 \<Rightarrow>
     ((u64 \<times> u64) \<times> ThreadId set) option"
  and cascade_targets ::
    "'g wfg_api \<Rightarrow> 'g WaitForGraph \<Rightarrow> ThreadId list \<Rightarrow> TimeWindow \<Rightarrow> u64 \<Rightarrow> u32 \<Rightarrow> u32 \<Rightarrow> ThreadId set \<Rightarrow> u64 \<Rightarrow>
     (u64 \<times> ThreadId set) option"
where
  "compute_cascade api g current w depth max_depth path =
     (if max_depth \<le> depth \<or> current \<in> path then Some ((0, duration w), path)
      else do {
        intervals \<leftarrow> sweep_line_partition api g current w;
        if intervals = [] then Some ((0, duration w), path)
        else do {
          ((total_propagated, coverage), path') \<leftarrow>
            cascade_intervals api g intervals (depth + 1) max_depth (insert current path) 0 0;
          Some ((total_propagated, saturating_sub (duration w) coverage), path' - {current}) } })"
| "cascade_intervals api g [] depth max_depth path tot coverage = Some ((tot, coverage), path)"
| "cascade_intervals api g (iv # ivs) depth max_depth path tot coverage = do {
     (tot', path') \<leftarrow> cascade_targets api g (ei_targets iv) (ei_window iv)
        (of_nat (length (ei_targets iv))) depth max_depth path tot;
     cascade_intervals api g ivs depth max_depth path' tot' (coverage + duration (ei_window iv)) }"
| "cascade_targets api g [] w target_count depth max_depth path tot = Some (tot, path)"
| "cascade_targets api g (t # ts) w target_count depth max_depth path tot = do {
     ((prop_down, child_blame), path') \<leftarrow> compute_cascade api g t w depth max_depth path;
     external_waiters \<leftarrow> count_concurrent_waiters api g t w;
     let child_absorbed = prop_down + child_blame;
     let transfer = child_absorbed div max target_count 1 div max external_waiters 1;
     cascade_targets api g ts w target_count depth max_depth path' (tot + transfer) }"
  by pat_completeness auto
termination
  by (relation "measures
       [\<lambda>x. case x of Inl (_, _, _, _, d, m, _) \<Rightarrow> unat m - unat d
          | Inr (Inl (_, _, _, d, m, _, _, _)) \<Rightarrow> unat m - unat d
          | Inr (Inr (_, _, _, _, _, d, m, _, _)) \<Rightarrow> unat m - unat d,
        \<lambda>x. case x of Inl _ \<Rightarrow> 0 | Inr (Inl _) \<Rightarrow> 2 | Inr (Inr _) \<Rightarrow> 1,
        \<lambda>x. case x of Inl _ \<Rightarrow> 0 | Inr (Inl (_, _, ivs, _)) \<Rightarrow> length ivs
          | Inr (Inr (_, _, ts, _)) \<Rightarrow> length ts]")
    (auto simp: not_le unat_succ_less word_less_nat_alt)

declare compute_cascade.simps [simp del]

section \<open>The engine\<close>

definition set_attribution :: "u64 \<Rightarrow> EdgeWeight \<Rightarrow> EdgeWeight" where
  "set_attribution a ew = ew\<lparr>attributed_delay_ms := a\<rparr>"

definition attribute_edge ::
    "'g wfg_api \<Rightarrow> 'g WaitForGraph \<Rightarrow> u32 \<Rightarrow> full_edge_ref \<Rightarrow> (nat, u64) mapping \<Rightarrow> (nat, u64) mapping option" where
  "attribute_edge api g max_depth r attribution =
     (case r of (eidx, src_tid, dst_tid, ew) \<Rightarrow> do {
        ((propagated, _), _) \<leftarrow> compute_cascade api g dst_tid (time_window ew) 1 max_depth {src_tid};
        Some (Mapping.update eidx (saturating_sub (raw_wait_ms ew) propagated) attribution) })"

definition cascade_engine ::
    "'g wfg_api \<Rightarrow> 'g WaitForGraph \<Rightarrow> u32 option \<Rightarrow> (InvariantError + 'g WaitForGraph) option" where
  "cascade_engine api g max_depth_opt = do {
     let max_depth = (case max_depth_opt of Some d \<Rightarrow> d | None \<Rightarrow> DEFAULT_MAX_DEPTH);
     es \<leftarrow> all_edges api g;
     attribution \<leftarrow> foldM (attribute_edge api g max_depth) es Mapping.empty;
     cloned \<leftarrow> clone_with_reset_attribution api g;
     result \<leftarrow> foldM (\<lambda>(eidx, a) r. edge_weight_mut api r eidx (set_attribution a))
                (mapping_entries attribution) cloned;
     checked \<leftarrow> verify_engine_postconditions api g result;
     Some (case checked of Inl err \<Rightarrow> Inl err | Inr _ \<Rightarrow> Inr result)
   }"

text \<open>I-5 and I-6. An \<open>expect\<close> on the engine's error is a panic.\<close>

definition expect_ok :: "('e + 'a) option \<Rightarrow> 'a option" where
  "expect_ok r = (case r of Some (Inr x) \<Rightarrow> Some x | _ \<Rightarrow> None)"

definition check_idempotency :: "'g wfg_api \<Rightarrow> 'g WaitForGraph \<Rightarrow> u32 \<Rightarrow> bool option" where
  "check_idempotency api g max_depth = do {
     first \<leftarrow> expect_ok (cascade_engine api g (Some max_depth));
     second \<leftarrow> expect_ok (cascade_engine api first (Some max_depth));
     e1 \<leftarrow> all_edges api first;
     e2 \<leftarrow> all_edges api second;
     Some (if length e1 \<noteq> length e2 then False
           else list_all (\<lambda>((_, _, _, a), (_, _, _, b)). attributed_delay_ms a = attributed_delay_ms b)
                  (zip e1 e2))
   }"

definition check_depth_monotonicity :: "'g wfg_api \<Rightarrow> 'g WaitForGraph \<Rightarrow> bool option" where
  "check_depth_monotonicity api g = do {
     shallow \<leftarrow> expect_ok (cascade_engine api g (Some 2));
     deep \<leftarrow> expect_ok (cascade_engine api g (Some 10));
     td \<leftarrow> total_attributed api deep;
     ts \<leftarrow> total_attributed api shallow;
     Some (td \<le> ts)
   }"

section \<open>What the recursion computes\<close>

text \<open>The number of distinct threads with a normal edge to the target that overlaps the
  window, at least one.\<close>

definition waiters :: "(ThreadId \<times> ThreadId \<times> EdgeWeight) list \<Rightarrow> ThreadId \<Rightarrow> TimeWindow \<Rightarrow> u64" where
  "waiters E t w =
     (let c = card (set (map fst (filter (\<lambda>(s, d, ew). d = t \<and> edge_kind ew = Normal \<and>
                overlap (time_window ew) w \<noteq> None) E)))
      in if c = 0 then 1 else of_nat c)"

definition share :: "u64 \<times> u64 \<Rightarrow> nat \<Rightarrow> u64 \<Rightarrow> u64" where
  "share r n ext = (fst r + snd r) div max (of_nat n) 1 div max ext 1"

text \<open>The cascade of an edge list with \<open>k\<close> levels left, as a sum over the elementary intervals
  and their targets; the path is the set of the nodes above.\<close>

fun cascade_spec ::
    "(ThreadId \<times> ThreadId \<times> EdgeWeight) list \<Rightarrow> nat \<Rightarrow> ThreadId set \<Rightarrow> ThreadId \<Rightarrow> TimeWindow \<Rightarrow> u64 \<times> u64" where
  "cascade_spec E 0 path n w = (0, duration w)"
| "cascade_spec E (Suc k) path n w =
     (if n \<in> path \<or> sweep_edges E n w = [] then (0, duration w)
      else (\<Sum>iv \<leftarrow> sweep_edges E n w. \<Sum>t \<leftarrow> ei_targets iv.
              share (cascade_spec E k (insert n path) t (ei_window iv))
                (length (ei_targets iv)) (waiters E t (ei_window iv)),
            saturating_sub (duration w) (\<Sum>iv \<leftarrow> sweep_edges E n w. duration (ei_window iv))))"

context wfg_graph
begin

lemma count_concurrent_waiters_eq:
  assumes "wfg_inv api g"
  shows "count_concurrent_waiters api g t w = Some (waiters (wfg_edges api g) t w)"
proof (cases "node_index g t")
  case None
  then have "t \<notin> wfg_threads g"
    by (simp add: node_index_def in_wfg_threads)
  then have "filter (\<lambda>(s, d, ew). d = t \<and> edge_kind ew = Normal \<and>
      overlap (time_window ew) w \<noteq> None) (wfg_edges api g) = []"
    using edges_in_threads(2) [OF assms] by (auto simp: filter_empty_conv)
  then show ?thesis
    using None by (simp add: count_concurrent_waiters_def waiters_def)
next
  case (Some i)
  let ?es = "pg_edges_directed api (graph g) i Incoming"
  have es: "set ?es = {e. e < length (wfg_edges api g) \<and> fst (snd (wfg_edges api g ! e)) = t}"
    by (rule directed_in_set [OF assms Some])
  have "(\<lambda>(_, src_tid, _). src_tid) ` set
      (filter (\<lambda>(_, _, ew). overlap (time_window ew) w \<noteq> None)
        (filter (\<lambda>(_, _, ew). edge_kind ew \<noteq> SyntheticClosureReturn) (map (edge_ref_in api g) ?es))) =
    fst ` set (filter (\<lambda>(s, d, ew). d = t \<and> edge_kind ew = Normal \<and>
      overlap (time_window ew) w \<noteq> None) (wfg_edges api g))"
    (is "?L = ?R")
  proof -
    have "?L = (\<lambda>e. fst (wfg_edges api g ! e)) ` {e \<in> set ?es.
        edge_kind (snd (snd (wfg_edges api g ! e))) = Normal \<and>
        overlap (time_window (snd (snd (wfg_edges api g ! e)))) w \<noteq> None}"
      by (auto simp: edge_ref_in_def image_iff) blast
    also have "\<dots> = ?R"
      by (auto simp: es image_iff in_set_conv_nth split_beta) (fastforce intro: exI)
    finally show ?thesis .
  qed
  then have "set (map (\<lambda>(_, src_tid, _). src_tid)
      (filter (\<lambda>(_, _, ew). overlap (time_window ew) w \<noteq> None)
        (filter (\<lambda>(_, _, ew). edge_kind ew \<noteq> SyntheticClosureReturn) (map (edge_ref_in api g) ?es)))) =
    set (map fst (filter (\<lambda>(s, d, ew). d = t \<and> edge_kind ew = Normal \<and>
      overlap (time_window ew) w \<noteq> None) (wfg_edges api g)))"
    by (simp only: set_map)
  then show ?thesis
    by (simp only: count_concurrent_waiters_def waiters_def incoming_edges_eq [OF assms] Let_def Some
        option.case Option.bind.simps)
qed

lemma cascade_targets_eq:
  assumes "wfg_inv api g"
    and "\<And>t. compute_cascade api g t w d m path = Some (r t, path)"
  shows "cascade_targets api g ts w n d m path tot =
    Some (tot + (\<Sum>t \<leftarrow> ts. (fst (r t) + snd (r t)) div max n 1 div
      max (waiters (wfg_edges api g) t w) 1), path)"
  by (induction ts arbitrary: tot)
    (simp_all add: assms(2) count_concurrent_waiters_eq [OF assms(1)] split_beta Let_def add.assoc)

lemma cascade_intervals_eq:
  assumes "wfg_inv api g"
    and "\<And>t w. compute_cascade api g t w d m path = Some (r t w, path)"
  shows "cascade_intervals api g ivs d m path tot cov =
    Some ((tot + (\<Sum>iv \<leftarrow> ivs. \<Sum>t \<leftarrow> ei_targets iv.
        share (r t (ei_window iv)) (length (ei_targets iv)) (waiters (wfg_edges api g) t (ei_window iv))),
      cov + (\<Sum>iv \<leftarrow> ivs. duration (ei_window iv))), path)"
  by (induction ivs arbitrary: tot cov)
    (simp_all add: cascade_targets_eq [OF assms(1,2)] share_def add.assoc)

lemma compute_cascade_eq:
  assumes "wfg_inv api g"
  shows "compute_cascade api g n w d m path =
    Some (cascade_spec (wfg_edges api g) (unat m - unat d) path n w, path)"
proof (induction k \<equiv> "unat m - unat d" arbitrary: n w d path)
  case 0
  then have "m \<le> d"
    by (simp add: word_le_nat_alt)
  then show ?case
    using 0 by (simp add: compute_cascade.simps)
next
  case (Suc k)
  then have less: "d < m" and nle: "\<not> m \<le> d"
    by (simp_all add: word_less_nat_alt word_le_nat_alt)
  then have k: "k = unat m - unat (d + 1)"
    using Suc.hyps(2) by (simp add: unat_succ_less)
  have IH: "compute_cascade api g t w (d + 1) m p =
      Some (cascade_spec (wfg_edges api g) k p t w, p)" for t w p
    using Suc.hyps(1) [OF k] k by simp
  show ?case
  proof (cases "n \<in> path \<or> sweep_edges (wfg_edges api g) n w = []")
    case True
    then show ?thesis
      using Suc.hyps(2)
      by (auto simp: compute_cascade.simps sweep_line_partition_eq [OF assms] simp flip: Suc.hyps(2))
  next
    case False
    then show ?thesis
      using nle cascade_intervals_eq [OF assms IH, where path = "insert n path"]
      by (simp add: compute_cascade.simps [of api g n] sweep_line_partition_eq [OF assms]
          flip: Suc.hyps(2))
  qed
qed

end

section \<open>Bounds\<close>

lemma share_bound:
  assumes "unat (fst r) + unat (snd r) \<le> D" "D < 2 ^ 64" "n < 2 ^ 64"
  shows "unat (share r n ext) \<le> D div max n 1"
proof -
  have "unat (share r n ext) = (unat (fst r) + unat (snd r)) div max n 1 div max (unat ext) 1"
    using assms by (simp add: share_def unat_div_max unat_plus_no_wrap unat_of_nat_small)
  also have "\<dots> \<le> (unat (fst r) + unat (snd r)) div max n 1"
    by (rule div_le_dividend)
  also have "\<dots> \<le> D div max n 1"
    using assms(1) by (rule div_le_mono)
  finally show ?thesis .
qed

text \<open>The shares of the targets of one interval add up to at most its duration.\<close>

lemma interval_bound:
  assumes "\<And>t. unat (fst (r t)) + unat (snd (r t)) \<le> unat (duration w)" "length ts < 2 ^ 64"
  shows "unat (\<Sum>t \<leftarrow> ts. share (r t) (length ts) (x t)) \<le> unat (duration w)"
proof -
  have D: "unat (duration w) < 2 ^ 64"
    using unat_u64_less by simp
  let ?q = "unat (duration w) div max (length ts) 1"
  have "(\<Sum>t \<leftarrow> ts. unat (share (r t) (length ts) (x t))) \<le> length ts * ?q"
    using share_bound [OF assms(1) D assms(2)] by (intro sum_list_le_const) simp
  also have "\<dots> \<le> unat (duration w)"
    by (cases "length ts = 0") (simp_all add: max_def)
  finally have *: "(\<Sum>t \<leftarrow> ts. unat (share (r t) (length ts) (x t))) \<le> unat (duration w)" .
  with D have "unat (\<Sum>t \<leftarrow> ts. share (r t) (length ts) (x t)) =
      (\<Sum>t \<leftarrow> ts. unat (share (r t) (length ts) (x t)))"
    by (subst unat_sum_list) (simp_all add: comp_def)
  with * show ?thesis by simp
qed

lemma targets_length:
  assumes "iv \<in> set (sweep_edges E n w)"
  shows "length (ei_targets iv) \<le> length E"
proof -
  have "length (ei_targets iv) = card (set (ei_targets iv))"
    using sweep_edges_interval(6) [OF assms] by (simp add: distinct_card)
  also have "\<dots> \<le> card ((fst \<circ> snd) ` set E)"
    using sweep_edges_targets [OF assms] by (intro card_mono) auto
  also have "\<dots> \<le> length E"
    by (meson card_image_le card_length finite_set le_trans)
  finally show ?thesis .
qed

lemma cascade_spec_bound:
  assumes "length E < 2 ^ 64" "window_ok w"
  shows "unat (fst (cascade_spec E k path n w)) + unat (snd (cascade_spec E k path n w))
    \<le> unat (duration w)"
  using assms(2)
proof (induction k arbitrary: path n w)
  case 0
  then show ?case by simp
next
  case (Suc k)
  show ?case
  proof (cases "n \<in> path \<or> sweep_edges E n w = []")
    case True
    then show ?thesis by auto
  next
    case False
    let ?ivs = "sweep_edges E n w"
    let ?S = "\<lambda>iv. \<Sum>t \<leftarrow> ei_targets iv. share (cascade_spec E k (insert n path) t (ei_window iv))
                (length (ei_targets iv)) (waiters E t (ei_window iv))"
    let ?cov = "\<Sum>iv \<leftarrow> ?ivs. unat (duration (ei_window iv))"
    have cov: "?cov \<le> unat (duration w)"
      by (rule sweep_edges_durations [OF Suc.prems])
    have S: "unat (?S iv) \<le> unat (duration (ei_window iv))" if "iv \<in> set ?ivs" for iv
    proof (rule interval_bound)
      have "window_ok (ei_window iv)"
        using sweep_edges_interval(1) [OF that] by (simp add: window_ok_def)
      then show "unat (fst (cascade_spec E k (insert n path) t (ei_window iv))) +
          unat (snd (cascade_spec E k (insert n path) t (ei_window iv))) \<le> unat (duration (ei_window iv))" for t
        by (rule Suc.IH)
      show "length (ei_targets iv) < 2 ^ 64"
        using targets_length [OF that] assms(1) by simp
    qed
    have lim: "unat (duration w) < 2 ^ 64"
      using unat_u64_less by simp
    have sum_le: "(\<Sum>iv \<leftarrow> ?ivs. unat (?S iv)) \<le> ?cov"
      using S by (rule sum_list_mono)
    then have p: "unat (\<Sum>iv \<leftarrow> ?ivs. ?S iv) = (\<Sum>iv \<leftarrow> ?ivs. unat (?S iv))"
      using cov lim by (subst unat_sum_list) (simp_all add: comp_def)
    have c: "unat (\<Sum>iv \<leftarrow> ?ivs. duration (ei_window iv)) = ?cov"
      using cov lim by (subst unat_sum_list) (simp_all add: comp_def)
    have "cascade_spec E (Suc k) path n w =
        (\<Sum>iv \<leftarrow> ?ivs. ?S iv, saturating_sub (duration w) (\<Sum>iv \<leftarrow> ?ivs. duration (ei_window iv)))"
      using False by simp
    then show ?thesis
      using sum_le cov by (simp only: fst_conv snd_conv p c unat_saturating_sub)
  qed
qed

section \<open>The same recursion on natural numbers\<close>

abbreviation taken :: "u64 \<times> u64 \<Rightarrow> nat" where
  "taken r \<equiv> unat (fst r) + unat (snd r)"

lemma unat_share:
  assumes "taken r < 2 ^ 64" "n < 2 ^ 64"
  shows "unat (share r n ext) = taken r div max n 1 div max (unat ext) 1"
  using assms by (simp add: share_def unat_div_max unat_plus_no_wrap unat_of_nat_small)

lemma share_sum_le:
  assumes "\<And>t. taken (r t) \<le> D"
  shows "(\<Sum>t \<leftarrow> ts. taken (r t) div max (length ts) 1 div max (x t) 1) \<le> (D :: nat)"
proof -
  have "taken (r t) div max (length ts) 1 div max (x t) 1 \<le> D div max (length ts) 1" for t
    using div_le_dividend div_le_mono [OF assms] le_trans by blast
  then have "(\<Sum>t \<leftarrow> ts. taken (r t) div max (length ts) 1 div max (x t) 1) \<le> length ts * (D div max (length ts) 1)"
    by (intro sum_list_le_const) simp
  also have "\<dots> \<le> D"
    by (cases "length ts = 0") (simp_all add: max_def)
  finally show ?thesis .
qed

lemma unat_share_sum:
  assumes "\<And>t. taken (r t) \<le> unat (duration w)" "length ts < 2 ^ 64"
  shows "unat (\<Sum>t \<leftarrow> ts. share (r t) (length ts) (x t)) =
    (\<Sum>t \<leftarrow> ts. taken (r t) div max (length ts) 1 div max (unat (x t)) 1)"
proof -
  have lim: "taken (r t) < 2 ^ 64" for t
    using le_less_trans [OF assms(1) [of t] unsigned_less [of "duration w"]] by simp
  have "(\<Sum>t \<leftarrow> ts. taken (r t) div max (length ts) 1 div max (unat (x t)) 1) \<le> unat (duration w)"
    by (rule share_sum_le [OF assms(1)])
  also have "unat (duration w) < 2 ^ 64"
    using unsigned_less [of "duration w"] by simp
  finally show ?thesis
    by (subst unat_sum_list) (simp_all add: comp_def unat_share [OF lim assms(2)])
qed

text \<open>The recursion in unbounded arithmetic: the number of waiters, the length of a window, and
  the cascade of an edge list with \<open>k\<close> levels left. The shares of the targets of one interval
  are what the child has absorbed, divided by the number of targets and then by the number of
  waiters, rounded down each time.\<close>

definition waiter_count :: "(ThreadId \<times> ThreadId \<times> EdgeWeight) list \<Rightarrow> ThreadId \<Rightarrow> TimeWindow \<Rightarrow> nat" where
  "waiter_count E t w = 
     max 1 (card (fst ` set (filter (\<lambda>(s, d, ew). d = t \<and> edge_kind ew = Normal \<and> overlap (time_window ew) w \<noteq> None) E)))"

definition window_length :: "TimeWindow \<Rightarrow> nat" where
  "window_length w = unat (end_ms w) - unat (start_ms w)"

fun cascade_exact ::
    "(ThreadId \<times> ThreadId \<times> EdgeWeight) list \<Rightarrow> nat \<Rightarrow> ThreadId set \<Rightarrow> ThreadId \<Rightarrow> TimeWindow \<Rightarrow> nat \<times> nat" where
  "cascade_exact E 0 path n w = (0, window_length w)"
| "cascade_exact E (Suc k) path n w =
     (if n \<in> path \<or> sweep_edges E n w = [] then (0, window_length w)
      else (\<Sum>iv \<leftarrow> sweep_edges E n w. \<Sum>t \<leftarrow> ei_targets iv.
              (case cascade_exact E k (insert n path) t (ei_window iv) of (p, b) \<Rightarrow>
                 (p + b) div length (ei_targets iv) div waiter_count E t (ei_window iv)),
            window_length w - (\<Sum>iv \<leftarrow> sweep_edges E n w. window_length (ei_window iv))))"

lemma unat_waiters:
  assumes "length E < 2 ^ 64"
  shows "unat (waiters E t w) = waiter_count E t w"
proof -
  let ?S = "set (map fst (filter (\<lambda>(s, d, ew). d = t \<and> edge_kind ew = Normal \<and> overlap (time_window ew) w \<noteq> None) E))"
  have count: "waiter_count E t w = max 1 (card ?S)"
    by (simp only: waiter_count_def set_map)
  have "card ?S \<le> length E"
    by (rule le_trans [OF card_length]) simp
  then have "unat (of_nat (card ?S) :: u64) = card ?S"
    using assms by (intro unat_of_nat_small) simp
  then show ?thesis
    unfolding waiters_def Let_def count by (cases "card ?S = 0") (simp_all only: if_True if_False refl, simp_all)
qed

lemma cascade_spec_exact:
  assumes "length E < 2 ^ 64" "window_ok w"
  shows "cascade_exact E k path n w = (unat (fst (cascade_spec E k path n w)), unat (snd (cascade_spec E k path n w)))"
  using assms(2)
proof (induction k arbitrary: path n w)
  case 0
  then show ?case by (simp add: window_length_def unat_duration)
next
  case (Suc k)
  show ?case
  proof (cases "n \<in> path \<or> sweep_edges E n w = []")
    case True
    then show ?thesis
      using Suc.prems by (auto simp: window_length_def unat_duration)
  next
    case False
    let ?ivs = "sweep_edges E n w" and ?r = "cascade_spec E k (insert n path)"
    let ?S = "\<lambda>iv. \<Sum>t \<leftarrow> ei_targets iv. share (?r t (ei_window iv)) (length (ei_targets iv)) (waiters E t (ei_window iv))"
    have ok: "window_ok (ei_window iv)" "length (ei_targets iv) < 2 ^ 64" if "iv \<in> set ?ivs" for iv
      using sweep_edges_interval(1) [OF that] targets_length [OF that] assms(1) by (simp_all add: window_ok_def)
    have S: "unat (?S iv) = (\<Sum>t \<leftarrow> ei_targets iv. case cascade_exact E k (insert n path) t (ei_window iv) of (p, b) \<Rightarrow>
          (p + b) div length (ei_targets iv) div waiter_count E t (ei_window iv))" if iv: "iv \<in> set ?ivs" for iv
    proof -
      have "unat (?S iv) = (\<Sum>t \<leftarrow> ei_targets iv. taken (?r t (ei_window iv)) div max (length (ei_targets iv)) 1 div
          max (unat (waiters E t (ei_window iv))) 1)"
        by (rule unat_share_sum [OF cascade_spec_bound [OF assms(1) ok(1) [OF iv]] ok(2) [OF iv]])
      also have "\<dots> = (\<Sum>t \<leftarrow> ei_targets iv. case cascade_exact E k (insert n path) t (ei_window iv) of (p, b) \<Rightarrow>
          (p + b) div length (ei_targets iv) div waiter_count E t (ei_window iv))"
      proof (intro arg_cong [where f = sum_list] map_cong refl)
        fix t assume "t \<in> set (ei_targets iv)"
        then have "1 \<le> length (ei_targets iv)"
          by (cases "ei_targets iv") auto
        moreover have "1 \<le> waiter_count E t (ei_window iv)"
          by (simp add: waiter_count_def)
        ultimately show "taken (?r t (ei_window iv)) div max (length (ei_targets iv)) 1 div
            max (unat (waiters E t (ei_window iv))) 1 =
          (case cascade_exact E k (insert n path) t (ei_window iv) of (p, b) \<Rightarrow>
            (p + b) div length (ei_targets iv) div waiter_count E t (ei_window iv))"
          by (simp add: Suc.IH [OF ok(1) [OF iv]] unat_waiters [OF assms(1)])
      qed
      finally show ?thesis .
    qed
    have len: "unat (duration (ei_window iv)) = window_length (ei_window iv)" if "iv \<in> set ?ivs" for iv
      using ok(1) [OF that] by (simp add: window_length_def unat_duration)
    have lens: "(\<Sum>iv \<leftarrow> ?ivs. unat (duration (ei_window iv))) = (\<Sum>iv \<leftarrow> ?ivs. window_length (ei_window iv))"
      using len by (intro arg_cong [where f = sum_list] map_cong) simp_all
    have cov: "(\<Sum>iv \<leftarrow> ?ivs. unat (duration (ei_window iv))) \<le> unat (duration w)"
      by (rule sweep_edges_durations [OF Suc.prems])
    have lim: "unat (duration w) < 2 ^ 64"
      using unat_u64_less by simp
    have bound: "unat (?S iv) \<le> unat (duration (ei_window iv))" if "iv \<in> set ?ivs" for iv
      by (rule interval_bound [OF cascade_spec_bound [OF assms(1) ok(1) [OF that]] ok(2) [OF that]])
    have "(\<Sum>iv \<leftarrow> ?ivs. unat (?S iv)) \<le> unat (duration w)"
      using sum_list_mono [of ?ivs "\<lambda>iv. unat (?S iv)" "\<lambda>iv. unat (duration (ei_window iv))"] bound cov by fastforce
    then have "unat (\<Sum>iv \<leftarrow> ?ivs. ?S iv) = (\<Sum>iv \<leftarrow> ?ivs. unat (?S iv))"
      using lim by (subst unat_sum_list) (simp_all add: comp_def)
    also have "\<dots> = fst (cascade_exact E (Suc k) path n w)"
      using False S by (simp del: sum_list.Cons cong: map_cong)
    finally have p: "unat (fst (cascade_spec E (Suc k) path n w)) = fst (cascade_exact E (Suc k) path n w)"
      using False by simp
    have "unat (\<Sum>iv \<leftarrow> ?ivs. duration (ei_window iv)) = (\<Sum>iv \<leftarrow> ?ivs. window_length (ei_window iv))"
      using cov lim by (subst unat_sum_list) (simp_all add: comp_def lens)
    then have "unat (snd (cascade_spec E (Suc k) path n w)) = snd (cascade_exact E (Suc k) path n w)"
      using False Suc.prems by (simp add: unat_saturating_sub unat_duration window_length_def)
    with p show ?thesis
      by (simp only: prod_eq_iff fst_conv snd_conv)
  qed
qed

section \<open>What the engine computes\<close>

definition attributed_delay ::
    "(ThreadId \<times> ThreadId \<times> EdgeWeight) list \<Rightarrow> u32 \<Rightarrow> ThreadId \<times> ThreadId \<times> EdgeWeight \<Rightarrow> u64" where
  "attributed_delay E m x =
     (case x of (s, d, ew) \<Rightarrow>
        saturating_sub (raw_wait_ms ew) (fst (cascade_spec E (unat m - 1) {s} d (time_window ew))))"

definition attribute ::
    "(ThreadId \<times> ThreadId \<times> EdgeWeight) list \<Rightarrow> u32 \<Rightarrow> ThreadId \<times> ThreadId \<times> EdgeWeight \<Rightarrow>
     ThreadId \<times> ThreadId \<times> EdgeWeight" where
  "attribute E m x = (case x of (s, d, ew) \<Rightarrow> (s, d, set_attribution (attributed_delay E m x) ew))"

definition effective_depth :: "u32 option \<Rightarrow> u32" where
  "effective_depth mo = (case mo of Some d \<Rightarrow> d | None \<Rightarrow> DEFAULT_MAX_DEPTH)"

lemma set_attribution_simps [simp]:
  "time_window (set_attribution a ew) = time_window ew"
  "raw_wait_ms (set_attribution a ew) = raw_wait_ms ew"
  "edge_kind (set_attribution a ew) = edge_kind ew"
  "wait_type (set_attribution a ew) = wait_type ew"
  "attributed_delay_ms (set_attribution a ew) = a"
  "set_attribution a (set_attribution b ew) = set_attribution a ew"
  "set_attribution a (reset_attribution ew) = set_attribution a ew"
  by (simp_all add: set_attribution_def reset_attribution_def)

lemma attributed_le_raw: "attributed_delay E m (s, d, ew) \<le> raw_wait_ms ew"
  by (simp add: attributed_delay_def saturating_sub_le)

lemma attribute_simps [simp]:
  "fst (attribute E m x) = fst x" "fst (snd (attribute E m x)) = fst (snd x)"
  by (simp_all add: attribute_def split_beta)

context wfg_graph
begin

lemma attribution_loop:
  assumes "wfg_inv api g" "set es \<subseteq> set (indexed (wfg_edges api g))"
  shows "\<exists>m'. foldM (attribute_edge api g md) es m = Some m' \<and>
    (\<forall>e. Mapping.lookup m' e =
       (if e \<in> fst ` set es then Some (attributed_delay (wfg_edges api g) md (wfg_edges api g ! e))
        else Mapping.lookup m e))"
  using assms(2)
proof (induction es arbitrary: m)
  case Nil
  then show ?case by simp
next
  case (Cons r es)
  obtain e s d ew where r: "r = (e, s, d, ew)" by (metis surj_pair)
  with Cons.prems have E: "wfg_edges api g ! e = (s, d, ew)"
    by (simp add: in_indexed)
  have "attribute_edge api g md r m =
      Some (Mapping.update e (attributed_delay (wfg_edges api g) md (wfg_edges api g ! e)) m)"
    by (simp add: r E attribute_edge_def compute_cascade_eq [OF assms(1)] attributed_delay_def split_beta)
  moreover obtain m' where m': "foldM (attribute_edge api g md) es
      (Mapping.update e (attributed_delay (wfg_edges api g) md (wfg_edges api g ! e)) m) = Some m'"
    "\<And>e'. Mapping.lookup m' e' =
       (if e' \<in> fst ` set es then Some (attributed_delay (wfg_edges api g) md (wfg_edges api g ! e'))
        else Mapping.lookup (Mapping.update e (attributed_delay (wfg_edges api g) md (wfg_edges api g ! e)) m) e')"
    using Cons by fastforce
  ultimately show ?case
    by (simp add: r lookup_update')
qed

lemma attribution_entries:
  assumes "wfg_inv api g" "all_edges api g = Some es"
  obtains m where "foldM (attribute_edge api g md) es Mapping.empty = Some m"
    "mapping_entries m = map (\<lambda>e. (e, attributed_delay (wfg_edges api g) md (wfg_edges api g ! e)))
       [0..<length (wfg_edges api g)]"
proof -
  have es: "set es = set (indexed (wfg_edges api g))"
    using assms by (auto simp: all_edges_eq)
  obtain m where m: "foldM (attribute_edge api g md) es Mapping.empty = Some m"
    "\<And>e. Mapping.lookup m e =
      (if e \<in> fst ` set es then Some (attributed_delay (wfg_edges api g) md (wfg_edges api g ! e)) else None)"
    using attribution_loop [OF assms(1), of es md Mapping.empty] es by auto
  have "fst ` set es = {0..<length (wfg_edges api g)}"
    by (auto simp: es indexed_def image_iff)
  then have "Mapping.keys m = {0..<length (wfg_edges api g)}"
    by (auto simp: keys_dom_lookup m(2) dom_def)
  then have "mapping_entries m = map (\<lambda>e. (e, the (Mapping.lookup m e))) [0..<length (wfg_edges api g)]"
    by (simp add: mapping_entries_def Mapping.ordered_keys_def)
  then show thesis
    using that [OF m(1)] \<open>fst ` set es = _\<close> by (simp add: m(2))
qed

lemma write_loop:
  assumes "wfg_inv api c" "k \<le> length (wfg_edges api c)"
  shows "\<exists>r. foldM (\<lambda>(eidx, a) r. edge_weight_mut api r eidx (set_attribution a))
      (map (\<lambda>e. (e, f e)) [0..<k]) c = Some r \<and> wfg_inv api r \<and>
    node_map r = node_map c \<and> wfg_kind api r = wfg_kind api c \<and>
    wfg_edges api r =
      map (\<lambda>(e, s, d, ew). (s, d, if e < k then set_attribution (f e) ew else ew)) (indexed (wfg_edges api c))"
  using assms(2)
proof (induction k)
  case 0
  show ?case using assms(1) by (simp add: indexed_weights_case)
next
  case (Suc k)
  then obtain mid where mid: "foldM (\<lambda>(eidx, a) r. edge_weight_mut api r eidx (set_attribution a))
      (map (\<lambda>e. (e, f e)) [0..<k]) c = Some mid" "wfg_inv api mid"
    "node_map mid = node_map c" "wfg_kind api mid = wfg_kind api c"
    "wfg_edges api mid =
      map (\<lambda>(e, s, d, ew). (s, d, if e < k then set_attribution (f e) ew else ew)) (indexed (wfg_edges api c))"
    by auto
  have k: "k < length (wfg_edges api mid)"
    using Suc.prems by (simp only: mid(5)) simp
  from edge_weight_mut_eq [OF mid(2) k, of "set_attribution (f k)"]
  obtain r where r: "edge_weight_mut api mid k (set_attribution (f k)) = Some r" "wfg_inv api r"
    "wfg_edges api r = (wfg_edges api mid)[k := (fst (wfg_edges api mid ! k),
        fst (snd (wfg_edges api mid ! k)), set_attribution (f k) (snd (snd (wfg_edges api mid ! k))))]"
    "node_map r = node_map mid" "wfg_kind api r = wfg_kind api mid"
    by metis
  have "wfg_edges api r =
      map (\<lambda>(e, s, d, ew). (s, d, if e < Suc k then set_attribution (f e) ew else ew)) (indexed (wfg_edges api c))"
    unfolding r(3) mid(5)
    by (rule nth_equalityI) (use Suc.prems in \<open>auto simp: nth_list_update indexed_def split_beta less_Suc_eq\<close>)
  then show ?case
    using mid r by (simp add: foldM_append)
qed

lemma cascade_engine_eq:
  assumes "wfg_inv api g"
  obtains r where "cascade_engine api g mo = Some (Inr r)" "wfg_inv api r"
    "wfg_edges api r = map (attribute (wfg_edges api g) (effective_depth mo)) (wfg_edges api g)"
    "wfg_threads r = wfg_threads g" "wfg_kind api r = wfg_kind api g"
    "check_non_amplification api r = Some True" "check_locality api g r = Some True"
proof -
  let ?E = "wfg_edges api g" and ?m = "effective_depth mo"
  let ?a = "\<lambda>e. attributed_delay ?E ?m (?E ! e)"
  obtain es where es: "all_edges api g = Some es"
    using all_edges_eq [OF assms] by blast
  obtain m where m: "foldM (attribute_edge api g ?m) es Mapping.empty = Some m"
    "mapping_entries m = map (\<lambda>e. (e, ?a e)) [0..<length ?E]"
    using attribution_entries [OF assms es] by blast
  obtain c where c: "clone_with_reset_attribution api g = Some c" "wfg_inv api c"
    "wfg_edges api c = map (\<lambda>(s, d, ew). (s, d, reset_attribution ew)) ?E"
    "wfg_threads c = wfg_threads g" "wfg_kind api c = wfg_kind api g"
    using clone_with_reset_attribution_eq [OF assms] by blast
  have len: "length ?E \<le> length (wfg_edges api c)"
    by (simp only: c(3)) simp
  from write_loop [OF c(2) len, of ?a]
  obtain r where r: "foldM (\<lambda>(eidx, a) r. edge_weight_mut api r eidx (set_attribution a))
      (mapping_entries m) c = Some r" "wfg_inv api r" "node_map r = node_map c"
    "wfg_kind api r = wfg_kind api c" and E: "wfg_edges api r =
      map (\<lambda>(e, s, d, ew). (s, d, if e < length ?E then set_attribution (?a e) ew else ew)) (indexed (wfg_edges api c))"
    unfolding m(2) by blast
  have edges: "wfg_edges api r = map (attribute ?E ?m) ?E"
    unfolding E c(3) by (rule nth_equalityI) (auto simp: indexed_def attribute_def split_beta)
  have amp: "check_non_amplification api r = Some True"
    by (auto simp: check_non_amplification_eq [OF r(2)] edges attribute_def attributed_le_raw)
  have loc: "check_locality api g r = Some True"
    by (rule check_locality_map [OF assms r(2),
          where f = "\<lambda>s d ew. set_attribution (attributed_delay ?E ?m (s, d, ew)) ew"])
      (auto simp: edges attribute_def)
  have "cascade_engine api g mo = Some (Inr r)"
    using es m(1) c(1) r(1) amp loc
    by (simp add: cascade_engine_def effective_depth_def verify_engine_postconditions_def)
  then show thesis
    using that r c edges amp loc by (simp add: wfg_threads_def)
qed

end

section \<open>Independence of attributions and of closure-return edges\<close>

lemma clip_list_cong:
  assumes "\<And>s d ew. fst (f (s, d, ew)) = s \<and> fst (snd (f (s, d, ew))) = d \<and>
      edge_kind (snd (snd (f (s, d, ew)))) = edge_kind ew \<and>
      time_window (snd (snd (f (s, d, ew)))) = time_window ew"
  shows "clip_list (map f E) n w = clip_list E n w"
proof (induction E)
  case (Cons x E)
  obtain s d ew s' d' ew' where x: "x = (s, d, ew)" "f (s, d, ew) = (s', d', ew')"
    by (metis surj_pair)
  with assms [of s d ew] Cons show ?case by (auto split: option.split)
qed simp

lemma clip_list_filter: "clip_list (filter (\<lambda>(s, d, ew). edge_kind ew = Normal) E) n w = clip_list E n w"
  by (induction E n w rule: clip_list.induct) (auto split: option.splits)

lemma waiters_cong:
  assumes "\<And>s d ew. fst (f (s, d, ew)) = s \<and> fst (snd (f (s, d, ew))) = d \<and>
      edge_kind (snd (snd (f (s, d, ew)))) = edge_kind ew \<and>
      time_window (snd (snd (f (s, d, ew)))) = time_window ew"
  shows "waiters (map f E) t w = waiters E t w"
proof -
  have "fst \<circ> f = fst"
    using assms by (auto simp: fun_eq_iff)
  moreover have "((\<lambda>(s, d, ew). d = t \<and> edge_kind ew = Normal \<and> overlap (time_window ew) w \<noteq> None) \<circ> f) =
      (\<lambda>(s, d, ew). d = t \<and> edge_kind ew = Normal \<and> overlap (time_window ew) w \<noteq> None)"
    using assms by (auto simp: fun_eq_iff split_beta)
  ultimately show ?thesis
    by (simp add: waiters_def filter_map)
qed

lemma waiters_filter: "waiters (filter (\<lambda>(s, d, ew). edge_kind ew = Normal) E) t w = waiters E t w"
  by (simp add: waiters_def filter_filter split_beta conj_ac)

lemma cascade_spec_determined:
  assumes "\<And>n w. clip_list E n w = clip_list E' n w" "\<And>t w. waiters E t w = waiters E' t w"
  shows "cascade_spec E k path n w = cascade_spec E' k path n w"
  by (induction k arbitrary: path n w) (simp_all add: sweep_edges_def assms)

lemma attributed_delay_again:
  "attributed_delay (map (attribute E m) E) m' (attribute E m x) = attributed_delay E m' x"
proof -
  have same: "fst (attribute E m (s, d, ew)) = s \<and> fst (snd (attribute E m (s, d, ew))) = d \<and>
      edge_kind (snd (snd (attribute E m (s, d, ew)))) = edge_kind ew \<and>
      time_window (snd (snd (attribute E m (s, d, ew)))) = time_window ew" for s d ew
    by (simp add: attribute_def)
  have "cascade_spec (map (attribute E m) E) = cascade_spec E"
    by (intro ext cascade_spec_determined clip_list_cong waiters_cong same)
  then show ?thesis
    by (simp add: attributed_delay_def split_beta) (simp add: attribute_def split_beta)
qed

lemma attribute_twice: "map (attribute (map (attribute E m) E) m) (map (attribute E m) E) = map (attribute E m) E"
proof -
  have "attribute (map (attribute E m) E) m (attribute E m x) = attribute E m x" for x
    using attributed_delay_again [of E m m x]
    by (cases x) (simp add: attribute_def [of "map (attribute E m) E"] split_beta,
        simp add: attribute_def)
  then show ?thesis by simp
qed

lemma attribute_filter_normal:
  "map (attribute (filter (\<lambda>(s, d, ew). edge_kind ew = Normal) E) m) (filter (\<lambda>(s, d, ew). edge_kind ew = Normal) E) =
   filter (\<lambda>(s, d, ew). edge_kind ew = Normal) (map (attribute E m) E)"
proof -
  have "cascade_spec (filter (\<lambda>(s, d, ew). edge_kind ew = Normal) E) = cascade_spec E"
    by (intro ext cascade_spec_determined clip_list_filter waiters_filter)
  then have eq: "attribute (filter (\<lambda>(s, d, ew). edge_kind ew = Normal) E) m = attribute E m"
    by (simp add: fun_eq_iff attribute_def attributed_delay_def)
  have "filter (\<lambda>(s, d, ew). edge_kind ew = Normal) (map (attribute E m) E) =
      map (attribute E m) (filter (\<lambda>(s, d, ew). edge_kind ew = Normal) E)"
    by (simp add: filter_map comp_def split_beta' attribute_def)
  then show ?thesis
    unfolding eq by simp
qed

context wfg_graph
begin

lemma engine_twice:
  assumes "wfg_inv api g"
  shows "check_idempotency api g m = Some True"
proof -
  obtain r1 where r1: "cascade_engine api g (Some m) = Some (Inr r1)" "wfg_inv api r1"
    "wfg_edges api r1 = map (attribute (wfg_edges api g) m) (wfg_edges api g)"
    using cascade_engine_eq [OF assms, of "Some m"] by (auto simp: effective_depth_def)
  obtain r2 where r2: "cascade_engine api r1 (Some m) = Some (Inr r2)" "wfg_inv api r2"
    "wfg_edges api r2 = map (attribute (wfg_edges api r1) m) (wfg_edges api r1)"
    using cascade_engine_eq [OF r1(2), of "Some m"] by (auto simp: effective_depth_def)
  have "wfg_edges api r2 = wfg_edges api r1"
    unfolding r2(3) r1(3) by (rule attribute_twice)
  then have "all_edges api r2 = all_edges api r1"
    by (simp add: all_edges_eq r1(2) r2(2))
  moreover have "list_all (\<lambda>((_, _, _, a), (_, _, _, b)). attributed_delay_ms a = attributed_delay_ms b)
      (zip es es)" for es :: "full_edge_ref list"
    by (induction es) auto
  ultimately show ?thesis
    by (simp add: check_idempotency_def expect_ok_def r1(1) r2(1) all_edges_eq [OF r1(2)])
qed

end

section \<open>Properties\<close>

text \<open>Property C6. On a well-formed graph the engine does not panic and its sentinel never
  fires: it returns a graph with the same threads and kinds that passes the invariant checks
  I-2 and I-7 against the input, and I-4 (same node and edge counts).\<close>

theorem engine_succeeds:
  assumes "petgraph api" "wfg_inv api g"
  shows "\<exists>r. cascade_engine api g mo = Some (Inr r) \<and> wfg_inv api r \<and>
    wfg_threads r = wfg_threads g \<and> wfg_kind api r = wfg_kind api g \<and>
    invariants_ok api g r = Some True \<and> check_termination api g r"
proof -
  note wg = wfg_graph.intro [OF assms(1)]
  obtain r where r: "cascade_engine api g mo = Some (Inr r)" "wfg_inv api r"
    "wfg_edges api r = map (attribute (wfg_edges api g) (effective_depth mo)) (wfg_edges api g)"
    "wfg_threads r = wfg_threads g" "wfg_kind api r = wfg_kind api g"
    "check_non_amplification api r = Some True" "check_locality api g r = Some True"
    by (rule wfg_graph.cascade_engine_eq [OF wg assms(2)])
  have "edge_count api r = edge_count api g"
    using arg_cong [OF r(3), of length] by (simp add: edge_count_def petgraph.length_pg_edges [OF assms(1)])
  then have "check_termination api g r"
    by (simp add: check_termination_def wfg_graph.node_count_threads [OF wg] assms(2) r(2,4))
  with r show ?thesis
    by (simp add: invariants_ok_def)
qed

lemma engine_succeeds_witness:
  "\<exists>r. cascade_engine adj_api figure4 None = Some (Inr r) \<and> wfg_inv adj_api r \<and>
    wfg_threads r = wfg_threads figure4 \<and> wfg_kind adj_api r = wfg_kind adj_api figure4 \<and>
    invariants_ok adj_api figure4 r = Some True \<and> check_termination adj_api figure4 r"
  by (rule engine_succeeds [OF adj.petgraph_axioms figure4_ok(1)])

text \<open>Property C5. The engine computes the attribution of the abstract cascade: edge by edge
  it keeps endpoints, window, raw wait, wait type and kind, and sets the attributed delay to
  the raw wait less the delay that the structural recursion over the edge list propagates
  from the target.\<close>

theorem engine_refines_spec:
  assumes "petgraph api" "wfg_inv api g" "cascade_engine api g mo = Some (Inr r)"
  shows "wfg_edges api r = map (attribute (wfg_edges api g) (effective_depth mo)) (wfg_edges api g)"
  by (rule wfg_graph.cascade_engine_eq [OF wfg_graph.intro [OF assms(1)] assms(2), of mo])
    (simp add: assms(3))

lemma engine_refines_spec_witness:
  "\<exists>r. cascade_engine adj_api figure4 None = Some (Inr r) \<and>
    map (\<lambda>(s, d, ew). attributed_delay_ms ew) (wfg_edges adj_api r) = [20, 80]"
proof -
  obtain r where r: "cascade_engine adj_api figure4 None = Some (Inr r)"
    by (rule wfg_graph.cascade_engine_eq [OF adj_wfg.wfg_graph_axioms figure4_ok(1)])
  have "map (\<lambda>(s, d, ew). attributed_delay_ms ew) (map (attribute figure4_edges 10) figure4_edges) = [20, 80]"
    by code_simp
  then show ?thesis
    using r engine_refines_spec [OF adj.petgraph_axioms figure4_ok(1) r]
    by (simp add: figure4_ok effective_depth_def DEFAULT_MAX_DEPTH_def)
qed

text \<open>Property C20. Conservation: on a well-formed graph the recursion always returns, leaves
  the path set as it found it, and yields exactly the propagated delay and the self blame that
  the same recursion yields on unbounded natural numbers: whatever the depth, the cycles and
  the number of targets, no wrap-around of a u64 sum reaches the result. The two together never
  exceed the duration of the window.\<close>

theorem compute_cascade_conserves:
  assumes "petgraph api" "wfg_inv api g" "edge_count api g < 2 ^ 64" "window_ok w"
  shows "\<exists>p b. compute_cascade api g n w d m path = Some ((p, b), path) \<and>
    cascade_exact (wfg_edges api g) (unat m - unat d) path n w = (unat p, unat b) \<and>
    unat p + unat b \<le> unat (end_ms w) - unat (start_ms w)"
proof -
  have "length (wfg_edges api g) < 2 ^ 64"
    using assms(3) by (simp add: edge_count_def petgraph.length_pg_edges [OF assms(1)])
  from cascade_spec_bound [OF this assms(4)] cascade_spec_exact [OF this assms(4)] show ?thesis
    by (simp add: wfg_graph.compute_cascade_eq [OF wfg_graph.intro [OF assms(1)] assms(2)]
        unat_duration [OF assms(4)] prod_eq_iff)
qed

lemma compute_cascade_conserves_witness:
  "\<exists>p b. compute_cascade adj_api figure4 (ThreadId 2) (TimeWindow_new 0 100) 1 10 {ThreadId 1} =
      Some ((p, b), {ThreadId 1}) \<and> unat p = 80 \<and> unat b = 20"
proof -
  have "cascade_exact figure4_edges 9 {ThreadId 1} (ThreadId 2) (TimeWindow_new 0 100) = (80, 20)"
    by code_simp
  then show ?thesis
    using compute_cascade_conserves [OF adj.petgraph_axioms figure4_ok(1), where w = "TimeWindow_new 0 100"
        and d = 1 and m = 10 and path = "{ThreadId 1}" and n = "ThreadId 2"]
    by (auto simp: edge_count_def figure4_counts figure4_ok)
qed

text \<open>Property C19. When every edge is built by the constructors, the subtraction in the engine
  never saturates: on each edge, attributed delay plus propagated delay is exactly the raw
  wait.\<close>

theorem engine_conserves_edge:
  assumes "petgraph api" "wfg_inv api g" "edge_count api g < 2 ^ 64"
    "cascade_engine api g mo = Some (Inr r)"
    "(s, d, ew) \<in> set (wfg_edges api g)" "edge_ok ew"
  shows "\<exists>p b ew'. compute_cascade api g d (time_window ew) 1 (effective_depth mo) {s} = Some ((p, b), {s}) \<and>
    (s, d, ew') \<in> set (wfg_edges api r) \<and> raw_wait_ms ew' = raw_wait_ms ew \<and>
    unat (attributed_delay_ms ew') + unat p = unat (raw_wait_ms ew)"
proof -
  let ?E = "wfg_edges api g" and ?m = "effective_depth mo"
  let ?c = "cascade_spec ?E (unat ?m - 1) {s} d (time_window ew)"
  note wg = wfg_graph.intro [OF assms(1)]
  have "length ?E < 2 ^ 64"
    using assms(3) by (simp add: edge_count_def petgraph.length_pg_edges [OF assms(1)])
  with assms(6) have "unat (fst ?c) \<le> unat (raw_wait_ms ew)"
    using cascade_spec_bound [of ?E "time_window ew" "unat ?m - 1" "{s}" d]
    by (simp add: edge_ok_def)
  moreover have "wfg_edges api r = map (attribute ?E ?m) ?E"
    by (rule wfg_graph.cascade_engine_eq [OF wg assms(2), of mo]) (simp add: assms(4))
  then have "attribute ?E ?m (s, d, ew) \<in> set (wfg_edges api r)"
    using assms(5) by (metis image_eqI list.set_map)
  ultimately show ?thesis
    by (auto simp: wfg_graph.compute_cascade_eq [OF wg assms(2)] attribute_def attributed_delay_def
        unat_saturating_sub prod_eq_iff intro!: exI [of _ "fst ?c"] exI [of _ "snd ?c"])
qed

lemma engine_conserves_edge_witness:
  "\<exists>r p b ew'. cascade_engine adj_api figure4 None = Some (Inr r) \<and>
    compute_cascade adj_api figure4 (ThreadId 2) (TimeWindow_new 0 100) 1 10 {ThreadId 1} =
      Some ((p, b), {ThreadId 1}) \<and>
    (ThreadId 1, ThreadId 2, ew') \<in> set (wfg_edges adj_api r) \<and>
    unat (attributed_delay_ms ew') + unat p = 100"
proof -
  obtain r where r: "cascade_engine adj_api figure4 None = Some (Inr r)"
    by (rule wfg_graph.cascade_engine_eq [OF adj_wfg.wfg_graph_axioms figure4_ok(1)])
  show ?thesis
    using engine_conserves_edge [OF adj.petgraph_axioms figure4_ok(1) _ r,
        of "ThreadId 1" "ThreadId 2" "EdgeWeight_new (TimeWindow_new 0 100)"] r
    by (auto simp: edge_count_def figure4_counts figure4_ok figure4_edges_def edge_ok_def
        effective_depth_def DEFAULT_MAX_DEPTH_def duration_def)
qed

text \<open>Property C32. I-5: running the engine on its own output changes no attribution, at any
  depth bound, and neither run fails.\<close>

theorem engine_idempotent:
  assumes "petgraph api" "wfg_inv api g"
  shows "check_idempotency api g m = Some True"
  by (rule wfg_graph.engine_twice [OF wfg_graph.intro [OF assms(1)] assms(2)])

lemma engine_idempotent_witness: "check_idempotency adj_api figure4 3 = Some True"
  by (rule engine_idempotent [OF adj.petgraph_axioms figure4_ok(1)])

text \<open>Closure-return edges are invisible to the redistribution: in a graph that
  has only the normal edges of \<open>g\<close>, the engine attributes to each of them exactly what it
  attributes to it in \<open>g\<close>.\<close>

theorem engine_ignores_closure_edges:
  assumes "petgraph api" "wfg_inv api g" "wfg_inv api h"
    "wfg_edges api h = filter (\<lambda>(s, d, ew). edge_kind ew = Normal) (wfg_edges api g)"
    "cascade_engine api g mo = Some (Inr r)" "cascade_engine api h mo = Some (Inr q)"
  shows "wfg_edges api q = filter (\<lambda>(s, d, ew). edge_kind ew = Normal) (wfg_edges api r)"
proof -
  note wg = wfg_graph.intro [OF assms(1)]
  have r: "wfg_edges api r = map (attribute (wfg_edges api g) (effective_depth mo)) (wfg_edges api g)"
    by (rule wfg_graph.cascade_engine_eq [OF wg assms(2), of mo]) (simp add: assms(5))
  have q: "wfg_edges api q = map (attribute (wfg_edges api h) (effective_depth mo)) (wfg_edges api h)"
    by (rule wfg_graph.cascade_engine_eq [OF wg assms(3), of mo]) (simp add: assms(6))
  show ?thesis
    unfolding r q assms(4) by (rule attribute_filter_normal)
qed

lemma engine_ignores_closure_edges_witness:
  "\<exists>r q. cascade_engine adj_api closure4 None = Some (Inr r) \<and>
    cascade_engine adj_api figure4 None = Some (Inr q) \<and>
    wfg_edges adj_api q = filter (\<lambda>(s, d, ew). edge_kind ew = Normal) (wfg_edges adj_api r)"
proof -
  obtain r where r: "cascade_engine adj_api closure4 None = Some (Inr r)"
    by (rule wfg_graph.cascade_engine_eq [OF adj_wfg.wfg_graph_axioms closure4_ok(1)])
  obtain q where q: "cascade_engine adj_api figure4 None = Some (Inr q)"
    by (rule wfg_graph.cascade_engine_eq [OF adj_wfg.wfg_graph_axioms figure4_ok(1)])
  have "wfg_edges adj_api figure4 =
      filter (\<lambda>(s, d, ew). edge_kind ew = Normal) (wfg_edges adj_api closure4)"
    by (simp add: figure4_ok closure4_ok figure4_edges_def)
  from engine_ignores_closure_edges [OF adj.petgraph_axioms closure4_ok(1) figure4_ok(1) this r q] r q
  show ?thesis by blast
qed

text \<open>An edge whose target waits for nothing during the wait (no normal edge
  leaves it that overlaps the window) keeps its whole raw wait: the blame stops at the leaf.\<close>

theorem engine_blames_leaves:
  assumes "petgraph api" "wfg_inv api g" "cascade_engine api g mo = Some (Inr r)"
    "(s, d, ew) \<in> set (wfg_edges api g)"
    "\<forall>(s', d', ew') \<in> set (wfg_edges api g).
       \<not> (s' = d \<and> edge_kind ew' = Normal \<and> overlap (time_window ew) (time_window ew') \<noteq> None)"
  shows "(s, d, ew\<lparr>attributed_delay_ms := raw_wait_ms ew\<rparr>) \<in> set (wfg_edges api r)"
proof -
  let ?E = "wfg_edges api g" and ?m = "effective_depth mo"
  have r: "wfg_edges api r = map (attribute ?E ?m) ?E"
    by (rule wfg_graph.cascade_engine_eq [OF wfg_graph.intro [OF assms(1)] assms(2), of mo])
      (simp add: assms(3))
  have "set (clip_list ?E d (time_window ew)) = {}"
    using assms(5) by (intro equals0I) (force simp: in_clip_list)
  then have "fst (cascade_spec ?E k {s} d (time_window ew)) = 0" for k
    by (cases k) (simp_all add: sweep_edges_def)
  then have "attribute ?E ?m (s, d, ew) = (s, d, ew\<lparr>attributed_delay_ms := raw_wait_ms ew\<rparr>)"
    by (simp add: attribute_def attributed_delay_def set_attribution_def)
  then show ?thesis
    unfolding r using assms(4) by (metis image_eqI list.set_map)
qed

lemma engine_blames_leaves_witness:
  "\<exists>r. cascade_engine adj_api figure4 None = Some (Inr r) \<and>
    (ThreadId 2, ThreadId 3, EdgeWeight_new (TimeWindow_new 20 100)) \<in> set (wfg_edges adj_api r)"
proof -
  obtain r where r: "cascade_engine adj_api figure4 None = Some (Inr r)"
    by (rule wfg_graph.cascade_engine_eq [OF adj_wfg.wfg_graph_axioms figure4_ok(1)])
  show ?thesis
    using engine_blames_leaves [OF adj.petgraph_axioms figure4_ok(1) r,
        of "ThreadId 2" "ThreadId 3" "EdgeWeight_new (TimeWindow_new 20 100)"] r
    by (simp add: figure4_ok figure4_edges_def EdgeWeight_new_def Let_def)
qed

text \<open>With a depth bound of at most one the engine redistributes nothing: every
  edge is attributed its raw wait.\<close>

theorem engine_depth_one:
  assumes "petgraph api" "wfg_inv api g" "unat m \<le> 1" "cascade_engine api g (Some m) = Some (Inr r)"
  shows "wfg_edges api r = map (\<lambda>(s, d, ew). (s, d, reset_attribution ew)) (wfg_edges api g)"
proof -
  have "wfg_edges api r = map (attribute (wfg_edges api g) m) (wfg_edges api g)"
    by (rule wfg_graph.cascade_engine_eq [OF wfg_graph.intro [OF assms(1)] assms(2), of "Some m"])
      (simp add: assms(4) effective_depth_def)
  then show ?thesis
    using assms(3)
    by (auto simp: attribute_def attributed_delay_def set_attribution_def reset_attribution_def)
qed

lemma engine_depth_one_witness:
  "\<exists>r. cascade_engine adj_api figure4 (Some 1) = Some (Inr r) \<and> wfg_edges adj_api r = figure4_edges"
proof -
  obtain r where r: "cascade_engine adj_api figure4 (Some 1) = Some (Inr r)"
    by (rule wfg_graph.cascade_engine_eq [OF adj_wfg.wfg_graph_axioms figure4_ok(1)])
  show ?thesis
    using engine_depth_one [OF adj.petgraph_axioms figure4_ok(1) _ r] r
    by (simp add: figure4_ok figure4_edges_def reset_attribution_def EdgeWeight_new_def Let_def)
qed

end
