(* ===== verification/Output.thy ===== *)
theory Output
  imports Cascade
begin

text \<open>
  The cascade part of the report (\<open>src/output.rs\<close>): the edges of the result in the order of
  \<open>all_edges\<close>, and the metrics of the graph. The lemmas show what \<open>from_graph\<close> returns for the
  result of the engine, and that it never attributes more delay than was waited. Serde's
  derived JSON serialisation of the records is not modelled.
\<close>

section \<open>Data\<close>

record EdgeOutput =
  eo_src :: ThreadId
  eo_dst :: ThreadId
  eo_raw_wait_ms :: u64
  eo_attributed_delay_ms :: u64

record GraphMetrics =
  total_raw_wait_ms :: u64
  total_attributed_delay_ms :: u64
  gm_invariants_ok :: bool
  gm_edge_count :: nat
  gm_node_count :: nat

record CascadeResult =
  cr_edges :: "EdgeOutput list"
  graph_metrics :: GraphMetrics

definition CascadeResult_from_graph ::
    "'g wfg_api \<Rightarrow> 'g WaitForGraph \<Rightarrow> 'g WaitForGraph \<Rightarrow> CascadeResult option" where
  "CascadeResult_from_graph api original result = do {
     es \<leftarrow> all_edges api result;
     let edges = map (\<lambda>(_, src, dst, ew). \<lparr>eo_src = src, eo_dst = dst, eo_raw_wait_ms = raw_wait_ms ew,
           eo_attributed_delay_ms = attributed_delay_ms ew\<rparr>) es;
     total_raw \<leftarrow> total_raw_wait api original;
     total_attr \<leftarrow> total_attributed api result;
     ok \<leftarrow> invariants_ok api original result;
     Some \<lparr>cr_edges = edges,
       graph_metrics = \<lparr>total_raw_wait_ms = total_raw, total_attributed_delay_ms = total_attr,
         gm_invariants_ok = ok, gm_edge_count = edge_count api result, gm_node_count = node_count api result\<rparr>\<rparr>
   }"

section \<open>The result of the engine\<close>

definition edge_output :: "ThreadId \<times> ThreadId \<times> EdgeWeight \<Rightarrow> EdgeOutput" where
  "edge_output x = (case x of (s, d, ew) \<Rightarrow> \<lparr>eo_src = s, eo_dst = d, eo_raw_wait_ms = raw_wait_ms ew,
     eo_attributed_delay_ms = attributed_delay_ms ew\<rparr>)"

lemma sum_list_map_mset:
  fixes f :: "'a \<Rightarrow> nat"
  assumes "mset xs = mset (map h ys)"
  shows "sum_list (map f xs) = sum_list (map (\<lambda>y. f (h y)) ys)"
proof -
  have "sum_mset (image_mset f (mset xs)) = sum_mset (image_mset f (mset (map h ys)))"
    by (simp only: assms)
  then show ?thesis
    unfolding mset_map [symmetric] sum_mset_sum_list by (simp add: comp_def)
qed

lemma sorted_edges_mset: "mset (map snd (sort_key edge_key (indexed E))) = mset E"
proof -
  have "mset (map snd (sort_key edge_key (indexed E))) = mset (map snd (indexed E))"
    by simp
  then show ?thesis
    by (simp only: indexed_weights)
qed

context wfg_graph
begin

lemma from_graph_eq:
  assumes "wfg_inv api r" "invariants_ok api g r = Some ok"
  shows "CascadeResult_from_graph api g r = Some
    \<lparr>cr_edges = map (\<lambda>x. edge_output (snd x)) (sort_key edge_key (indexed (wfg_edges api r))),
     graph_metrics = \<lparr>total_raw_wait_ms = sum_list (map (\<lambda>(_, _, ew). raw_wait_ms ew) (wfg_edges api g)),
       total_attributed_delay_ms = sum_list (map (\<lambda>(_, _, ew). attributed_delay_ms ew) (wfg_edges api r)),
       gm_invariants_ok = ok, gm_edge_count = edge_count api r, gm_node_count = node_count api r\<rparr>\<rparr>"
  using assms by (simp add: CascadeResult_from_graph_def all_edges_eq total_raw_wait_eq total_attributed_eq
      edge_output_def split_beta' Let_def)

lemma from_graph_edges_mset:
  "mset (map (\<lambda>x. edge_output (snd x)) (sort_key edge_key (indexed E))) = mset (map edge_output E)"
  using arg_cong [OF sorted_edges_mset [of E], of "image_mset edge_output"]
  by (simp add: multiset.map_comp comp_def)

lemma from_graph_edges_sorted:
  "sorted (map (\<lambda>e. (eo_src e, eo_dst e)) (map (\<lambda>x. edge_output (snd x)) (sort_key edge_key (indexed E))))"
proof -
  have "map (\<lambda>e. (eo_src e, eo_dst e)) (map (\<lambda>x. edge_output (snd x)) (sort_key edge_key (indexed E))) =
      map edge_key (sort_key edge_key (indexed E))"
    by (simp add: edge_output_def edge_key_def split_beta')
  then show ?thesis
    by (simp only: sorted_sort_key)
qed

end

text \<open>The cascade section lists the edges of the graph and counts its threads.\<close>

lemma cascade_section_edges:
  assumes "petgraph api" "wfg_inv api g" "cascade_engine api g mo = Some (Inr r)"
    "CascadeResult_from_graph api g r = Some cr"
  shows "mset (map (\<lambda>e. (eo_src e, eo_dst e, eo_raw_wait_ms e)) (cr_edges cr)) =
      mset (map (\<lambda>(s, d, ew). (s, d, raw_wait_ms ew)) (wfg_edges api g))"
    and graph_metrics_nodes: "gm_node_count (graph_metrics cr) = card (wfg_threads g) \<and> finite (wfg_threads g)"
proof -
  note wg = wfg_graph.intro [OF assms(1)]
  obtain r' where r': "cascade_engine api g mo = Some (Inr r')" "wfg_inv api r'"
    "wfg_edges api r' = map (attribute (wfg_edges api g) (effective_depth mo)) (wfg_edges api g)"
    "wfg_threads r' = wfg_threads g" "check_non_amplification api r' = Some True" "check_locality api g r' = Some True"
    by (rule wfg_graph.cascade_engine_eq [OF wg assms(2)])
  then have r: "wfg_inv api r" "wfg_threads r = wfg_threads g" "invariants_ok api g r = Some True"
    "wfg_edges api r = map (attribute (wfg_edges api g) (effective_depth mo)) (wfg_edges api g)"
    using assms(3) by (simp_all add: invariants_ok_def)
  have cr: "cr_edges cr = map (\<lambda>x. edge_output (snd x)) (sort_key edge_key (indexed (wfg_edges api r)))"
    "gm_node_count (graph_metrics cr) = node_count api r"
    using assms(4) wfg_graph.from_graph_eq [OF wg r(1,3)] by auto
  show "gm_node_count (graph_metrics cr) = card (wfg_threads g) \<and> finite (wfg_threads g)"
    using cr(2) wfg_graph.node_count_threads [OF wg r(1)] wfg_graph.finite_threads [OF wg assms(2)] r(2) by simp
  have "mset (map (\<lambda>e. (eo_src e, eo_dst e, eo_raw_wait_ms e)) (cr_edges cr)) =
      image_mset (\<lambda>e. (eo_src e, eo_dst e, eo_raw_wait_ms e)) (mset (map edge_output (wfg_edges api r)))"
    unfolding cr(1) mset_map [of "\<lambda>e. (eo_src e, eo_dst e, eo_raw_wait_ms e)"]
    by (simp only: wfg_graph.from_graph_edges_mset [OF wg])
  also have "\<dots> = mset (map (\<lambda>(s, d, ew). (s, d, raw_wait_ms ew)) (wfg_edges api r))"
    by (simp add: multiset.map_comp comp_def edge_output_def split_beta')
  also have "map (\<lambda>(s, d, ew). (s, d, raw_wait_ms ew)) (wfg_edges api r) =
      map (\<lambda>(s, d, ew). (s, d, raw_wait_ms ew)) (wfg_edges api g)"
    by (auto simp: r(4) attribute_def set_attribution_def)
  finally show "mset (map (\<lambda>e. (eo_src e, eo_dst e, eo_raw_wait_ms e)) (cr_edges cr)) =
      mset (map (\<lambda>(s, d, ew). (s, d, raw_wait_ms ew)) (wfg_edges api g))" .
qed

section \<open>Properties\<close>

text \<open>The cascade section of the report never panics and is consistent: it lists
  exactly the edges of the wait-for graph, in order of source and target, each with its raw
  wait and no more attributed delay than that; the metrics count these edges and all threads;
  the totals, where they fit 64 bits, are the sums of the listed edges, so that the total
  attributed delay never exceeds the total wait; the sentinel is always true.\<close>

theorem output_consistent:
  assumes "petgraph api" "wfg_inv api g" "cascade_engine api g mo = Some (Inr r)"
    and fits: "sum_list (map (\<lambda>(_, _, ew). unat (raw_wait_ms ew)) (wfg_edges api g)) < 2 ^ 64"
  shows "\<exists>cr. CascadeResult_from_graph api g r = Some cr \<and>
    mset (map (\<lambda>e. (eo_src e, eo_dst e, eo_raw_wait_ms e)) (cr_edges cr)) =
      mset (map (\<lambda>(s, d, ew). (s, d, raw_wait_ms ew)) (wfg_edges api g)) \<and>
    sorted (map (\<lambda>e. (eo_src e, eo_dst e)) (cr_edges cr)) \<and>
    (\<forall>e \<in> set (cr_edges cr). eo_attributed_delay_ms e \<le> eo_raw_wait_ms e) \<and>
    gm_edge_count (graph_metrics cr) = length (cr_edges cr) \<and>
    gm_node_count (graph_metrics cr) = card (wfg_threads g) \<and>
    unat (total_raw_wait_ms (graph_metrics cr)) = sum_list (map (\<lambda>e. unat (eo_raw_wait_ms e)) (cr_edges cr)) \<and>
    unat (total_attributed_delay_ms (graph_metrics cr)) = sum_list (map (\<lambda>e. unat (eo_attributed_delay_ms e)) (cr_edges cr)) \<and>
    total_attributed_delay_ms (graph_metrics cr) \<le> total_raw_wait_ms (graph_metrics cr) \<and>
    gm_invariants_ok (graph_metrics cr)"
proof -
  note wg = wfg_graph.intro [OF assms(1)]
  obtain r' where r': "cascade_engine api g mo = Some (Inr r')" "wfg_inv api r'"
    "wfg_edges api r' = map (attribute (wfg_edges api g) (effective_depth mo)) (wfg_edges api g)"
    "wfg_threads r' = wfg_threads g" "check_non_amplification api r' = Some True" "check_locality api g r' = Some True"
    by (rule wfg_graph.cascade_engine_eq [OF wg assms(2)])
  then have r: "wfg_inv api r" "wfg_threads r = wfg_threads g" "invariants_ok api g r = Some True"
    "wfg_edges api r = map (attribute (wfg_edges api g) (effective_depth mo)) (wfg_edges api g)"
    "check_non_amplification api r = Some True"
    using assms(3) by (simp_all add: invariants_ok_def)
  let ?E = "wfg_edges api g" and ?F = "wfg_edges api r"
  define out where "out = map (\<lambda>x. edge_output (snd x)) (sort_key edge_key (indexed ?F))"
  have amp: "attributed_delay_ms ew \<le> raw_wait_ms ew" if "(s, d, ew) \<in> set ?F" for s d ew
    using r(5) that wfg_graph.check_non_amplification_eq [OF wg r(1)] by auto
  have out: "mset out = mset (map edge_output ?F)"
    unfolding out_def by (rule wfg_graph.from_graph_edges_mset [OF wg])
  have set_out: "set out = edge_output ` set ?F"
    using arg_cong [OF out, of set_mset] by simp
  have same: "map (\<lambda>(s, d, ew). (s, d, raw_wait_ms ew)) ?F = map (\<lambda>(s, d, ew). (s, d, raw_wait_ms ew)) ?E"
    by (auto simp: r(4) attribute_def set_attribution_def)
  have sums: "sum_list (map f out) = sum_list (map (\<lambda>x. f (edge_output x)) ?F)" for f :: "EdgeOutput \<Rightarrow> nat"
    by (rule sum_list_map_mset [OF out])
  let ?raw = "\<lambda>(_, _, ew). unat (raw_wait_ms ew)" and ?attr = "\<lambda>(_, _, ew). unat (attributed_delay_ms ew)"
  have rawF: "sum_list (map ?raw ?F) = sum_list (map ?raw ?E)"
    using arg_cong [OF same, of "\<lambda>xs. sum_list (map (\<lambda>(_, _, w). unat w) xs)"]
    by (simp add: comp_def split_beta')
  have le: "sum_list (map ?attr ?F) \<le> sum_list (map ?raw ?F)"
    using amp by (intro sum_list_mono) (auto simp: word_le_nat_alt)
  have total: "unat (sum_list (map (\<lambda>(_, _, ew). raw_wait_ms ew) ?E)) = sum_list (map ?raw ?E)"
    "unat (sum_list (map (\<lambda>(_, _, ew). attributed_delay_ms ew) ?F)) = sum_list (map ?attr ?F)"
    using fits le rawF by (simp_all add: unat_sum_list comp_def split_beta')
  have outs: "sum_list (map (\<lambda>e. unat (eo_raw_wait_ms e)) out) = sum_list (map ?raw ?F)"
    "sum_list (map (\<lambda>e. unat (eo_attributed_delay_ms e)) out) = sum_list (map ?attr ?F)"
    unfolding sums by (simp_all add: edge_output_def split_beta')
  have "mset (map (\<lambda>e. (eo_src e, eo_dst e, eo_raw_wait_ms e)) out) =
      mset (map (\<lambda>(s, d, ew). (s, d, raw_wait_ms ew)) ?F)"
    using arg_cong [OF out, of "image_mset (\<lambda>e. (eo_src e, eo_dst e, eo_raw_wait_ms e))"]
    by (simp only: mset_map [symmetric] map_map comp_def edge_output_def split_beta') simp
  then have listed: "mset (map (\<lambda>e. (eo_src e, eo_dst e, eo_raw_wait_ms e)) out) =
      mset (map (\<lambda>(s, d, ew). (s, d, raw_wait_ms ew)) ?E)"
    by (simp only: same)
  have bounded: "\<forall>e \<in> set out. eo_attributed_delay_ms e \<le> eo_raw_wait_ms e"
    unfolding set_out using amp by (auto simp: edge_output_def)
  have counts: "edge_count api r = length out" "node_count api r = card (wfg_threads g)"
    using wfg_graph.node_count_threads [OF wg r(1)] r(2)
    by (simp_all add: out_def edge_count_def petgraph.length_pg_edges [OF assms(1)])
  have "sum_list (map (\<lambda>(_, _, ew). attributed_delay_ms ew) ?F) \<le> sum_list (map (\<lambda>(_, _, ew). raw_wait_ms ew) ?E)"
    using le total rawF by (simp add: word_le_nat_alt)
  moreover have "sorted (map (\<lambda>e. (eo_src e, eo_dst e)) out)"
    unfolding out_def by (rule wfg_graph.from_graph_edges_sorted [OF wg])
  moreover note wfg_graph.from_graph_eq [OF wg r(1,3), folded out_def]
  ultimately show ?thesis
    using listed bounded counts total outs rawF by simp
qed

lemma output_consistent_witness:
  "\<exists>r cr. cascade_engine adj_api figure4 None = Some (Inr r) \<and> CascadeResult_from_graph adj_api figure4 r = Some cr \<and>
    total_attributed_delay_ms (graph_metrics cr) \<le> total_raw_wait_ms (graph_metrics cr)"
proof -
  obtain r where r: "cascade_engine adj_api figure4 None = Some (Inr r)"
    by (rule wfg_graph.cascade_engine_eq [OF adj_wfg.wfg_graph_axioms figure4_ok(1)])
  have "sum_list (map (\<lambda>(_, _, ew). unat (raw_wait_ms ew)) (wfg_edges adj_api figure4)) < 2 ^ 64"
    by (simp add: figure4_ok figure4_edges_def duration_def)
  from output_consistent [OF adj.petgraph_axioms figure4_ok(1) r this] r show ?thesis by blast
qed

end
