(* ===== verification/Device.thy ===== *)
theory Device
  imports Wperf_Prelude
begin

text \<open>
  The part of \<open>std::io\<close> the file format uses: a seekable byte stream as its contents and its
  position, with the methods \<open>write_all\<close>, \<open>read_exact\<close>, \<open>stream_position\<close> and \<open>seek\<close>.
  A computation maps a state to an error or a value, and the state after it. Writing can
  fail: \<open>dev_budget\<close> is the number of bytes the stream still accepts before an error (\<open>None\<close>
  for no limit), and a write that runs into it has stored a part of its bytes, as an
  interrupted \<open>write_all\<close> does. Reading fails at the end of the stream only: a read error of
  the medium is not modelled, nor is a write error that goes away again. Offsets are natural numbers; \<open>stream_position\<close> and \<open>seek\<close>
  return them as u64, which is exact below 2^64 bytes. A file offset is a signed 64-bit
  integer, so \<open>seek_start\<close> refuses an offset of 2^63 or more, such as one read from a corrupt
  header, with an error; \<open>seek_forward\<close> is only used on a target the reader has found to lie
  inside the file.
\<close>

section \<open>Computations\<close>

type_synonym ('s, 'e, 'a) comp = "'s \<Rightarrow> ('e + 'a) \<times> 's"

definition io_return :: "'a \<Rightarrow> ('s, 'e, 'a) comp" where
  "io_return x s = (Inr x, s)"

definition io_fail :: "'e \<Rightarrow> ('s, 'e, 'a) comp" where
  "io_fail e s = (Inl e, s)"

definition io_bind :: "('s, 'e, 'a) comp \<Rightarrow> ('a \<Rightarrow> ('s, 'e, 'b) comp) \<Rightarrow> ('s, 'e, 'b) comp" where
  "io_bind m f s = (case m s of (Inl e, s') \<Rightarrow> (Inl e, s') | (Inr x, s') \<Rightarrow> f x s')"

definition io_map_err :: "('e \<Rightarrow> 'f) \<Rightarrow> ('s, 'e, 'a) comp \<Rightarrow> ('s, 'f, 'a) comp" where
  "io_map_err h m s = (case m s of (Inl e, s') \<Rightarrow> (Inl (h e), s') | (Inr x, s') \<Rightarrow> (Inr x, s'))"

definition io_get :: "('s, 'e, 's) comp" where
  "io_get s = (Inr s, s)"

lemma io_bind_Inr [simp]: "m s = (Inr x, s') \<Longrightarrow> io_bind m f s = f x s'"
  by (simp add: io_bind_def)

lemma io_bind_Inl [simp]: "m s = (Inl e, s') \<Longrightarrow> io_bind m f s = (Inl e, s')"
  by (simp add: io_bind_def)

lemma io_basic [simp]: "io_return x s = (Inr x, s)" "io_fail e s = (Inl e, s)" "io_get s' = (Inr s', s')"
  by (simp_all add: io_return_def io_fail_def io_get_def)

text \<open>What holds of the result of a computation and of the state after it.\<close>

definition wp :: "('s, 'e, 'a) comp \<Rightarrow> ('e + 'a \<Rightarrow> 's \<Rightarrow> bool) \<Rightarrow> 's \<Rightarrow> bool" where
  "wp m Q s \<longleftrightarrow> (case m s of (r, s') \<Rightarrow> Q r s')"

lemma wp_bind [simp]:
  "wp (io_bind m f) Q s \<longleftrightarrow> wp m (\<lambda>r s'. case r of Inl e \<Rightarrow> Q (Inl e) s' | Inr x \<Rightarrow> wp (f x) Q s') s"
  by (auto simp: wp_def io_bind_def split: prod.splits sum.splits)

lemma wp_return [simp]: "wp (io_return x) Q s \<longleftrightarrow> Q (Inr x) s"
  by (simp add: wp_def)

lemma wp_get [simp]: "wp io_get Q s \<longleftrightarrow> Q (Inr s) s"
  by (simp add: wp_def)

section \<open>The stream\<close>

datatype IoError = UnexpectedEof | NotFound | OtherIo

record Device =
  dev_bytes :: "u8 list"
  dev_pos :: nat
  dev_budget :: "nat option"

type_synonym 'a io = "(Device, IoError, 'a) comp"

text \<open>Writing bytes at an offset: a gap before it is filled with zeros, what it covers is
  replaced, what lies behind stays.\<close>

definition overwrite :: "nat \<Rightarrow> u8 list \<Rightarrow> u8 list \<Rightarrow> u8 list" where
  "overwrite p bs xs = take p (xs @ replicate (p - length xs) 0) @ bs @ drop (p + length bs) xs"

definition store :: "u8 list \<Rightarrow> Device \<Rightarrow> Device" where
  "store bs d = d\<lparr>dev_bytes := overwrite (dev_pos d) bs (dev_bytes d), dev_pos := dev_pos d + length bs,
     dev_budget := map_option (\<lambda>k. k - length bs) (dev_budget d)\<rparr>"

definition write_all :: "u8 list \<Rightarrow> unit io" where
  "write_all bs d =
     (case dev_budget d of
        None \<Rightarrow> (Inr (), store bs d)
      | Some k \<Rightarrow> if length bs \<le> k then (Inr (), store bs d) else (Inl OtherIo, store (take k bs) d))"

definition read_exact :: "nat \<Rightarrow> u8 list io" where
  "read_exact n d =
     (if dev_pos d + n \<le> length (dev_bytes d)
      then (Inr (take n (drop (dev_pos d) (dev_bytes d))), d\<lparr>dev_pos := dev_pos d + n\<rparr>)
      else (Inl UnexpectedEof, d\<lparr>dev_pos := max (dev_pos d) (length (dev_bytes d))\<rparr>))"

definition stream_position :: "u64 io" where
  "stream_position d = (Inr (of_nat (dev_pos d)), d)"

definition seek_start :: "u64 \<Rightarrow> u64 io" where
  "seek_start n d = (if unat n < 2 ^ 63 then (Inr n, d\<lparr>dev_pos := unat n\<rparr>) else (Inl OtherIo, d))"

definition seek_end :: "u64 io" where
  "seek_end d = (Inr (of_nat (length (dev_bytes d))), d\<lparr>dev_pos := length (dev_bytes d)\<rparr>)"

definition seek_forward :: "nat \<Rightarrow> u64 io" where
  "seek_forward n d = (Inr (of_nat (dev_pos d + n)), d\<lparr>dev_pos := dev_pos d + n\<rparr>)"

section \<open>Facts\<close>

lemma overwrite_end [simp]: "p = length xs \<Longrightarrow> overwrite p bs xs = xs @ bs"
  by (simp add: overwrite_def)

lemma overwrite_inside:
  "length as = p \<Longrightarrow> length bs = length cs \<Longrightarrow> overwrite p bs (as @ cs @ ds) = as @ bs @ ds"
  by (simp add: overwrite_def)

lemma overwrite_Nil [simp]: "p \<le> length xs \<Longrightarrow> overwrite p [] xs = xs"
  by (simp add: overwrite_def)

lemma length_overwrite: "length (overwrite p bs xs) = max (length xs) (p + length bs)"
  by (auto simp: overwrite_def max_def)

lemma write_all_ok:
  "dev_budget d = None \<or> (\<exists>k. dev_budget d = Some k \<and> length bs \<le> k) \<Longrightarrow>
   write_all bs d = (Inr (), store bs d)"
  by (auto simp: write_all_def)

lemma write_all_cases:
  obtains "write_all bs d = (Inr (), store bs d)"
  | k where "write_all bs d = (Inl OtherIo, store (take k bs) d)" "k < length bs" "dev_budget d = Some k"
proof (cases "dev_budget d")
  case (Some k)
  with that show thesis by (cases "length bs \<le> k") (auto simp: write_all_def)
qed (use that in \<open>simp add: write_all_def\<close>)

lemma store_simps [simp]:
  "dev_bytes (store bs d) = overwrite (dev_pos d) bs (dev_bytes d)"
  "dev_pos (store bs d) = dev_pos d + length bs"
  "dev_budget (store bs d) = map_option (\<lambda>k. k - length bs) (dev_budget d)"
  by (simp_all add: store_def)

lemma read_exact_app:
  "dev_bytes d = as @ bs @ cs \<Longrightarrow> dev_pos d = length as \<Longrightarrow> n = length bs \<Longrightarrow>
   read_exact n d = (Inr bs, d\<lparr>dev_pos := dev_pos d + n\<rparr>)"
  by (simp add: read_exact_def)

text \<open>Appending at the end of the stream, whole or in part.\<close>

definition at_end :: "u8 list \<Rightarrow> Device \<Rightarrow> bool" where
  "at_end xs d \<longleftrightarrow> dev_bytes d = xs \<and> dev_pos d = length xs"

lemma write_all_append:
  assumes "at_end xs d"
  shows "case write_all bs d of
      (Inr _, d') \<Rightarrow> at_end (xs @ bs) d' \<and> (dev_budget d = None \<longrightarrow> dev_budget d' = None)
    | (Inl e, d') \<Rightarrow> e = OtherIo \<and> dev_budget d \<noteq> None \<and> (\<exists>k. dev_bytes d' = xs @ take k bs)"
  by (rule write_all_cases [of bs d]) (use assms in \<open>auto simp: at_end_def\<close>)

end
