(* ===== verification/Event_Format.thy ===== *)
theory Event_Format
  imports Device
begin

text \<open>
  The 40-byte event of the trace format (\<open>src/format/event.rs\<close>): the record, its
  little-endian serialization and the typed accessors. The event codec is an interpretation
  of the locale of exact codecs: every event survives the round trip, and so does every
  block of 40 bytes.
\<close>

section \<open>Operations\<close>

definition EVENT_SIZE :: nat where "EVENT_SIZE = 40"

definition FUTEX_WAIT :: u32 where "FUTEX_WAIT = 0"
definition FUTEX_LOCK_PI :: u32 where "FUTEX_LOCK_PI = 6"
definition FUTEX_WAIT_BITSET :: u32 where "FUTEX_WAIT_BITSET = 9"
definition FUTEX_WAIT_REQUEUE_PI :: u32 where "FUTEX_WAIT_REQUEUE_PI = 11"

datatype EventType = Switch | Wakeup | WakeupNew | Exit | FutexWaitEvent | IoIssue | IoComplete

text \<open>The discriminants of the Rust enum.\<close>

fun discriminant :: "EventType \<Rightarrow> u8" where
  "discriminant Switch = 1"
| "discriminant Wakeup = 2"
| "discriminant WakeupNew = 3"
| "discriminant Exit = 4"
| "discriminant FutexWaitEvent = 5"
| "discriminant IoIssue = 6"
| "discriminant IoComplete = 7"

definition EventType_from_u8 :: "u8 \<Rightarrow> EventType option" where
  "EventType_from_u8 v =
     (if v = 1 then Some Switch else if v = 2 then Some Wakeup else if v = 3 then Some WakeupNew
      else if v = 4 then Some Exit else if v = 5 then Some FutexWaitEvent else if v = 6 then Some IoIssue
      else if v = 7 then Some IoComplete else None)"

record WperfEvent =
  timestamp_ns :: u64
  pid :: u32
  tid :: u32
  prev_tid :: u32
  next_tid :: u32
  prev_pid :: u32
  next_pid :: u32
  cpu :: u16
  event_type :: u8
  prev_state :: u8
  flags :: u32

definition event_to_bytes :: "WperfEvent \<Rightarrow> u8 list" where
  "event_to_bytes e =
     to_le_bytes 8 (timestamp_ns e) @ to_le_bytes 4 (pid e) @ to_le_bytes 4 (tid e) @
     to_le_bytes 4 (prev_tid e) @ to_le_bytes 4 (next_tid e) @ to_le_bytes 4 (prev_pid e) @
     to_le_bytes 4 (next_pid e) @ to_le_bytes 2 (cpu e) @ [event_type e] @ [prev_state e] @
     to_le_bytes 4 (flags e)"

text \<open>The slice \<open>buf[a..b]\<close>.\<close>

definition subslice :: "nat \<Rightarrow> nat \<Rightarrow> 'a list \<Rightarrow> 'a list" where
  "subslice a b buf = take (b - a) (drop a buf)"

definition event_from_bytes :: "u8 list \<Rightarrow> WperfEvent" where
  "event_from_bytes buf =
     \<lparr>timestamp_ns = from_le_bytes (subslice 0 8 buf),
      pid = from_le_bytes (subslice 8 12 buf),
      tid = from_le_bytes (subslice 12 16 buf),
      prev_tid = from_le_bytes (subslice 16 20 buf),
      next_tid = from_le_bytes (subslice 20 24 buf),
      prev_pid = from_le_bytes (subslice 24 28 buf),
      next_pid = from_le_bytes (subslice 28 32 buf),
      cpu = from_le_bytes (subslice 32 34 buf),
      event_type = buf ! 34,
      prev_state = buf ! 35,
      flags = from_le_bytes (subslice 36 40 buf)\<rparr>"

definition event_write_to :: "WperfEvent \<Rightarrow> unit io" where
  "event_write_to e = write_all (event_to_bytes e)"

definition event_read_from :: "WperfEvent io" where
  "event_read_from = io_bind (read_exact EVENT_SIZE) (\<lambda>buf. io_return (event_from_bytes buf))"

definition event_type_enum :: "WperfEvent \<Rightarrow> EventType option" where
  "event_type_enum e = EventType_from_u8 (event_type e)"

definition futex_uaddr :: "WperfEvent \<Rightarrow> u64" where
  "futex_uaddr e = push_bit 32 (ucast (next_tid e)) OR ucast (prev_tid e)"

definition futex_op :: "WperfEvent \<Rightarrow> u32" where
  "futex_op e = flags e"

definition io_sector :: "WperfEvent \<Rightarrow> u64" where
  "io_sector e = push_bit 32 (ucast (next_tid e)) OR ucast (prev_tid e)"

definition io_dev :: "WperfEvent \<Rightarrow> u32" where
  "io_dev e = prev_pid e"

definition io_nr_sector :: "WperfEvent \<Rightarrow> u32" where
  "io_nr_sector e = next_pid e"

section \<open>The event codec\<close>

lemma discriminant_round_trip: "EventType_from_u8 v = Some t \<longleftrightarrow> v = discriminant t"
  by (cases t) (auto simp: EventType_from_u8_def)

lemma length_event_to_bytes [simp]: "length (event_to_bytes e) = 40"
  by (simp add: event_to_bytes_def)

lemma subslice_app_right: "length xs \<le> a \<Longrightarrow> subslice a b (xs @ ys) = subslice (a - length xs) (b - length xs) ys"
  by (simp add: subslice_def)

lemma subslice_here: "length xs = b \<Longrightarrow> subslice 0 b (xs @ ys) = xs"
  by (simp add: subslice_def)

lemma subslice_Cons: "0 < a \<Longrightarrow> subslice a b (x # xs) = subslice (a - 1) (b - 1) xs"
  by (cases a) (simp_all add: subslice_def)

lemma subslice_all: "length xs = b \<Longrightarrow> subslice 0 b xs = xs"
  by (simp add: subslice_def)

lemma event_from_to_bytes: "event_from_bytes (event_to_bytes e) = e"
  by (simp add: event_from_bytes_def event_to_bytes_def subslice_app_right subslice_here subslice_all subslice_Cons nth_append
      from_to_le_bytes)

text \<open>Forty bytes are the concatenation of the slices that the fields are read from.\<close>

lemma subslice_split: "a \<le> b \<Longrightarrow> b \<le> c \<Longrightarrow> subslice a c xs = subslice a b xs @ subslice b c xs"
proof -
  assume "a \<le> b" "b \<le> c"
  then have "take (c - a) (drop a xs) = take (b - a) (drop a xs) @ take (c - b) (drop (b - a) (drop a xs))"
    using take_add [of "b - a" "c - b" "drop a xs"] by simp
  with \<open>a \<le> b\<close> show ?thesis by (simp add: subslice_def)
qed

lemma subslice_one: "a < length xs \<Longrightarrow> subslice a (Suc a) xs = [xs ! a]"
  by (simp add: subslice_def take_Suc_conv_app_nth hd_drop_conv_nth take_Suc)

lemma subslice_length: "b \<le> length xs \<Longrightarrow> length (subslice a b xs) = b - a"
  by (simp add: subslice_def)

lemma event_to_from_bytes:
  assumes "length bs = 40"
  shows "event_to_bytes (event_from_bytes bs) = bs"
proof -
  have "bs = subslice 0 40 bs"
    using assms by (simp add: subslice_def)
  also have "\<dots> = subslice 0 8 bs @ subslice 8 12 bs @ subslice 12 16 bs @ subslice 16 20 bs @ subslice 20 24 bs @
      subslice 24 28 bs @ subslice 28 32 bs @ subslice 32 34 bs @ subslice 34 35 bs @ subslice 35 36 bs @ subslice 36 40 bs"
    by (subst subslice_split [of 0 8 40], simp, simp, subst subslice_split [of 8 12 40], simp, simp,
        subst subslice_split [of 12 16 40], simp, simp, subst subslice_split [of 16 20 40], simp, simp,
        subst subslice_split [of 20 24 40], simp, simp, subst subslice_split [of 24 28 40], simp, simp,
        subst subslice_split [of 28 32 40], simp, simp, subst subslice_split [of 32 34 40], simp, simp,
        subst subslice_split [of 34 35 40], simp, simp, subst subslice_split [of 35 36 40], simp, simp, rule refl)
  finally have split: "bs = \<dots>" .
  have "subslice 34 35 bs = [bs ! 34]" "subslice 35 36 bs = [bs ! 35]"
    using subslice_one [of 34 bs] subslice_one [of 35 bs] assms by simp_all
  moreover have "to_le_bytes 8 (from_le_bytes (subslice 0 8 bs) :: u64) = subslice 0 8 bs"
    using assms by (intro to_from_le_bytes_len) (simp_all add: subslice_length)
  moreover have "to_le_bytes 4 (from_le_bytes (subslice a b bs) :: u32) = subslice a b bs"
    if "b \<le> 40" "b - a = 4" for a b
    using that assms by (intro to_from_le_bytes_len) (simp_all add: subslice_length)
  moreover have "to_le_bytes 2 (from_le_bytes (subslice 32 34 bs) :: u16) = subslice 32 34 bs"
    using assms by (intro to_from_le_bytes_len) (simp_all add: subslice_length)
  ultimately have "event_to_bytes (event_from_bytes bs) = subslice 0 8 bs @ subslice 8 12 bs @ subslice 12 16 bs @
      subslice 16 20 bs @ subslice 20 24 bs @ subslice 24 28 bs @ subslice 28 32 bs @ subslice 32 34 bs @
      subslice 34 35 bs @ subslice 35 36 bs @ subslice 36 40 bs"
    by (simp add: event_to_bytes_def event_from_bytes_def)
  with split show ?thesis by simp
qed

interpretation event_codec: exact_codec event_to_bytes event_from_bytes 40
  by unfold_locales (simp_all add: event_from_to_bytes event_to_from_bytes)

section \<open>Properties\<close>

text \<open>The event codec is exact: every event survives serialization, every block
  of 40 bytes is the serialization of the event read from it, and reading from a stream
  that holds serialized events yields the first of them and leaves the rest.\<close>

theorem event_round_trip:
  "event_from_bytes (event_to_bytes e) = e \<and>
   (length bs = 40 \<longrightarrow> event_to_bytes (event_from_bytes bs) = bs) \<and>
   event_read_from \<lparr>dev_bytes = as @ event_to_bytes e @ cs, dev_pos = length as, dev_budget = b\<rparr> =
     (Inr e, \<lparr>dev_bytes = as @ event_to_bytes e @ cs, dev_pos = length as + 40, dev_budget = b\<rparr>)"
  by (simp add: event_from_to_bytes event_to_from_bytes event_read_from_def EVENT_SIZE_def io_bind_def
      read_exact_def)

lemma event_round_trip_witness:
  "event_to_bytes (event_from_bytes (replicate 40 7)) = replicate 40 7"
  using event_round_trip [of undefined "replicate 40 7" "[]" "[]" None] by simp

text \<open>The 64-bit values packed into two 32-bit fields (futex address, IO sector)
  are recovered without loss: the fields are their low and high halves.\<close>

theorem packed_fields:
  "futex_uaddr e = io_sector e \<and>
   ucast (io_sector e) = prev_tid e \<and> ucast (drop_bit 32 (io_sector e)) = next_tid e"
proof (intro conjI)
  show "futex_uaddr e = io_sector e"
    by (simp add: futex_uaddr_def io_sector_def)
  show "ucast (io_sector e) = prev_tid e"
    unfolding io_sector_def
    by (rule bit_word_eqI) (auto simp: bit_or_iff bit_push_bit_iff bit_unsigned_iff)
  show "ucast (drop_bit 32 (io_sector e)) = next_tid e"
    unfolding io_sector_def
    by (rule bit_word_eqI)
      (auto simp: bit_or_iff bit_push_bit_iff bit_unsigned_iff bit_drop_bit_eq dest: bit_imp_le_length)
qed

end
