(* ===== verification/Correlate.thy ===== *)
theory Correlate
  imports Wfg Event_Format
begin

text \<open>
  Event correlation (\<open>src/correlate.rs\<close>): the scheduler and block-IO events become edges of
  the Wait-For Graph. The state of the loop is a record of the graph, the four hash maps and
  the statistics; a handler maps it to the next state, or to \<open>None\<close> where a call panics. The
  order in which the pending edges are drained at the end is the argument \<open>drain\<close>, of which
  only \<open>drain_ok\<close> is known. The specification is one automaton per thread: what correlation
  keeps and emits for a thread is what the automaton of that thread does on the events.
\<close>

section \<open>Data\<close>

definition TASK_RUNNING :: u8 where "TASK_RUNNING = 0"
definition FUTEX_CORRELATION_WINDOW_NS :: u64 where "FUTEX_CORRELATION_WINDOW_NS = 1000000"
definition DEFAULT_SPURIOUS_THRESHOLD_NS :: u64 where "DEFAULT_SPURIOUS_THRESHOLD_NS = 50000"

record OffCpuRecord =
  switch_out_ns :: u64
  waker_tid :: "u32 option"
  oc_wait_type :: "WaitType option"

record PendingFutex =
  pf_timestamp_ns :: u64
  pf_wait_type :: WaitType

record PendingEdge =
  switch_in_ns :: u64
  pe_src :: ThreadId
  pe_dst :: ThreadId
  pe_window :: TimeWindow
  pe_wait_type :: "WaitType option"

record IoKey =
  ik_dev :: u32
  ik_sector :: u64
  ik_nr_sector :: u32

record PendingIo =
  submitter_tgid :: u32
  submitter_tid :: u32
  issue_ts_ns :: u64

record CorrelationStats =
  events_processed :: u64
  edges_created :: u64
  unmatched_wakeup_count :: u64
  unmatched_switch_in_count :: u64
  switch_in_without_waker_count :: u64
  false_wakeup_filtered_count :: u64
  unknown_event_type_count :: u64
  io_orphan_complete_count :: u64
  io_pending_at_end_count :: u64
  io_userspace_pair_collision_count :: u64

definition CorrelationStats_default :: CorrelationStats where
  "CorrelationStats_default =
     \<lparr>events_processed = 0, edges_created = 0, unmatched_wakeup_count = 0, unmatched_switch_in_count = 0,
      switch_in_without_waker_count = 0, false_wakeup_filtered_count = 0, unknown_event_type_count = 0,
      io_orphan_complete_count = 0, io_pending_at_end_count = 0, io_userspace_pair_collision_count = 0\<rparr>"

text \<open>The local variables of \<open>correlate_events\<close>.\<close>

record 'g Correlator =
  c_graph :: "'g WaitForGraph"
  off_cpu :: "(u32, OffCpuRecord) mapping"
  pending_futex :: "(u32, PendingFutex) mapping"
  pending_edges :: "(u32, PendingEdge) mapping"
  pending_io :: "(IoKey, PendingIo) mapping"
  stats :: CorrelationStats

section \<open>Operations\<close>

definition futex_op_to_wait_type :: "u32 \<Rightarrow> WaitType" where
  "futex_op_to_wait_type op =
     (if op = FUTEX_WAIT then FutexWait
      else if op = FUTEX_LOCK_PI then FutexLockPi
      else if op = FUTEX_WAIT_BITSET then FutexWaitBitset
      else if op = FUTEX_WAIT_REQUEUE_PI then FutexWaitRequeuePi
      else Unknown)"

definition IoKey_from_event :: "WperfEvent \<Rightarrow> IoKey" where
  "IoKey_from_event e = \<lparr>ik_dev = io_dev e, ik_sector = io_sector e, ik_nr_sector = io_nr_sector e\<rparr>"

text \<open>\<open>ThreadId(i64::from(tid))\<close> and a change of the statistics.\<close>

definition user_thread :: "u32 \<Rightarrow> ThreadId" where
  "user_thread t = ThreadId (uint t)"

definition upd_stats :: "(CorrelationStats \<Rightarrow> CorrelationStats) \<Rightarrow> 'g Correlator \<Rightarrow> 'g Correlator" where
  "upd_stats f s = s\<lparr>stats := f (stats s)\<rparr>"

definition add_edge_from_pending ::
    "'g wfg_api \<Rightarrow> PendingEdge \<Rightarrow> 'g Correlator \<Rightarrow> 'g Correlator option" where
  "add_edge_from_pending api pe s =
     (let g = fst (add_node api (c_graph s) (pe_src pe) UserThread);
          g = fst (add_node api g (pe_dst pe) UserThread)
      in do {
        (g, _) \<leftarrow> (case pe_wait_type pe of
            Some wt \<Rightarrow> add_edge_with_wait_type api g (pe_src pe) (pe_dst pe) (pe_window pe) wt
          | None \<Rightarrow> add_edge api g (pe_src pe) (pe_dst pe) (pe_window pe));
        Some (upd_stats (\<lambda>st. st\<lparr>edges_created := edges_created st + 1\<rparr>) (s\<lparr>c_graph := g\<rparr>))
      })"

definition commit_pending_edge :: "'g wfg_api \<Rightarrow> u32 \<Rightarrow> 'g Correlator \<Rightarrow> 'g Correlator option" where
  "commit_pending_edge api t s =
     (case Mapping.lookup (pending_edges s) t of
        Some pe \<Rightarrow> add_edge_from_pending api pe (s\<lparr>pending_edges := Mapping.delete t (pending_edges s)\<rparr>)
      | None \<Rightarrow> Some s)"

text \<open>The three parts of \<open>handle_switch\<close>: the spurious-wakeup check of the previous thread, its
  switch-out, and the switch-in of the next thread, which defers an edge.\<close>

definition resolve_pending :: "'g wfg_api \<Rightarrow> u64 \<Rightarrow> WperfEvent \<Rightarrow> 'g Correlator \<Rightarrow> 'g Correlator option" where
  "resolve_pending api spurious_threshold_ns e s =
     (if prev_tid e \<noteq> 0 then
        (case Mapping.lookup (pending_edges s) (prev_tid e) of
           Some pe \<Rightarrow>
             (let s = s\<lparr>pending_edges := Mapping.delete (prev_tid e) (pending_edges s)\<rparr>;
                  on_cpu_ns = saturating_sub (timestamp_ns e) (switch_in_ns pe)
              in if prev_state e \<noteq> TASK_RUNNING \<and> on_cpu_ns < spurious_threshold_ns
                 then Some (upd_stats
                   (\<lambda>st. st\<lparr>false_wakeup_filtered_count := false_wakeup_filtered_count st + 1\<rparr>) s)
                 else add_edge_from_pending api pe s)
         | None \<Rightarrow> Some s)
      else Some s)"

definition futex_wait_type :: "WperfEvent \<Rightarrow> PendingFutex option \<Rightarrow> WaitType option" where
  "futex_wait_type e pending =
     Option.bind pending (\<lambda>pf.
       if saturating_sub (timestamp_ns e) (pf_timestamp_ns pf) \<le> FUTEX_CORRELATION_WINDOW_NS
       then Some (pf_wait_type pf) else None)"

definition switch_out :: "WperfEvent \<Rightarrow> 'g Correlator \<Rightarrow> 'g Correlator" where
  "switch_out e s =
     (if prev_state e \<noteq> TASK_RUNNING \<and> prev_tid e \<noteq> 0 then
        (let wt = futex_wait_type e (Mapping.lookup (pending_futex s) (prev_tid e))
         in s\<lparr>pending_futex := Mapping.delete (prev_tid e) (pending_futex s),
              off_cpu := Mapping.update (prev_tid e)
                \<lparr>switch_out_ns = timestamp_ns e, waker_tid = None, oc_wait_type = wt\<rparr> (off_cpu s)\<rparr>)
      else s)"

definition deferred_edge :: "WperfEvent \<Rightarrow> OffCpuRecord \<Rightarrow> u32 \<Rightarrow> PendingEdge" where
  "deferred_edge e record waker =
     (let wait_duration_ns = saturating_sub (timestamp_ns e) (switch_out_ns record);
          start = switch_out_ns record div 1000000
      in \<lparr>switch_in_ns = timestamp_ns e, pe_src = user_thread (next_tid e), pe_dst = user_thread waker,
          pe_window = TimeWindow_new start (start + wait_duration_ns div 1000000),
          pe_wait_type = oc_wait_type record\<rparr>)"

definition switch_in :: "WperfEvent \<Rightarrow> 'g Correlator \<Rightarrow> 'g Correlator" where
  "switch_in e s =
     (if next_tid e = 0 then s
      else case Mapping.lookup (off_cpu s) (next_tid e) of
        Some record \<Rightarrow>
          (let s = s\<lparr>off_cpu := Mapping.delete (next_tid e) (off_cpu s)\<rparr>
           in case waker_tid record of
             Some waker \<Rightarrow>
               s\<lparr>pending_edges := Mapping.update (next_tid e) (deferred_edge e record waker) (pending_edges s)\<rparr>
           | None \<Rightarrow> upd_stats
               (\<lambda>st. st\<lparr>switch_in_without_waker_count := switch_in_without_waker_count st + 1\<rparr>) s)
      | None \<Rightarrow> upd_stats
          (\<lambda>st. st\<lparr>unmatched_switch_in_count := unmatched_switch_in_count st + 1\<rparr>) s)"

definition handle_switch :: "'g wfg_api \<Rightarrow> u64 \<Rightarrow> WperfEvent \<Rightarrow> 'g Correlator \<Rightarrow> 'g Correlator option" where
  "handle_switch api spurious_threshold_ns e s =
     map_option (\<lambda>s. switch_in e (switch_out e s)) (resolve_pending api spurious_threshold_ns e s)"

definition handle_futex_wait :: "WperfEvent \<Rightarrow> 'g Correlator \<Rightarrow> 'g Correlator" where
  "handle_futex_wait e s = s\<lparr>pending_futex := Mapping.update (tid e)
     \<lparr>pf_timestamp_ns = timestamp_ns e, pf_wait_type = futex_op_to_wait_type (futex_op e)\<rparr> (pending_futex s)\<rparr>"

definition handle_io_issue :: "WperfEvent \<Rightarrow> 'g Correlator \<Rightarrow> 'g Correlator" where
  "handle_io_issue e s =
     (let previous = Mapping.lookup (pending_io s) (IoKey_from_event e);
          s = s\<lparr>pending_io := Mapping.update (IoKey_from_event e)
            \<lparr>submitter_tgid = pid e, submitter_tid = tid e, issue_ts_ns = timestamp_ns e\<rparr> (pending_io s)\<rparr>
      in if previous \<noteq> None
         then upd_stats (\<lambda>st. st\<lparr>io_userspace_pair_collision_count := io_userspace_pair_collision_count st + 1\<rparr>) s
         else s)"

definition io_window :: "PendingIo \<Rightarrow> WperfEvent \<Rightarrow> TimeWindow" where
  "io_window pending e =
     (let issue_ms = issue_ts_ns pending div 1000000; complete_ms = timestamp_ns e div 1000000
      in TimeWindow_new issue_ms (max complete_ms issue_ms))"

definition handle_io_complete :: "'g wfg_api \<Rightarrow> WperfEvent \<Rightarrow> 'g Correlator \<Rightarrow> 'g Correlator option" where
  "handle_io_complete api e s =
     (case Mapping.lookup (pending_io s) (IoKey_from_event e) of
        None \<Rightarrow> Some (upd_stats (\<lambda>st. st\<lparr>io_orphan_complete_count := io_orphan_complete_count st + 1\<rparr>) s)
      | Some pending \<Rightarrow>
          (let s = s\<lparr>pending_io := Mapping.delete (IoKey_from_event e) (pending_io s)\<rparr>;
               w = io_window pending e;
               user = user_thread (submitter_tid pending); disk = ThreadId DISK_TID;
               g = fst (add_node api (c_graph s) user UserThread);
               g = fst (add_node api g disk PseudoDisk)
           in do {
             (g, _) \<leftarrow> add_edge_with_wait_type api g user disk w IoBlock;
             (g, _) \<leftarrow> add_synthetic_closure_return api g disk user w IoBlock;
             Some (upd_stats (\<lambda>st. st\<lparr>edges_created := edges_created st + 2\<rparr>) (s\<lparr>c_graph := g\<rparr>))
           }))"

definition handle_wakeup :: "WperfEvent \<Rightarrow> 'g Correlator \<Rightarrow> 'g Correlator" where
  "handle_wakeup e s =
     (let target = next_tid e; source = prev_tid e
      in if source = 0 then s
         else case Mapping.lookup (off_cpu s) target of
           Some record \<Rightarrow> s\<lparr>off_cpu := Mapping.update target (record\<lparr>waker_tid := Some source\<rparr>) (off_cpu s)\<rparr>
         | None \<Rightarrow> upd_stats (\<lambda>st. st\<lparr>unmatched_wakeup_count := unmatched_wakeup_count st + 1\<rparr>) s)"

text \<open>One iteration of the loop; the message on the first unknown event is not modelled.\<close>

definition correlate_event :: "'g wfg_api \<Rightarrow> u64 \<Rightarrow> WperfEvent \<Rightarrow> 'g Correlator \<Rightarrow> 'g Correlator option" where
  "correlate_event api spurious_threshold_ns e s =
     (let s = upd_stats (\<lambda>st. st\<lparr>events_processed := events_processed st + 1\<rparr>) s
      in case EventType_from_u8 (event_type e) of
        Some Switch \<Rightarrow> handle_switch api spurious_threshold_ns e s
      | Some Wakeup \<Rightarrow> Some (handle_wakeup e s)
      | Some WakeupNew \<Rightarrow> Some (handle_wakeup e s)
      | Some Exit \<Rightarrow>
          map_option (\<lambda>s. s\<lparr>off_cpu := Mapping.delete (tid e) (off_cpu s),
              pending_futex := Mapping.delete (tid e) (pending_futex s)\<rparr>)
            (commit_pending_edge api (tid e) s)
      | Some FutexWaitEvent \<Rightarrow> Some (handle_futex_wait e s)
      | Some IoIssue \<Rightarrow> Some (handle_io_issue e s)
      | Some IoComplete \<Rightarrow> handle_io_complete api e s
      | None \<Rightarrow> Some (upd_stats (\<lambda>st. st\<lparr>unknown_event_type_count := unknown_event_type_count st + 1\<rparr>) s))"

definition Correlator_init :: "'g wfg_api \<Rightarrow> 'g Correlator" where
  "Correlator_init api =
     \<lparr>c_graph = WaitForGraph_new api, off_cpu = Mapping.empty, pending_futex = Mapping.empty,
      pending_edges = Mapping.empty, pending_io = Mapping.empty, stats = CorrelationStats_default\<rparr>"

definition correlate_events ::
    "'g wfg_api \<Rightarrow> ((u32, PendingEdge) mapping \<Rightarrow> (u32 \<times> PendingEdge) list) \<Rightarrow> WperfEvent list \<Rightarrow> u64 \<Rightarrow>
     ('g WaitForGraph \<times> CorrelationStats) option" where
  "correlate_events api drain events spurious_threshold_ns = do {
     s \<leftarrow> foldM (correlate_event api spurious_threshold_ns) events (Correlator_init api);
     s \<leftarrow> foldM (\<lambda>(_, pe). add_edge_from_pending api pe) (drain (pending_edges s)) s;
     Some (c_graph s, (stats s)\<lparr>io_pending_at_end_count := of_nat (Mapping.size (pending_io s))\<rparr>)
   }"

text \<open>The same with the assertion at its head switched on, as in a build with debug assertions:
  the events have to be in order of time.\<close>

definition correlate_events_asserted ::
    "'g wfg_api \<Rightarrow> ((u32, PendingEdge) mapping \<Rightarrow> (u32 \<times> PendingEdge) list) \<Rightarrow> WperfEvent list \<Rightarrow> u64 \<Rightarrow>
     ('g WaitForGraph \<times> CorrelationStats) option" where
  "correlate_events_asserted api drain events spurious_threshold_ns =
     (if list_all (\<lambda>(a, b). timestamp_ns a \<le> timestamp_ns b) (zip events (tl events))
      then correlate_events api drain events spurious_threshold_ns else None)"

section \<open>The automaton of a thread\<close>

text \<open>What is kept for one thread, and the edges emitted for it so far.\<close>

definition pe_edge :: "PendingEdge \<Rightarrow> ThreadId \<times> ThreadId \<times> EdgeWeight" where
  "pe_edge pe = (pe_src pe, pe_dst pe,
     case pe_wait_type pe of Some wt \<Rightarrow> with_wait_type (pe_window pe) wt | None \<Rightarrow> EdgeWeight_new (pe_window pe))"

record ThreadView =
  tv_off :: "OffCpuRecord option"
  tv_futex :: "PendingFutex option"
  tv_edge :: "PendingEdge option"
  tv_out :: "(ThreadId \<times> ThreadId \<times> EdgeWeight) list"

definition tv_init :: ThreadView where
  "tv_init = \<lparr>tv_off = None, tv_futex = None, tv_edge = None, tv_out = []\<rparr>"

definition tv_commit :: "ThreadView \<Rightarrow> ThreadView" where
  "tv_commit v = (case tv_edge v of None \<Rightarrow> v | Some pe \<Rightarrow> v\<lparr>tv_edge := None, tv_out := tv_out v @ [pe_edge pe]\<rparr>)"

definition spurious :: "u64 \<Rightarrow> WperfEvent \<Rightarrow> PendingEdge \<Rightarrow> bool" where
  "spurious thr e pe \<longleftrightarrow> prev_state e \<noteq> TASK_RUNNING \<and> saturating_sub (timestamp_ns e) (switch_in_ns pe) < thr"

definition tv_switch_out :: "u64 \<Rightarrow> WperfEvent \<Rightarrow> ThreadView \<Rightarrow> ThreadView" where
  "tv_switch_out thr e v =
     (let v = (case tv_edge v of
          Some pe \<Rightarrow> if spurious thr e pe then v\<lparr>tv_edge := None\<rparr> else tv_commit v
        | None \<Rightarrow> v)
      in if prev_state e = TASK_RUNNING then v
         else v\<lparr>tv_futex := None, tv_off := Some \<lparr>switch_out_ns = timestamp_ns e, waker_tid = None,
                  oc_wait_type = futex_wait_type e (tv_futex v)\<rparr>\<rparr>)"

definition tv_switch_in :: "WperfEvent \<Rightarrow> ThreadView \<Rightarrow> ThreadView" where
  "tv_switch_in e v =
     (case tv_off v of
        None \<Rightarrow> v
      | Some r \<Rightarrow> v\<lparr>tv_off := None,
          tv_edge := (case waker_tid r of None \<Rightarrow> tv_edge v | Some w \<Rightarrow> Some (deferred_edge e r w))\<rparr>)"

text \<open>The step of thread \<open>t\<close>: a switch is its switch-out, its switch-in, both or neither.\<close>

definition thread_step :: "u64 \<Rightarrow> u32 \<Rightarrow> WperfEvent \<Rightarrow> ThreadView \<Rightarrow> ThreadView" where
  "thread_step thr t e v =
     (case EventType_from_u8 (event_type e) of
        Some Switch \<Rightarrow>
          (let v = (if prev_tid e = t \<and> t \<noteq> 0 then tv_switch_out thr e v else v)
           in if next_tid e = t \<and> t \<noteq> 0 then tv_switch_in e v else v)
      | Some Exit \<Rightarrow> if tid e = t then (tv_commit v)\<lparr>tv_off := None, tv_futex := None\<rparr> else v
      | Some FutexWaitEvent \<Rightarrow>
          if tid e = t
          then v\<lparr>tv_futex := Some \<lparr>pf_timestamp_ns = timestamp_ns e, pf_wait_type = futex_op_to_wait_type (futex_op e)\<rparr>\<rparr>
          else v
      | Some IoIssue \<Rightarrow> v
      | Some IoComplete \<Rightarrow> v
      | Some _ \<Rightarrow>
          if next_tid e = t \<and> prev_tid e \<noteq> 0
          then v\<lparr>tv_off := map_option (\<lambda>r. r\<lparr>waker_tid := Some (prev_tid e)\<rparr>) (tv_off v)\<rparr> else v
      | None \<Rightarrow> v)"

definition thread_run :: "u64 \<Rightarrow> u32 \<Rightarrow> WperfEvent list \<Rightarrow> ThreadView" where
  "thread_run thr t es = foldl (\<lambda>v e. thread_step thr t e v) tv_init es"

text \<open>The edges of thread \<open>t\<close>: those emitted, and at the end of the trace the pending one.\<close>

definition thread_edges :: "u64 \<Rightarrow> u32 \<Rightarrow> WperfEvent list \<Rightarrow> (ThreadId \<times> ThreadId \<times> EdgeWeight) list" where
  "thread_edges thr t es = tv_out (tv_commit (thread_run thr t es))"

lemma thread_run_simps [simp]:
  "thread_run thr t [] = tv_init"
  "thread_run thr t (es @ [e]) = thread_step thr t e (thread_run thr t es)"
  by (simp_all add: thread_run_def)

text \<open>Invariant of the automaton: a thread that is off the CPU has no pending edge, and a
  pending edge is from the thread, to a user thread, with a well-formed window and not an
  IO edge.\<close>

definition tv_ok :: "u32 \<Rightarrow> ThreadView \<Rightarrow> bool" where
  "tv_ok t v \<longleftrightarrow>
     (tv_off v = None \<or> tv_edge v = None) \<and>
     (\<forall>r. tv_off v = Some r \<longrightarrow> oc_wait_type r \<noteq> Some IoBlock) \<and>
     (\<forall>f. tv_futex v = Some f \<longrightarrow> pf_wait_type f \<noteq> IoBlock) \<and>
     (\<forall>pe. tv_edge v = Some pe \<longrightarrow> pe_src pe = user_thread t \<and> (\<exists>w. pe_dst pe = user_thread w) \<and>
        pe_wait_type pe \<noteq> Some IoBlock \<and> window_ok (pe_window pe))"

lemma futex_op_not_io: "futex_op_to_wait_type op \<noteq> IoBlock"
  by (simp add: futex_op_to_wait_type_def)

lemma futex_wait_type_not_io:
  "(\<And>f. p = Some f \<Longrightarrow> pf_wait_type f \<noteq> IoBlock) \<Longrightarrow> futex_wait_type e p \<noteq> Some IoBlock"
  by (cases p) (auto simp: futex_wait_type_def split: if_splits)

lemma ms_window_ok: "(a :: u64) div 1000000 \<le> a div 1000000 + b div 1000000"
proof -
  have small: "unat (x div 1000000) < 2 ^ 63" for x :: u64
    using unat_u64_less [of x] by (simp add: unat_div_distrib)
  have "unat (a div 1000000 + b div 1000000) = unat (a div 1000000) + unat (b div 1000000)"
    using small [of a] small [of b] by (intro unat_plus_no_wrap) simp
  then show ?thesis by (simp add: word_le_nat_alt)
qed

lemma deferred_edge_ok:
  "pe_src (deferred_edge e r w) = user_thread (next_tid e)"
  "pe_dst (deferred_edge e r w) = user_thread w"
  "pe_wait_type (deferred_edge e r w) = oc_wait_type r"
  "window_ok (pe_window (deferred_edge e r w))"
  by (simp_all add: deferred_edge_def Let_def ms_window_ok)

lemma tv_commit_simps [simp]:
  "tv_off (tv_commit v) = tv_off v" "tv_futex (tv_commit v) = tv_futex v" "tv_edge (tv_commit v) = None"
  by (simp_all add: tv_commit_def split: option.splits)

lemma tv_ok_switch_out: "tv_ok t v \<Longrightarrow> tv_ok t (tv_switch_out thr e v) \<and> tv_edge (tv_switch_out thr e v) = None"
  using futex_wait_type_not_io [of "tv_futex v" e]
  by (auto simp: tv_ok_def tv_switch_out_def Let_def split: option.splits)

lemma tv_ok_switch_in: "tv_ok t v \<Longrightarrow> next_tid e = t \<Longrightarrow> tv_ok t (tv_switch_in e v)"
  by (auto simp: tv_ok_def tv_switch_in_def deferred_edge_ok split: option.splits)

lemma thread_step_switch:
  "EventType_from_u8 (event_type e) = Some Switch \<Longrightarrow> thread_step thr t e v =
    (let v = (if prev_tid e = t \<and> t \<noteq> 0 then tv_switch_out thr e v else v)
     in if next_tid e = t \<and> t \<noteq> 0 then tv_switch_in e v else v)"
  by (simp add: thread_step_def)

lemma tv_ok_step:
  assumes "tv_ok t v"
  shows "tv_ok t (thread_step thr t e v)"
proof (cases "EventType_from_u8 (event_type e) = Some Switch")
  case True
  have "tv_ok t (if prev_tid e = t \<and> t \<noteq> 0 then tv_switch_out thr e v else v)"
    using assms tv_ok_switch_out by simp
  then show ?thesis
    by (auto simp: thread_step_switch [OF True] Let_def intro: tv_ok_switch_in split: if_splits)
next
  case False
  have "tv_ok t (v\<lparr>tv_off := map_option (\<lambda>r. r\<lparr>waker_tid := w\<rparr>) (tv_off v)\<rparr>)" for w
    using assms by (cases "tv_off v") (simp_all add: tv_ok_def)
  moreover have "tv_ok t ((tv_commit v)\<lparr>tv_off := None, tv_futex := None\<rparr>)"
    by (simp add: tv_ok_def)
  moreover have "tv_ok t (v\<lparr>tv_futex := Some \<lparr>pf_timestamp_ns = n, pf_wait_type = futex_op_to_wait_type op\<rparr>\<rparr>)" for n op
    using assms futex_op_not_io by (simp add: tv_ok_def)
  ultimately show ?thesis
    using assms False by (simp add: thread_step_def split: option.split EventType.split)
qed

lemma tv_ok_run: "tv_ok t (thread_run thr t es)"
  by (induction es rule: rev_induct) (auto simp: tv_ok_step, simp add: tv_ok_def tv_init_def)

section \<open>The loop against the automata\<close>

lemma user_thread_eq [simp]: "user_thread a = user_thread b \<longleftrightarrow> a = b"
  using word_uint_eq_iff [of a b] by (auto simp: user_thread_def)

lemma user_thread_not_disk [simp]: "user_thread a \<noteq> ThreadId DISK_TID" "ThreadId DISK_TID \<noteq> user_thread a"
proof -
  have "0 \<le> uint a" by (rule unsigned_greater_eq)
  then have "uint a \<noteq> - 5" by linarith
  then show "user_thread a \<noteq> ThreadId DISK_TID" "ThreadId DISK_TID \<noteq> user_thread a"
    by (auto simp: user_thread_def DISK_TID_def)
qed

definition emitted :: "u32 \<Rightarrow> (ThreadId \<times> ThreadId \<times> EdgeWeight) list \<Rightarrow> (ThreadId \<times> ThreadId \<times> EdgeWeight) list" where
  "emitted t E = filter (\<lambda>(s, d, ew). s = user_thread t \<and> wait_type ew \<noteq> Some IoBlock) E"

lemma emitted_append [simp]: "emitted t (E @ F) = emitted t E @ emitted t F"
  by (simp add: emitted_def)

lemma pe_edge_simps [simp]:
  "fst (pe_edge pe) = pe_src pe" "fst (snd (pe_edge pe)) = pe_dst pe"
  "wait_type (snd (snd (pe_edge pe))) = pe_wait_type pe" "edge_kind (snd (snd (pe_edge pe))) = Normal"
  "time_window (snd (snd (pe_edge pe))) = pe_window pe"
  "raw_wait_ms (snd (snd (pe_edge pe))) = duration (pe_window pe)"
  "attributed_delay_ms (snd (snd (pe_edge pe))) = duration (pe_window pe)"
  by (simp_all add: pe_edge_def split: option.splits)

lemma emitted_pe_edge:
  "emitted t [pe_edge pe] = (if pe_src pe = user_thread t \<and> pe_wait_type pe \<noteq> Some IoBlock then [pe_edge pe] else [])"
  by (simp add: emitted_def split_beta)

definition view_of :: "'g wfg_api \<Rightarrow> 'g Correlator \<Rightarrow> u32 \<Rightarrow> ThreadView" where
  "view_of api s t = \<lparr>tv_off = Mapping.lookup (off_cpu s) t, tv_futex = Mapping.lookup (pending_futex s) t,
     tv_edge = Mapping.lookup (pending_edges s) t, tv_out = emitted t (wfg_edges api (c_graph s))\<rparr>"

text \<open>What is known of every edge and of every node in the graph.\<close>

definition edge_shape :: "ThreadId \<times> ThreadId \<times> EdgeWeight \<Rightarrow> bool" where
  "edge_shape = (\<lambda>(s, d, ew). edge_ok ew \<and> attributed_delay_ms ew = raw_wait_ms ew \<and>
     (if s = ThreadId DISK_TID
      then (\<exists>t. d = user_thread t) \<and> edge_kind ew = SyntheticClosureReturn \<and> wait_type ew = Some IoBlock
      else (\<exists>t. s = user_thread t) \<and> edge_kind ew = Normal \<and>
        (if d = ThreadId DISK_TID then wait_type ew = Some IoBlock
         else (\<exists>t. d = user_thread t) \<and> wait_type ew \<noteq> Some IoBlock)))"

definition kinds_ok :: "'g wfg_api \<Rightarrow> 'g WaitForGraph \<Rightarrow> bool" where
  "kinds_ok api g \<longleftrightarrow> (\<forall>t k. wfg_kind api g t = Some k \<longrightarrow>
     (if t = ThreadId DISK_TID then k = PseudoDisk else k = UserThread \<and> (\<exists>n. t = user_thread n)))"

definition graph_ok :: "'g wfg_api \<Rightarrow> 'g WaitForGraph \<Rightarrow> bool" where
  "graph_ok api g \<longleftrightarrow> wfg_inv api g \<and> kinds_ok api g \<and> list_all edge_shape (wfg_edges api g)"

context wfg_graph
begin

lemma add_node_graph_ok:
  assumes "graph_ok api g" "(t = ThreadId DISK_TID \<and> k = PseudoDisk) \<or> (\<exists>n. t = user_thread n) \<and> k = UserThread"
  shows "graph_ok api (fst (add_node api g t k))" "wfg_edges api (fst (add_node api g t k)) = wfg_edges api g"
    "wfg_threads (fst (add_node api g t k)) = insert t (wfg_threads g)"
proof -
  have inv: "wfg_inv api g"
    using assms(1) by (simp add: graph_ok_def)
  show edges: "wfg_edges api (fst (add_node api g t k)) = wfg_edges api g"
    by (rule add_node_edges_same [OF inv])
  show "wfg_threads (fst (add_node api g t k)) = insert t (wfg_threads g)"
    by (rule add_node_threads)
  have "kinds_ok api (fst (add_node api g t k))"
    using assms by (auto simp: graph_ok_def kinds_ok_def add_node_kind [OF inv] split: option.splits if_splits)
  then show "graph_ok api (fst (add_node api g t k))"
    using assms(1) add_node_inv [OF inv] edges by (simp add: graph_ok_def)
qed

lemma insert_graph_ok:
  assumes "graph_ok api g" "s \<in> wfg_threads g" "d \<in> wfg_threads g" "edge_shape (s, d, ew)"
  obtains g' n where "insert_edge api g s d ew = Some (g', n)" "graph_ok api g'"
    "wfg_edges api g' = wfg_edges api g @ [(s, d, ew)]" "wfg_threads g' = wfg_threads g"
proof -
  have inv: "wfg_inv api g"
    using assms(1) by (simp add: graph_ok_def)
  obtain g' where g': "insert_edge api g s d ew = Some (g', length (wfg_edges api g))" "wfg_inv api g'"
    "wfg_edges api g' = wfg_edges api g @ [(s, d, ew)]" "node_map g' = node_map g" "wfg_kind api g' = wfg_kind api g"
    by (rule insert_edge_ok [OF inv assms(2,3)])
  show thesis
    by (rule that [OF g'(1) _ g'(3)])
      (use g' assms(1,4) in \<open>simp_all add: graph_ok_def kinds_ok_def wfg_threads_def\<close>)
qed

lemma add_edge_from_pending_ok:
  assumes "graph_ok api (c_graph s)" "pe_src pe = user_thread a" "pe_dst pe = user_thread b"
    "window_ok (pe_window pe)" "pe_wait_type pe \<noteq> Some IoBlock"
  shows "\<exists>g. add_edge_from_pending api pe s =
      Some (upd_stats (\<lambda>st. st\<lparr>edges_created := edges_created st + 1\<rparr>) (s\<lparr>c_graph := g\<rparr>)) \<and>
    graph_ok api g \<and> wfg_edges api g = wfg_edges api (c_graph s) @ [pe_edge pe] \<and>
    wfg_threads g = insert (pe_src pe) (insert (pe_dst pe) (wfg_threads (c_graph s)))"
proof -
  let ?g1 = "fst (add_node api (c_graph s) (pe_src pe) UserThread)"
  let ?g2 = "fst (add_node api ?g1 (pe_dst pe) UserThread)"
  have g1: "graph_ok api ?g1" "wfg_edges api ?g1 = wfg_edges api (c_graph s)" "wfg_threads ?g1 = insert (pe_src pe) (wfg_threads (c_graph s))"
    using add_node_graph_ok [OF assms(1), of "pe_src pe" UserThread] assms(2) by auto
  have g2: "graph_ok api ?g2" "wfg_edges api ?g2 = wfg_edges api (c_graph s)"
    "pe_src pe \<in> wfg_threads ?g2" "pe_dst pe \<in> wfg_threads ?g2"
    "wfg_threads ?g2 = insert (pe_src pe) (insert (pe_dst pe) (wfg_threads (c_graph s)))"
    using add_node_graph_ok [OF g1(1), of "pe_dst pe" UserThread] g1 assms(3) by auto
  have "edge_shape (pe_edge pe)"
    using assms by (simp add: edge_shape_def split_beta edge_ok_def)
  then have shape: "edge_shape (pe_src pe, pe_dst pe, snd (snd (pe_edge pe)))"
    by (metis pe_edge_simps(1,2) prod.collapse)
  obtain g n where g: "insert_edge api ?g2 (pe_src pe) (pe_dst pe) (snd (snd (pe_edge pe))) = Some (g, n)"
    "graph_ok api g" "wfg_edges api g = wfg_edges api ?g2 @ [(pe_src pe, pe_dst pe, snd (snd (pe_edge pe)))]"
    "wfg_threads g = wfg_threads ?g2"
    using insert_graph_ok [OF g2(1,3,4) shape] by metis
  have "(pe_src pe, pe_dst pe, snd (snd (pe_edge pe))) = pe_edge pe"
    by (metis pe_edge_simps(1,2) prod.collapse)
  moreover have "(case pe_wait_type pe of
        Some wt \<Rightarrow> add_edge_with_wait_type api ?g2 (pe_src pe) (pe_dst pe) (pe_window pe) wt
      | None \<Rightarrow> add_edge api ?g2 (pe_src pe) (pe_dst pe) (pe_window pe)) = Some (g, n)"
    using g(1) by (simp add: add_edge_with_wait_type_def add_edge_def pe_edge_def split: option.splits)
  ultimately show ?thesis
    using g(2-4) g2(2,5) by (intro exI [of _ g]) (simp add: add_edge_from_pending_def Let_def)
qed

end

text \<open>The books: every counter is compared with what it counts. A switch-in ends as a deferred
  edge or in one of two counters, a deferred edge ends in the graph, filtered or pending; an
  IO completion either adds two edges or is an orphan; an issue ends completed, overwritten or
  pending.\<close>

record Books =
  b_events :: u64
  b_edges :: u64
  b_unknown :: u64
  b_switch_in :: u64
  b_io :: u64

definition books :: "'g wfg_api \<Rightarrow> 'g Correlator \<Rightarrow> Books" where
  "books api s = \<lparr>
     b_events = events_processed (stats s),
     b_edges = edges_created (stats s) - of_nat (length (wfg_edges api (c_graph s))),
     b_unknown = unknown_event_type_count (stats s),
     b_switch_in = edges_created (stats s) + false_wakeup_filtered_count (stats s) +
       switch_in_without_waker_count (stats s) + unmatched_switch_in_count (stats s) +
       of_nat (Mapping.size (pending_edges s)) + 2 * io_orphan_complete_count (stats s),
     b_io = io_userspace_pair_collision_count (stats s) + of_nat (Mapping.size (pending_io s)) -
       io_orphan_complete_count (stats s)\<rparr>"

definition is_type :: "EventType option \<Rightarrow> WperfEvent \<Rightarrow> bool" where
  "is_type ty e \<longleftrightarrow> EventType_from_u8 (event_type e) = ty"

definition switches_in :: "WperfEvent \<Rightarrow> bool" where
  "switches_in e \<longleftrightarrow> is_type (Some Switch) e \<and> next_tid e \<noteq> 0"

definition book :: "WperfEvent \<Rightarrow> Books \<Rightarrow> Books" where
  "book e b = b\<lparr>b_events := b_events b + 1,
     b_unknown := b_unknown b + of_bool (is_type None e),
     b_switch_in := b_switch_in b + of_bool (switches_in e) + 2 * of_bool (is_type (Some IoComplete) e),
     b_io := b_io b + of_bool (is_type (Some IoIssue) e) - of_bool (is_type (Some IoComplete) e)\<rparr>"

definition books_of :: "WperfEvent list \<Rightarrow> Books" where
  "books_of es = foldl (\<lambda>b e. book e b)
     \<lparr>b_events = 0, b_edges = 0, b_unknown = 0, b_switch_in = 0, b_io = 0\<rparr> es"

definition ready :: "'g wfg_api \<Rightarrow> 'g Correlator \<Rightarrow> bool" where
  "ready api s \<longleftrightarrow> graph_ok api (c_graph s) \<and> finite (Mapping.keys (pending_edges s)) \<and>
     finite (Mapping.keys (pending_io s)) \<and> (\<forall>t. tv_ok t (view_of api s t))"

text \<open>What a step does: to the views of all threads, to the books, to the filter count.\<close>

definition advances ::
    "'g wfg_api \<Rightarrow> u64 \<Rightarrow> (u32 \<Rightarrow> ThreadView \<Rightarrow> ThreadView) \<Rightarrow> (Books \<Rightarrow> Books) \<Rightarrow> 'g Correlator \<Rightarrow> 'g Correlator \<Rightarrow> bool" where
  "advances api thr f b s s' \<longleftrightarrow> graph_ok api (c_graph s') \<and> finite (Mapping.keys (pending_edges s')) \<and>
     finite (Mapping.keys (pending_io s')) \<and> (\<forall>t. view_of api s' t = f t (view_of api s t)) \<and>
     books api s' = b (books api s) \<and>
     (thr = 0 \<longrightarrow> false_wakeup_filtered_count (stats s') = false_wakeup_filtered_count (stats s))"

lemma upd_stats_simps [simp]:
  "c_graph (upd_stats f s) = c_graph s" "off_cpu (upd_stats f s) = off_cpu s"
  "pending_futex (upd_stats f s) = pending_futex s" "pending_edges (upd_stats f s) = pending_edges s"
  "pending_io (upd_stats f s) = pending_io s" "stats (upd_stats f s) = f (stats s)"
  "view_of api (upd_stats f s) t = view_of api s t"
  by (simp_all add: upd_stats_def view_of_def)

lemma readyD:
  assumes "ready api s"
  shows "graph_ok api (c_graph s)" "finite (Mapping.keys (pending_edges s))" "finite (Mapping.keys (pending_io s))"
    "\<And>t pe. Mapping.lookup (pending_edges s) t = Some pe \<Longrightarrow> pe_src pe = user_thread t \<and>
      (\<exists>w. pe_dst pe = user_thread w) \<and> pe_wait_type pe \<noteq> Some IoBlock \<and> window_ok (pe_window pe)"
    "\<And>t r. Mapping.lookup (off_cpu s) t = Some r \<Longrightarrow> Mapping.lookup (pending_edges s) t = None"
proof -
  show "graph_ok api (c_graph s)" "finite (Mapping.keys (pending_edges s))" "finite (Mapping.keys (pending_io s))"
    "\<And>t pe. Mapping.lookup (pending_edges s) t = Some pe \<Longrightarrow> pe_src pe = user_thread t \<and>
      (\<exists>w. pe_dst pe = user_thread w) \<and> pe_wait_type pe \<noteq> Some IoBlock \<and> window_ok (pe_window pe)"
    using assms by (auto simp: ready_def tv_ok_def view_of_def)
  show "Mapping.lookup (pending_edges s) t = None" if "Mapping.lookup (off_cpu s) t = Some r" for t r
  proof -
    have "tv_ok t (view_of api s t)"
      using assms by (simp add: ready_def)
    with that show ?thesis by (simp add: tv_ok_def view_of_def)
  qed
qed

lemma ready_upd_stats [simp]: "ready api (upd_stats f s) = ready api s"
  by (simp add: ready_def)

context wfg_graph
begin

text \<open>Committing the pending edge of a thread.\<close>

lemma commit_ok:
  assumes "ready api s" "Mapping.lookup (pending_edges s) t = Some pe"
  shows "\<exists>s'. add_edge_from_pending api pe (s\<lparr>pending_edges := Mapping.delete t (pending_edges s)\<rparr>) = Some s' \<and>
    advances api thr (\<lambda>u v. if u = t then tv_commit v else v) id s s'"
proof -
  let ?s = "s\<lparr>pending_edges := Mapping.delete t (pending_edges s)\<rparr>"
  note r = readyD [OF assms(1)]
  obtain b where pe: "pe_src pe = user_thread t" "pe_dst pe = user_thread b" "pe_wait_type pe \<noteq> Some IoBlock"
    "window_ok (pe_window pe)"
    using r(4) [OF assms(2)] by blast
  have "graph_ok api (c_graph ?s)"
    using r(1) by simp
  from add_edge_from_pending_ok [OF this pe(1,2,4,3)] obtain g where g:
    "add_edge_from_pending api pe ?s =
      Some (upd_stats (\<lambda>st. st\<lparr>edges_created := edges_created st + 1\<rparr>) (?s\<lparr>c_graph := g\<rparr>))"
    "graph_ok api g" "wfg_edges api g = wfg_edges api (c_graph s) @ [pe_edge pe]"
    by auto
  have size: "Mapping.size (pending_edges s) = Suc (Mapping.size (Mapping.delete t (pending_edges s)))"
    using size_delete_present [OF r(2) assms(2)] .
  show ?thesis
    using g r pe size assms(2)
    by (intro exI [of _ "upd_stats (\<lambda>st. st\<lparr>edges_created := edges_created st + 1\<rparr>) (?s\<lparr>c_graph := g\<rparr>)"])
      (auto simp: advances_def view_of_def emitted_pe_edge tv_commit_def books_def lookup_delete_if algebra_simps)
qed

lemma resolve_ok:
  assumes "ready api s" 
  shows "\<exists>s'. resolve_pending api thr e s = Some s' \<and>
    advances api thr (\<lambda>u v. if u = prev_tid e \<and> u \<noteq> 0 then
      (case tv_edge v of Some pe \<Rightarrow> if spurious thr e pe then v\<lparr>tv_edge := None\<rparr> else tv_commit v | None \<Rightarrow> v) else v) id s s'"
proof (cases "prev_tid e = 0 \<or> Mapping.lookup (pending_edges s) (prev_tid e) = None")
  case True
  then have "resolve_pending api thr e s = Some s"
    by (auto simp: resolve_pending_def)
  then show ?thesis
    using readyD [OF assms] True by (auto simp: advances_def view_of_def split: option.splits)
next
  case False
  then obtain pe where pe: "prev_tid e \<noteq> 0" "Mapping.lookup (pending_edges s) (prev_tid e) = Some pe"
    by auto
  show ?thesis
  proof (cases "spurious thr e pe")
    case True
    then show ?thesis
      using pe readyD [OF assms] size_delete_present [OF readyD(2) [OF assms] pe(2)]
      by (auto simp: resolve_pending_def spurious_def advances_def view_of_def books_def lookup_delete_if Let_def
          upd_stats_def algebra_simps split: option.splits)
  next
    case False
    then have "resolve_pending api thr e s =
        add_edge_from_pending api pe (s\<lparr>pending_edges := Mapping.delete (prev_tid e) (pending_edges s)\<rparr>)"
      using pe by (auto simp: resolve_pending_def spurious_def Let_def)
    moreover have "tv_edge (view_of api s (prev_tid e)) = Some pe"
      using pe(2) by (simp add: view_of_def)
    ultimately show ?thesis
      using commit_ok [OF assms pe(2), of thr] False pe(1) by (auto simp: advances_def)
  qed
qed

lemma ready_advances:
  "advances api thr f b s s' \<Longrightarrow> ready api s \<Longrightarrow> (\<And>t v. tv_ok t v \<Longrightarrow> tv_ok t (f t v)) \<Longrightarrow> ready api s'"
  by (simp add: advances_def ready_def)

lemma advances_trans:
  "advances api thr f b s s' \<Longrightarrow> advances api thr f' b' s' s'' \<Longrightarrow> advances api thr (\<lambda>t v. f' t (f t v)) (\<lambda>x. b' (b x)) s s''"
  by (simp add: advances_def)

lemma switch_out_ok:
  assumes "ready api s"
  shows "advances api thr (\<lambda>u v. if u = prev_tid e \<and> u \<noteq> 0 \<and> prev_state e \<noteq> TASK_RUNNING
      then v\<lparr>tv_futex := None, tv_off := Some \<lparr>switch_out_ns = timestamp_ns e, waker_tid = None,
        oc_wait_type = futex_wait_type e (tv_futex v)\<rparr>\<rparr> else v) id s (switch_out e s)"
  using readyD(1-3) [OF assms]
  by (auto simp: advances_def switch_out_def view_of_def books_def Let_def lookup_update' lookup_delete_if)

lemma switch_in_ok:
  assumes "ready api s"
  shows "advances api thr (\<lambda>u v. if u = next_tid e \<and> u \<noteq> 0 then tv_switch_in e v else v)
    (\<lambda>b. b\<lparr>b_switch_in := b_switch_in b + of_bool (next_tid e \<noteq> 0)\<rparr>) s (switch_in e s)"
proof (cases "next_tid e = 0")
  case True
  then show ?thesis
    using readyD(1-3) [OF assms] by (auto simp: advances_def switch_in_def view_of_def)
next
  case False
  show ?thesis
  proof (cases "Mapping.lookup (off_cpu s) (next_tid e)")
    case None
    then show ?thesis
      using readyD(1-3) [OF assms] False
      by (auto simp: advances_def switch_in_def view_of_def tv_switch_in_def books_def upd_stats_def)
  next
    case (Some r)
    have fresh: "Mapping.lookup (pending_edges s) (next_tid e) = None"
      using readyD(5) [OF assms Some] .
    show ?thesis
      using readyD(1-3) [OF assms] False Some fresh size_update_new [OF readyD(2) [OF assms], of "next_tid e"]
      by (cases "waker_tid r") (auto simp: advances_def switch_in_def view_of_def tv_switch_in_def books_def upd_stats_def
          Let_def lookup_update' lookup_delete_if)
  qed
qed

lemma handle_switch_ok:
  assumes "ready api s" "is_type (Some Switch) e"
  shows "\<exists>s'. handle_switch api thr e s = Some s' \<and> advances api thr (\<lambda>t v. thread_step thr t e v)
    (\<lambda>b. b\<lparr>b_switch_in := b_switch_in b + of_bool (next_tid e \<noteq> 0)\<rparr>) s s'"
proof -
  obtain s1 where s1: "resolve_pending api thr e s = Some s1" "advances api thr (\<lambda>u v. if u = prev_tid e \<and> u \<noteq> 0 then
      (case tv_edge v of Some pe \<Rightarrow> if spurious thr e pe then v\<lparr>tv_edge := None\<rparr> else tv_commit v | None \<Rightarrow> v) else v) id s s1"
    using resolve_ok [OF assms(1)] by blast
  have r1: "ready api s1"
    by (rule ready_advances [OF s1(2) assms(1)]) (auto simp: tv_ok_def split: option.splits)
  note s2 = switch_out_ok [OF r1, of thr e]
  have r2: "ready api (switch_out e s1)"
  proof -
    have "tv_edge (view_of api s1 u) = None" if "u = prev_tid e" "u \<noteq> 0" for u
      using s1(2) that by (auto simp: advances_def split: option.splits)
    moreover have "tv_ok u (view_of api s1 u)" for u
      using r1 by (simp add: ready_def)
    ultimately show ?thesis
      using s2 futex_wait_type_not_io by (auto simp: ready_def advances_def tv_ok_def)
  qed
  note s3 = switch_in_ok [OF r2, of thr e]
  have "advances api thr (\<lambda>t v. thread_step thr t e v)
    (\<lambda>b. b\<lparr>b_switch_in := b_switch_in b + of_bool (next_tid e \<noteq> 0)\<rparr>) s (switch_in e (switch_out e s1))"
  proof -
    have "(\<lambda>t v. thread_step thr t e v) = (\<lambda>u v. (\<lambda>u v. if u = next_tid e \<and> u \<noteq> 0 then tv_switch_in e v else v) u
      ((\<lambda>u v. if u = prev_tid e \<and> u \<noteq> 0 \<and> prev_state e \<noteq> TASK_RUNNING
        then v\<lparr>tv_futex := None, tv_off := Some \<lparr>switch_out_ns = timestamp_ns e, waker_tid = None,
          oc_wait_type = futex_wait_type e (tv_futex v)\<rparr>\<rparr> else v) u
       ((\<lambda>u v. if u = prev_tid e \<and> u \<noteq> 0 then (case tv_edge v of Some pe \<Rightarrow> if spurious thr e pe
          then v\<lparr>tv_edge := None\<rparr> else tv_commit v | None \<Rightarrow> v) else v) u v)))"
      using assms(2) by (auto simp: fun_eq_iff is_type_def thread_step_switch Let_def tv_switch_out_def)
    then show ?thesis
      using advances_trans [OF advances_trans [OF s1(2) s2] s3] by simp
  qed
  then show ?thesis
    using s1(1) by (simp add: handle_switch_def)
qed

lemma handle_wakeup_ok:
  assumes "ready api s" "is_type (Some Wakeup) e \<or> is_type (Some WakeupNew) e"
  shows "advances api thr (\<lambda>t v. thread_step thr t e v) id s (handle_wakeup e s)"
  using readyD(1-3) [OF assms(1)] assms(2)
  by (auto simp: advances_def handle_wakeup_def view_of_def thread_step_def is_type_def books_def Let_def
      upd_stats_def lookup_update' split: option.splits)

lemma handle_futex_wait_ok:
  assumes "ready api s" "is_type (Some FutexWaitEvent) e"
  shows "advances api thr (\<lambda>t v. thread_step thr t e v) id s (handle_futex_wait e s)"
  using readyD(1-3) [OF assms(1)] assms(2)
  by (auto simp: advances_def handle_futex_wait_def view_of_def thread_step_def is_type_def books_def lookup_update')

lemma handle_io_issue_ok:
  assumes "ready api s" "is_type (Some IoIssue) e"
  shows "advances api thr (\<lambda>t v. thread_step thr t e v) (\<lambda>b. b\<lparr>b_io := b_io b + 1\<rparr>) s (handle_io_issue e s)"
  using readyD(1-3) [OF assms(1)] assms(2) size_update_new [OF readyD(3) [OF assms(1)], of "IoKey_from_event e"]
  by (auto simp: advances_def handle_io_issue_def view_of_def thread_step_def is_type_def books_def Let_def
      upd_stats_def algebra_simps)

lemma exit_ok:
  assumes "ready api s" "is_type (Some Exit) e"
  shows "\<exists>s'. map_option (\<lambda>s. s\<lparr>off_cpu := Mapping.delete (tid e) (off_cpu s),
      pending_futex := Mapping.delete (tid e) (pending_futex s)\<rparr>) (commit_pending_edge api (tid e) s) = Some s' \<and>
    advances api thr (\<lambda>t v. thread_step thr t e v) id s s'"
proof -
  have "\<exists>s'. commit_pending_edge api (tid e) s = Some s' \<and>
      advances api thr (\<lambda>u v. if u = tid e then tv_commit v else v) id s s'"
  proof (cases "Mapping.lookup (pending_edges s) (tid e)")
    case None
    then show ?thesis
      using readyD(1-3) [OF assms(1)]
      by (auto simp: commit_pending_edge_def advances_def view_of_def tv_commit_def)
  next
    case (Some pe)
    then show ?thesis
      using commit_ok [OF assms(1) Some, of thr] by (simp add: commit_pending_edge_def)
  qed
  then obtain s1 where s1: "commit_pending_edge api (tid e) s = Some s1"
    "advances api thr (\<lambda>u v. if u = tid e then tv_commit v else v) id s s1"
    by blast
  have "view_of api (s1\<lparr>off_cpu := Mapping.delete (tid e) (off_cpu s1),
        pending_futex := Mapping.delete (tid e) (pending_futex s1)\<rparr>) t =
      (if t = tid e then (view_of api s1 t)\<lparr>tv_off := None, tv_futex := None\<rparr> else view_of api s1 t)" for t
    by (simp add: view_of_def lookup_delete_if)
  then show ?thesis
    using s1 assms(2) by (auto simp: advances_def thread_step_def is_type_def books_def)
qed

lemma io_complete_step:
  assumes "graph_ok api (c_graph s)" "Mapping.lookup (pending_io s) (IoKey_from_event e) = Some p"
  shows "\<exists>g. handle_io_complete api e s = Some (upd_stats (\<lambda>st. st\<lparr>edges_created := edges_created st + 2\<rparr>)
      (s\<lparr>pending_io := Mapping.delete (IoKey_from_event e) (pending_io s), c_graph := g\<rparr>)) \<and> graph_ok api g \<and>
    wfg_edges api g = wfg_edges api (c_graph s) @
      [(user_thread (submitter_tid p), ThreadId DISK_TID, with_wait_type (io_window p e) IoBlock),
       (ThreadId DISK_TID, user_thread (submitter_tid p), synthetic_closure_return (io_window p e) IoBlock)] \<and>
    wfg_threads g = insert (user_thread (submitter_tid p)) (insert (ThreadId DISK_TID) (wfg_threads (c_graph s)))"
proof -
  let ?user = "user_thread (submitter_tid p)" and ?disk = "ThreadId DISK_TID" and ?w = "io_window p e"
  let ?g1 = "fst (add_node api (c_graph s) ?user UserThread)"
  let ?g2 = "fst (add_node api ?g1 ?disk PseudoDisk)"
  have w: "window_ok ?w"
    by (simp add: io_window_def Let_def)
  have g1: "graph_ok api ?g1" "wfg_edges api ?g1 = wfg_edges api (c_graph s)" "wfg_threads ?g1 = insert ?user (wfg_threads (c_graph s))"
    using add_node_graph_ok [OF assms(1), of ?user UserThread] by auto
  have g2: "graph_ok api ?g2" "wfg_edges api ?g2 = wfg_edges api (c_graph s)" "?user \<in> wfg_threads ?g2" "?disk \<in> wfg_threads ?g2"
    "wfg_threads ?g2 = insert ?user (insert ?disk (wfg_threads (c_graph s)))"
    using add_node_graph_ok [OF g1(1), of ?disk PseudoDisk] g1 by auto
  have shape: "edge_shape (?user, ?disk, with_wait_type ?w IoBlock)" "edge_shape (?disk, ?user, synthetic_closure_return ?w IoBlock)"
    using w by (auto simp: edge_shape_def edge_ok_def)
  obtain g3 n3 where g3: "insert_edge api ?g2 ?user ?disk (with_wait_type ?w IoBlock) = Some (g3, n3)" "graph_ok api g3"
    "wfg_edges api g3 = wfg_edges api ?g2 @ [(?user, ?disk, with_wait_type ?w IoBlock)]" "wfg_threads g3 = wfg_threads ?g2"
    using insert_graph_ok [OF g2(1,3,4) shape(1)] by metis
  obtain g4 n4 where g4: "insert_edge api g3 ?disk ?user (synthetic_closure_return ?w IoBlock) = Some (g4, n4)" "graph_ok api g4"
    "wfg_edges api g4 = wfg_edges api g3 @ [(?disk, ?user, synthetic_closure_return ?w IoBlock)]" "wfg_threads g4 = wfg_threads g3"
    using insert_graph_ok [OF g3(2) _ _ shape(2)] g2(3,4) g3(4) by metis
  have "handle_io_complete api e s = Some (upd_stats (\<lambda>st. st\<lparr>edges_created := edges_created st + 2\<rparr>)
      (s\<lparr>pending_io := Mapping.delete (IoKey_from_event e) (pending_io s), c_graph := g4\<rparr>))"
    using assms(2) g3(1) g4(1)
    by (simp add: handle_io_complete_def Let_def add_edge_with_wait_type_def add_synthetic_closure_return_def)
  then show ?thesis
    using g4(2-4) g3(3,4) g2(2,5) by auto
qed

lemma handle_io_complete_ok:
  assumes "ready api s" "is_type (Some IoComplete) e"
  shows "\<exists>s'. handle_io_complete api e s = Some s' \<and>
    advances api thr (\<lambda>t v. thread_step thr t e v)
      (\<lambda>b. b\<lparr>b_switch_in := b_switch_in b + 2, b_io := b_io b - 1\<rparr>) s s'"
proof (cases "Mapping.lookup (pending_io s) (IoKey_from_event e)")
  case None
  then show ?thesis
    using readyD(1-3) [OF assms(1)] assms(2)
    by (auto simp: advances_def handle_io_complete_def view_of_def thread_step_def is_type_def books_def
        upd_stats_def algebra_simps)
next
  case (Some p)
  note r = readyD [OF assms(1)]
  obtain g where g: "handle_io_complete api e s = Some (upd_stats (\<lambda>st. st\<lparr>edges_created := edges_created st + 2\<rparr>)
      (s\<lparr>pending_io := Mapping.delete (IoKey_from_event e) (pending_io s), c_graph := g\<rparr>))" "graph_ok api g"
    and edges: "wfg_edges api g = wfg_edges api (c_graph s) @
      [(user_thread (submitter_tid p), ThreadId DISK_TID, with_wait_type (io_window p e) IoBlock),
       (ThreadId DISK_TID, user_thread (submitter_tid p), synthetic_closure_return (io_window p e) IoBlock)]"
    using io_complete_step [OF r(1) Some] by blast
  have count: "pg_edge_count api (graph g) = pg_edge_count api (graph (c_graph s)) + 2"
    using arg_cong [OF edges, of length] by simp
  have "emitted t (wfg_edges api g) = emitted t (wfg_edges api (c_graph s))" for t
    by (simp add: edges emitted_def)
  then have "advances api thr (\<lambda>t v. thread_step thr t e v)
      (\<lambda>b. b\<lparr>b_switch_in := b_switch_in b + 2, b_io := b_io b - 1\<rparr>) s
      (upd_stats (\<lambda>st. st\<lparr>edges_created := edges_created st + 2\<rparr>)
        (s\<lparr>pending_io := Mapping.delete (IoKey_from_event e) (pending_io s), c_graph := g\<rparr>))"
    using r(1-3) g(2) count size_delete_present [OF r(3) Some] assms(2)
    by (simp add: advances_def view_of_def thread_step_def is_type_def books_def algebra_simps)
  with g(1) show ?thesis by blast
qed

lemma correlate_event_ok:
  assumes "ready api s"
  shows "\<exists>s'. correlate_event api thr e s = Some s' \<and> ready api s' \<and>
    advances api thr (\<lambda>t v. thread_step thr t e v) (book e) s s'"
proof -
  let ?s = "upd_stats (\<lambda>st. st\<lparr>events_processed := events_processed st + 1\<rparr>) s"
  have ready: "ready api ?s"
    using assms by simp
  have start: "advances api thr (\<lambda>t v. v) (\<lambda>b. b\<lparr>b_events := b_events b + 1\<rparr>) s ?s"
    using readyD(1-3) [OF assms] by (simp add: advances_def books_def)
  have "\<exists>s' b. correlate_event api thr e s = Some s' \<and> advances api thr (\<lambda>t v. thread_step thr t e v) b ?s s' \<and>
      (\<forall>x. b (x\<lparr>b_events := b_events x + 1\<rparr>) = book e x)"
  proof (cases "EventType_from_u8 (event_type e)")
    case None
    then show ?thesis
      using readyD(1-3) [OF ready]
      by (intro exI [of _ "upd_stats (\<lambda>st. st\<lparr>unknown_event_type_count := unknown_event_type_count st + 1\<rparr>) ?s"]
          exI [of _ "\<lambda>b. b\<lparr>b_unknown := b_unknown b + 1\<rparr>"])
        (simp add: correlate_event_def advances_def books_def thread_step_def is_type_def book_def switches_in_def)
  next
    case (Some ty)
    then have ty: "is_type (Some ty) e" "\<And>ty'. is_type ty' e \<longleftrightarrow> ty' = Some ty"
      by (auto simp: is_type_def)
    show ?thesis
    proof (cases ty)
      case Switch
      obtain s' where "handle_switch api thr e ?s = Some s'" "advances api thr (\<lambda>t v. thread_step thr t e v)
          (\<lambda>b. b\<lparr>b_switch_in := b_switch_in b + of_bool (next_tid e \<noteq> 0)\<rparr>) ?s s'"
        using handle_switch_ok [OF ready] ty(1) Switch by blast
      moreover have "correlate_event api thr e s = handle_switch api thr e ?s"
        using Some Switch by (simp add: correlate_event_def)
      moreover have "book e x = (x\<lparr>b_events := b_events x + 1\<rparr>)\<lparr>b_switch_in := b_switch_in x + of_bool (next_tid e \<noteq> 0)\<rparr>" for x
        using ty(2) Switch by (simp add: book_def switches_in_def)
      ultimately show ?thesis by fastforce
    next
      case Exit
      obtain s' where "correlate_event api thr e s = Some s'" "advances api thr (\<lambda>t v. thread_step thr t e v) id ?s s'"
        using exit_ok [OF ready, of e thr] ty(1) Exit Some by (auto simp: correlate_event_def)
      moreover have "book e x = x\<lparr>b_events := b_events x + 1\<rparr>" for x
        using ty(2) Exit by (simp add: book_def switches_in_def)
      ultimately show ?thesis by fastforce
    next
      case IoIssue
      have "correlate_event api thr e s = Some (handle_io_issue e ?s)"
        using Some IoIssue by (simp add: correlate_event_def)
      moreover have "book e x = (x\<lparr>b_events := b_events x + 1\<rparr>)\<lparr>b_io := b_io x + 1\<rparr>" for x
        using ty(2) IoIssue by (simp add: book_def switches_in_def)
      ultimately show ?thesis
        using handle_io_issue_ok [OF ready, of e thr] ty(1) IoIssue by fastforce
    next
      case IoComplete
      obtain s' where "handle_io_complete api e ?s = Some s'" "advances api thr (\<lambda>t v. thread_step thr t e v)
          (\<lambda>b. b\<lparr>b_switch_in := b_switch_in b + 2, b_io := b_io b - 1\<rparr>) ?s s'"
        using handle_io_complete_ok [OF ready] ty(1) IoComplete by blast
      moreover have "correlate_event api thr e s = handle_io_complete api e ?s"
        using Some IoComplete by (simp add: correlate_event_def)
      moreover have "book e x = (x\<lparr>b_events := b_events x + 1\<rparr>)\<lparr>b_switch_in := b_switch_in x + 2, b_io := b_io x - 1\<rparr>" for x
        using ty(2) IoComplete by (simp add: book_def switches_in_def)
      ultimately show ?thesis by fastforce
    next
      case FutexWaitEvent
      have "correlate_event api thr e s = Some (handle_futex_wait e ?s)"
        using Some FutexWaitEvent by (simp add: correlate_event_def)
      moreover have "book e x = x\<lparr>b_events := b_events x + 1\<rparr>" for x
        using ty(2) FutexWaitEvent by (simp add: book_def switches_in_def)
      ultimately show ?thesis
        using handle_futex_wait_ok [OF ready, of e thr] ty(1) FutexWaitEvent by fastforce
    qed (use handle_wakeup_ok [OF ready, of e thr] Some ty in
        \<open>intro exI [of _ "handle_wakeup e ?s"] exI [of _ id], simp add: correlate_event_def book_def switches_in_def\<close>)+
  qed
  then obtain s' b where s': "correlate_event api thr e s = Some s'" "advances api thr (\<lambda>t v. thread_step thr t e v) b ?s s'"
    "\<And>x. b (x\<lparr>b_events := b_events x + 1\<rparr>) = book e x"
    by blast
  have "ready api s'"
    by (rule ready_advances [OF s'(2) ready]) (rule tv_ok_step)
  moreover have "advances api thr (\<lambda>t v. thread_step thr t e v) (book e) s s'"
    using advances_trans [OF start s'(2)] s'(3) by simp
  ultimately show ?thesis
    using s'(1) by blast
qed

lemma correlate_loop:
  "\<exists>s. foldM (correlate_event api thr) events (Correlator_init api) = Some s \<and> ready api s \<and>
    (\<forall>t. view_of api s t = thread_run thr t events) \<and> books api s = books_of events \<and>
    (thr = 0 \<longrightarrow> false_wakeup_filtered_count (stats s) = 0)"
proof -
  define P where "P h s \<longleftrightarrow> ready api s \<and> (\<forall>t. view_of api s t = thread_run thr t h) \<and>
    books api s = books_of h \<and> (thr = 0 \<longrightarrow> false_wakeup_filtered_count (stats s) = 0)" for h s
  let ?s = "Correlator_init api"
  have "P [] ?s"
  proof -
    have view: "view_of api ?s t = tv_init" for t
      by (simp add: view_of_def Correlator_init_def tv_init_def new_wfg emitted_def)
    moreover have "tv_ok t tv_init" for t
      by (simp add: tv_ok_def tv_init_def)
    moreover have "graph_ok api (c_graph ?s)"
      by (simp add: graph_ok_def Correlator_init_def new_wfg kinds_ok_def wfg_kind_def)
        (simp add: WaitForGraph_new_def)
    ultimately have "ready api ?s"
      by (simp add: ready_def) (simp add: Correlator_init_def)
    moreover have "books api ?s = books_of []"
      by (simp add: books_def books_of_def Correlator_init_def CorrelationStats_default_def)
        (simp add: WaitForGraph_new_def new_empty)
    ultimately show ?thesis
      using view by (simp add: P_def) (simp add: Correlator_init_def CorrelationStats_default_def)
  qed
  moreover have "\<exists>s'. correlate_event api thr e s = Some s' \<and> P (h @ [e]) s'" if P: "P h s" for h e s
  proof -
    obtain s' where s': "correlate_event api thr e s = Some s'" "ready api s'"
      "advances api thr (\<lambda>t v. thread_step thr t e v) (book e) s s'"
      using correlate_event_ok [where s = s and e = e and thr = thr] P unfolding P_def by blast
    moreover have "P (h @ [e]) s'"
      using P s' by (simp add: P_def advances_def books_of_def)
    ultimately show ?thesis by blast
  qed
  ultimately show ?thesis
    using foldM_history [of P "correlate_event api thr" "[]" ?s events] by (simp add: P_def)
qed

text \<open>Draining the pending edges at the end.\<close>

lemma drain_loop:
  assumes "graph_ok api (c_graph s)"
    and "\<And>k pe. (k, pe) \<in> set D \<Longrightarrow> pe_src pe = user_thread k \<and> (\<exists>w. pe_dst pe = user_thread w) \<and>
      pe_wait_type pe \<noteq> Some IoBlock \<and> window_ok (pe_window pe)"
  shows "\<exists>g. foldM (\<lambda>(_, pe). add_edge_from_pending api pe) D s =
      Some (s\<lparr>c_graph := g, stats := (stats s)\<lparr>edges_created := edges_created (stats s) + of_nat (length D)\<rparr>\<rparr>) \<and>
    graph_ok api g \<and> wfg_edges api g = wfg_edges api (c_graph s) @ map (\<lambda>(_, pe). pe_edge pe) D"
  using assms
proof (induction D arbitrary: s)
  case Nil
  then show ?case by (intro exI [of _ "c_graph s"]) simp
next
  case (Cons p D)
  obtain k pe where p: "p = (k, pe)" by fastforce
  obtain b where pe: "pe_src pe = user_thread k" "pe_dst pe = user_thread b" "window_ok (pe_window pe)"
    "pe_wait_type pe \<noteq> Some IoBlock"
    using Cons.prems(2) [of k pe] p by auto
  obtain g1 where g1: "add_edge_from_pending api pe s =
      Some (upd_stats (\<lambda>st. st\<lparr>edges_created := edges_created st + 1\<rparr>) (s\<lparr>c_graph := g1\<rparr>))" "graph_ok api g1"
    "wfg_edges api g1 = wfg_edges api (c_graph s) @ [pe_edge pe]"
    using add_edge_from_pending_ok [OF Cons.prems(1) pe] by blast
  let ?s = "upd_stats (\<lambda>st. st\<lparr>edges_created := edges_created st + 1\<rparr>) (s\<lparr>c_graph := g1\<rparr>)"
  have ok: "graph_ok api (c_graph ?s)"
    using g1(2) by simp
  have "pe_src pe = user_thread k \<and> (\<exists>w. pe_dst pe = user_thread w) \<and>
      pe_wait_type pe \<noteq> Some IoBlock \<and> window_ok (pe_window pe)" if "(k, pe) \<in> set D" for k pe
    using that by (intro Cons.prems(2)) simp
  from Cons.IH [OF ok this] obtain g where "foldM (\<lambda>(_, pe). add_edge_from_pending api pe) D ?s =
      Some (?s\<lparr>c_graph := g, stats := (stats ?s)\<lparr>edges_created := edges_created (stats ?s) + of_nat (length D)\<rparr>\<rparr>)"
    "graph_ok api g" "wfg_edges api g = wfg_edges api (c_graph ?s) @ map (\<lambda>(_, pe). pe_edge pe) D"
    by blast
  then show ?case
    using g1 p by (intro exI [of _ g]) (simp add: upd_stats_def algebra_simps)
qed

lemma correlate_events_ok:
  assumes "drain_ok drain"
  shows "\<exists>g s. correlate_events api drain events thr =
      Some (g, (stats s)\<lparr>edges_created := edges_created (stats s) + of_nat (Mapping.size (pending_edges s)),
        io_pending_at_end_count := of_nat (Mapping.size (pending_io s))\<rparr>) \<and>
    graph_ok api g \<and> books api s = books_of events \<and>
    edges_created (stats s) + of_nat (Mapping.size (pending_edges s)) - of_nat (edge_count api g) = b_edges (books_of events) \<and>
    (\<forall>t. emitted t (wfg_edges api g) = thread_edges thr t events) \<and>
    (thr = 0 \<longrightarrow> false_wakeup_filtered_count (stats s) = 0)"
proof -
  obtain s where s: "foldM (correlate_event api thr) events (Correlator_init api) = Some s" "ready api s"
    "\<And>t. view_of api s t = thread_run thr t events" "books api s = books_of events"
    "thr = 0 \<longrightarrow> false_wakeup_filtered_count (stats s) = 0"
    using correlate_loop by blast
  note r = readyD [OF s(2)]
  let ?D = "drain (pending_edges s)"
  have D: "distinct (map fst ?D)" "\<And>k pe. (k, pe) \<in> set ?D \<longleftrightarrow> Mapping.lookup (pending_edges s) k = Some pe"
    using assms r(2) by (simp_all add: drain_ok_def)
  have len: "length ?D = Mapping.size (pending_edges s)"
    by (rule drain_length [OF assms r(2)])
  obtain g where g: "foldM (\<lambda>(_, pe). add_edge_from_pending api pe) ?D s =
      Some (s\<lparr>c_graph := g, stats := (stats s)\<lparr>edges_created := edges_created (stats s) + of_nat (length ?D)\<rparr>\<rparr>)"
    "graph_ok api g" "wfg_edges api g = wfg_edges api (c_graph s) @ map (\<lambda>(_, pe). pe_edge pe) ?D"
    using drain_loop [OF r(1), of ?D] r(4) D(2) by blast
  have "emitted t (wfg_edges api g) = thread_edges thr t events" for t
  proof -
    have "emitted t (map (\<lambda>(_, pe). pe_edge pe) ?D) = map (\<lambda>(_, pe). pe_edge pe) (filter (\<lambda>(k, _). k = t) ?D)"
      unfolding emitted_def filter_map
      by (rule arg_cong [where f = "map _"], rule filter_cong [OF refl])
        (use r(4) D(2) in \<open>auto simp: split_beta\<close>)
    also have "\<dots> = (case Mapping.lookup (pending_edges s) t of None \<Rightarrow> [] | Some pe \<Rightarrow> [pe_edge pe])"
      using filter_key [OF D] by (simp split: option.splits)
    finally have "emitted t (wfg_edges api g) = tv_out (tv_commit (view_of api s t))"
      unfolding g(3) by (simp add: view_of_def tv_commit_def split: option.splits)
    then show ?thesis
      by (simp add: s(3) thread_edges_def)
  qed
  moreover have "correlate_events api drain events thr =
      Some (g, (stats s)\<lparr>edges_created := edges_created (stats s) + of_nat (Mapping.size (pending_edges s)),
        io_pending_at_end_count := of_nat (Mapping.size (pending_io s))\<rparr>)"
    using s(1) g(1) by (simp add: correlate_events_def len)
  moreover have "edges_created (stats s) + of_nat (Mapping.size (pending_edges s)) - of_nat (edge_count api g) = b_edges (books_of events)"
  proof -
    have "edge_count api g = length (wfg_edges api (c_graph s)) + Mapping.size (pending_edges s)"
      using arg_cong [OF g(3), of length] len by (simp add: edge_count_def)
    then show ?thesis
      using arg_cong [OF s(4), of b_edges] by (simp add: books_def)
  qed
  ultimately show ?thesis
    using g(2) s(4,5) by blast
qed

end

definition count_events :: "(WperfEvent \<Rightarrow> bool) \<Rightarrow> WperfEvent list \<Rightarrow> u64" where
  "count_events P es = of_nat (length (filter P es))"

lemma count_events_simps [simp]:
  "count_events P [] = 0" "count_events P (es @ [e]) = count_events P es + of_bool (P e)"
  by (simp_all add: count_events_def)

section \<open>What an edge stands for\<close>

text \<open>A thread leaves the CPU asleep; it is woken by another; its wait ends.\<close>

definition goes_off :: "u32 \<Rightarrow> WperfEvent \<Rightarrow> bool" where
  "goes_off t e \<longleftrightarrow> is_type (Some Switch) e \<and> prev_tid e = t \<and> t \<noteq> 0 \<and> prev_state e \<noteq> TASK_RUNNING"

definition comes_on :: "u32 \<Rightarrow> WperfEvent \<Rightarrow> bool" where
  "comes_on t e \<longleftrightarrow> is_type (Some Switch) e \<and> next_tid e = t \<and> t \<noteq> 0"

definition ends_wait :: "u32 \<Rightarrow> WperfEvent \<Rightarrow> bool" where
  "ends_wait t e \<longleftrightarrow> goes_off t e \<or> comes_on t e \<or> is_type (Some Exit) e \<and> tid e = t"

definition wakes :: "u32 \<Rightarrow> WperfEvent \<Rightarrow> bool" where
  "wakes t e \<longleftrightarrow> (is_type (Some Wakeup) e \<or> is_type (Some WakeupNew) e) \<and> next_tid e = t \<and> prev_tid e \<noteq> 0"

definition last_waker :: "u32 \<Rightarrow> WperfEvent list \<Rightarrow> u32 option" where
  "last_waker t h = (if filter (wakes t) h = [] then None else Some (prev_tid (last (filter (wakes t) h))))"

lemma last_waker_append [simp]:
  "last_waker t [] = None"
  "last_waker t (h @ [e]) = (if wakes t e then Some (prev_tid e) else last_waker t h)"
  by (simp_all add: last_waker_def)

definition off_since :: "u32 \<Rightarrow> WperfEvent list \<Rightarrow> OffCpuRecord \<Rightarrow> bool" where
  "off_since t es r \<longleftrightarrow> (\<exists>h1 out h2. es = h1 @ out # h2 \<and> goes_off t out \<and> (\<forall>e \<in> set h2. \<not> ends_wait t e) \<and>
     switch_out_ns r = timestamp_ns out \<and> waker_tid r = last_waker t h2)"

text \<open>A wait: from a switch-out to the next switch-in, with no other end in between; the edge
  goes to the last waker, and its window is the off-CPU time, truncated to milliseconds.\<close>

definition is_wait :: "u32 \<Rightarrow> WperfEvent list \<Rightarrow> ThreadId \<times> ThreadId \<times> EdgeWeight \<Rightarrow> bool" where
  "is_wait t es = (\<lambda>(s, d, ew). \<exists>h1 out h2 inn h3 w. es = h1 @ out # h2 @ inn # h3 \<and>
     goes_off t out \<and> comes_on t inn \<and> (\<forall>e \<in> set h2. \<not> ends_wait t e) \<and> last_waker t h2 = Some w \<and>
     s = user_thread t \<and> d = user_thread w \<and>
     time_window ew = TimeWindow_new (timestamp_ns out div 1000000)
       (timestamp_ns out div 1000000 + saturating_sub (timestamp_ns inn) (timestamp_ns out) div 1000000))"

lemma off_since_append:
  assumes "off_since t es r" "\<not> ends_wait t e" "waker_tid r' = (if wakes t e then Some (prev_tid e) else waker_tid r)"
    "switch_out_ns r' = switch_out_ns r"
  shows "off_since t (es @ [e]) r'"
proof -
  obtain h1 out h2 where "es = h1 @ out # h2" "goes_off t out" "\<forall>e \<in> set h2. \<not> ends_wait t e"
    "switch_out_ns r = timestamp_ns out" "waker_tid r = last_waker t h2"
    using assms(1) by (auto simp: off_since_def)
  then show ?thesis
    unfolding off_since_def using assms(2-4)
    by (intro exI [of _ h1] exI [of _ out] exI [of _ "h2 @ [e]"]) auto
qed

lemma is_wait_append: "is_wait t es x \<Longrightarrow> is_wait t (es @ [e]) x"
  unfolding is_wait_def by fastforce

lemma is_wait_deferred:
  assumes "off_since t es r" "waker_tid r = Some w" "comes_on t e"
  shows "is_wait t (es @ [e]) (pe_edge (deferred_edge e r w))"
proof -
  obtain h1 out h2 where h: "es = h1 @ out # h2" "goes_off t out" "\<forall>e \<in> set h2. \<not> ends_wait t e"
    "switch_out_ns r = timestamp_ns out" "waker_tid r = last_waker t h2"
    using assms(1) by (auto simp: off_since_def)
  let ?ew = "snd (snd (pe_edge (deferred_edge e r w)))"
  have "pe_edge (deferred_edge e r w) = (user_thread t, user_thread w, ?ew)"
    using assms(3) by (intro prod_eqI) (simp_all add: deferred_edge_ok comes_on_def)
  moreover have "time_window ?ew = TimeWindow_new (timestamp_ns out div 1000000)
       (timestamp_ns out div 1000000 + saturating_sub (timestamp_ns e) (timestamp_ns out) div 1000000)"
    using h(4) by (simp add: deferred_edge_def Let_def)
  then have "is_wait t (es @ [e]) (user_thread t, user_thread w, ?ew)"
    unfolding is_wait_def prod.case using h assms(2,3)
    by (intro exI [of _ h1] exI [of _ out] exI [of _ h2] exI [of _ e] exI [of _ "[]"] exI [of _ w] conjI) simp_all
  ultimately show ?thesis by simp
qed

definition sound :: "u32 \<Rightarrow> WperfEvent list \<Rightarrow> ThreadView \<Rightarrow> bool" where
  "sound t es v \<longleftrightarrow> (\<forall>r. tv_off v = Some r \<longrightarrow> off_since t es r) \<and>
     (\<forall>x \<in> set (tv_out (tv_commit v)). is_wait t es x)"

lemma tv_out_commit: "tv_out (tv_commit v) = tv_out v @ (case tv_edge v of None \<Rightarrow> [] | Some pe \<Rightarrow> [pe_edge pe])"
  by (simp add: tv_commit_def split: option.splits)

lemma sound_step:
  assumes "sound t es v" "tv_ok t v"
  shows "sound t (es @ [e]) (thread_step thr t e v)"
proof -
  have old: "is_wait t (es @ [e]) x" if "x \<in> set (tv_out (tv_commit v))" for x
    using assms(1) that is_wait_append by (auto simp: sound_def)
  have off: "off_since t es r" if "tv_off v = Some r" for r
    using assms(1) that by (simp add: sound_def)
  show ?thesis
  proof (cases "is_type (Some Switch) e")
    case True
    define v1 where "v1 = (if prev_tid e = t \<and> t \<noteq> 0 then tv_switch_out thr e v else v)"
    have step: "thread_step thr t e v = (if next_tid e = t \<and> t \<noteq> 0 then tv_switch_in e v1 else v1)"
      using True by (simp add: thread_step_switch is_type_def v1_def Let_def)
    have out1: "set (tv_out (tv_commit v1)) \<subseteq> set (tv_out (tv_commit v))"
      by (auto simp: v1_def tv_switch_out_def Let_def tv_out_commit split: option.splits if_splits)
    have off1: "tv_off v1 = (if goes_off t e then Some \<lparr>switch_out_ns = timestamp_ns e, waker_tid = None,
        oc_wait_type = futex_wait_type e (tv_futex v)\<rparr> else tv_off v)"
      using True by (auto simp: v1_def goes_off_def tv_switch_out_def Let_def split: option.splits)
    show ?thesis
    proof (cases "comes_on t e")
      case on: True
      then have eq: "thread_step thr t e v = tv_switch_in e v1"
        by (simp add: step comes_on_def)
      have new: "is_wait t (es @ [e]) (pe_edge (deferred_edge e r w))" if "tv_off v1 = Some r" "waker_tid r = Some w" for r w
        using that off1 off is_wait_deferred [OF _ that(2) on] by (auto split: if_splits)
      have none: "tv_off (tv_switch_in e v1) = None"
        by (simp add: tv_switch_in_def split: option.splits)
      have "is_wait t (es @ [e]) x" if "x \<in> set (tv_out (tv_commit (tv_switch_in e v1)))" for x
      proof -
        have "x \<in> set (tv_out (tv_commit v1)) \<or>
            (\<exists>r w. tv_off v1 = Some r \<and> waker_tid r = Some w \<and> x = pe_edge (deferred_edge e r w))"
          using that by (auto simp: tv_switch_in_def tv_out_commit split: option.splits)
        then show ?thesis
          using old out1 new by blast
      qed
      then show ?thesis
        using none by (simp add: sound_def eq)
    next
      case False
      then have "thread_step thr t e v = v1"
        using True by (auto simp: step comes_on_def)
      moreover have "off_since t (es @ [e]) r" if "tv_off v1 = Some r" for r
      proof (cases "goes_off t e")
        case True
        then show ?thesis
          using that off1 unfolding off_since_def
          by (intro exI [of _ es] exI [of _ e] exI [of _ "[]"]) auto
      next
        case gf: False
        have "\<not> wakes t e" "\<not> ends_wait t e"
          using True gf False by (auto simp: wakes_def ends_wait_def is_type_def)
        then show ?thesis
          using that off1 gf off [of r] by (intro off_since_append [of t es r]) auto
      qed
      ultimately show ?thesis
        using old out1 by (auto simp: sound_def)
    qed
  next
    case False
    have keep: "off_since t (es @ [e]) r" if "tv_off v = Some r" "\<not> wakes t e" "\<not> ends_wait t e" for r
      using off [OF that(1)] that(2,3) by (intro off_since_append [of t es r]) auto
    consider (exit) "is_type (Some Exit) e" "tid e = t" | (wake) "wakes t e" | (other) "\<not> ends_wait t e" "\<not> wakes t e"
      using False by (auto simp: ends_wait_def goes_off_def comes_on_def)
    then show ?thesis
    proof cases
      case exit
      then have "thread_step thr t e v = (tv_commit v)\<lparr>tv_off := None, tv_futex := None\<rparr>"
        by (simp add: thread_step_def is_type_def)
      then show ?thesis
        using old by (auto simp: sound_def tv_out_commit)
    next
      case wake
      then have eq: "thread_step thr t e v = v\<lparr>tv_off := map_option (\<lambda>r. r\<lparr>waker_tid := Some (prev_tid e)\<rparr>) (tv_off v)\<rparr>"
        by (auto simp: wakes_def thread_step_def is_type_def)
      have "\<not> ends_wait t e"
        using wake by (auto simp: wakes_def ends_wait_def goes_off_def comes_on_def is_type_def)
      then have "off_since t (es @ [e]) (r\<lparr>waker_tid := Some (prev_tid e)\<rparr>)" if "tv_off v = Some r" for r
        using off [OF that] wake by (intro off_since_append [of t es r]) auto
      then show ?thesis
        using old by (auto simp: sound_def eq tv_out_commit)
    next
      case other
      have "\<exists>f. thread_step thr t e v = v\<lparr>tv_futex := f\<rparr>"
      proof (cases "EventType_from_u8 (event_type e)")
        case None
        then show ?thesis
          by (intro exI [of _ "tv_futex v"]) (simp add: thread_step_def)
      next
        case (Some ty)
        then show ?thesis
          using False other
          by (cases ty; intro exI [of _ "tv_futex (thread_step thr t e v)"])
            (auto simp: thread_step_def is_type_def wakes_def ends_wait_def)
      qed
      then obtain f where "thread_step thr t e v = v\<lparr>tv_futex := f\<rparr>" by blast
      then show ?thesis
        using old keep other by (simp add: sound_def tv_out_commit)
    qed
  qed
qed

lemma sound_run: "sound t es (thread_run thr t es)"
proof (induction es rule: rev_induct)
  case Nil
  show ?case by (simp add: sound_def tv_init_def tv_commit_def)
next
  case (snoc e es)
  then show ?case
    using sound_step tv_ok_run by simp
qed

section \<open>Properties\<close>

lemma books_of_eq:
  "books_of es = \<lparr>b_events = of_nat (length es), b_edges = 0, b_unknown = count_events (is_type None) es,
     b_switch_in = count_events switches_in es + 2 * count_events (is_type (Some IoComplete)) es,
     b_io = count_events (is_type (Some IoIssue)) es - count_events (is_type (Some IoComplete)) es\<rparr>"
proof (induction es rule: rev_induct)
  case (snoc e es)
  have "books_of (es @ [e]) = book e (books_of es)"
    by (simp add: books_of_def)
  then show ?case
    by (simp add: snoc book_def algebra_simps)
qed (simp add: books_of_def)

text \<open>A run: thread 7 sleeps at 1 ms, thread 9 wakes it, it is back at 4 ms; thread 7 then reads
  a block from disk.\<close>

definition demo_event :: "u64 \<Rightarrow> EventType \<Rightarrow> u32 \<Rightarrow> u32 \<Rightarrow> u32 \<Rightarrow> u8 \<Rightarrow> WperfEvent" where
  "demo_event ts ty t prev next state = \<lparr>timestamp_ns = ts, pid = t, tid = t, prev_tid = prev, next_tid = next,
     prev_pid = 0, next_pid = 0, cpu = 0, event_type = discriminant ty, prev_state = state, flags = 0\<rparr>"

definition demo_trace :: "WperfEvent list" where
  "demo_trace = [demo_event 1000000 Switch 7 7 9 1, demo_event 3000000 Wakeup 9 9 7 0,
     demo_event 4000000 Switch 9 9 7 0, demo_event 5000000 IoIssue 7 0 0 0, demo_event 8000000 IoComplete 7 0 0 0]"

definition demo_graph :: "(NodeWeight, EdgeWeight) adj WaitForGraph \<times> CorrelationStats" where
  "demo_graph = the (correlate_events adj_api mapping_entries demo_trace 50000)"

lemma demo_run: "correlate_events adj_api mapping_entries demo_trace 50000 = Some (fst demo_graph, snd demo_graph)"
  using adj_wfg.correlate_events_ok [OF drain_ok_entries, of demo_trace 50000] by (auto simp: demo_graph_def)

lemma demo_emitted: "emitted t (wfg_edges adj_api (fst demo_graph)) = thread_edges 50000 t demo_trace"
proof -
  obtain g st where "correlate_events adj_api mapping_entries demo_trace 50000 = Some (g, st)"
    "emitted t (wfg_edges adj_api g) = thread_edges 50000 t demo_trace"
    using adj_wfg.correlate_events_ok [OF drain_ok_entries, of demo_trace 50000] by blast
  moreover from this(1) have "fst demo_graph = g"
    by (simp add: demo_graph_def)
  ultimately show ?thesis by simp
qed

lemma demo_event_simps [simp]:
  "timestamp_ns (demo_event ts ty t prev next state) = ts" "tid (demo_event ts ty t prev next state) = t"
  "prev_tid (demo_event ts ty t prev next state) = prev" "next_tid (demo_event ts ty t prev next state) = next"
  "prev_state (demo_event ts ty t prev next state) = state"
  "EventType_from_u8 (event_type (demo_event ts ty t prev next state)) = Some ty"
  by (simp_all add: demo_event_def discriminant_round_trip)

lemma demo_edges:
  "thread_edges 50000 7 demo_trace = [(ThreadId 7, ThreadId 9, EdgeWeight_new (TimeWindow_new 1 4))]"
  by (simp add: thread_edges_def thread_run_def demo_trace_def thread_step_def Let_def tv_init_def tv_switch_out_def
      tv_switch_in_def tv_commit_def TASK_RUNNING_def futex_wait_type_def deferred_edge_def pe_edge_def user_thread_def
      saturating_sub_def)

text \<open>The pairs of neighbours are in order exactly if the list is sorted.\<close>

lemma neighbours_sorted:
  "list_all (\<lambda>(a, b). f a \<le> f b) (zip xs (tl xs)) \<longleftrightarrow> sorted (map f xs :: 'a :: linorder list)"
proof (induction xs rule: induct_list012)
  case (3 x y zs)
  then show ?case by (simp del: sorted_wrt.simps add: sorted2)
qed simp_all

text \<open>Property C28. In a release build, correlation of any events in any order never panics and
  yields a well-formed graph: every edge has a well-formed window and is attributed its whole
  duration; only the return edges of block IO leave the disk, only they are closure edges, and
  the edges at the disk are exactly the IO ones; the disk is the only pseudo node, every other
  node a user thread. The assertion at the head of the function, where it is switched on as in
  a debug build, panics exactly on events that are not in order of time, and on others changes
  nothing.\<close>

theorem correlate_well_formed:
  assumes "petgraph api" "drain_ok drain"
  shows "\<exists>g st. correlate_events api drain events thr = Some (g, st) \<and> wfg_inv api g \<and>
    (\<forall>(s, d, ew) \<in> set (wfg_edges api g). edge_ok ew \<and> attributed_delay_ms ew = raw_wait_ms ew \<and>
       (edge_kind ew = SyntheticClosureReturn \<longleftrightarrow> s = ThreadId DISK_TID) \<and>
       (wait_type ew = Some IoBlock \<longleftrightarrow> s = ThreadId DISK_TID \<or> d = ThreadId DISK_TID)) \<and>
    (\<forall>t k. wfg_kind api g t = Some k \<longrightarrow>
       k = (if t = ThreadId DISK_TID then PseudoDisk else UserThread)) \<and>
    correlate_events_asserted api drain events thr =
      (if sorted (map timestamp_ns events) then Some (g, st) else None)"
proof -
  obtain g st where g: "correlate_events api drain events thr = Some (g, st)" "graph_ok api g"
    using wfg_graph.correlate_events_ok [OF wfg_graph.intro [OF assms(1)] assms(2), of events thr] by blast
  have "edge_ok ew \<and> attributed_delay_ms ew = raw_wait_ms ew \<and>
       (edge_kind ew = SyntheticClosureReturn \<longleftrightarrow> s = ThreadId DISK_TID) \<and>
       (wait_type ew = Some IoBlock \<longleftrightarrow> s = ThreadId DISK_TID \<or> d = ThreadId DISK_TID)"
    if "(s, d, ew) \<in> set (wfg_edges api g)" for s d ew
  proof -
    have "edge_shape (s, d, ew)"
      using g(2) that by (auto simp: graph_ok_def list_all_iff)
    then show ?thesis
      by (auto simp: edge_shape_def split: if_splits)
  qed
  moreover have "k = (if t = ThreadId DISK_TID then PseudoDisk else UserThread)" if "wfg_kind api g t = Some k" for t k
    using g(2) that by (auto simp: graph_ok_def kinds_ok_def split: if_splits)
  moreover have "correlate_events_asserted api drain events thr =
      (if sorted (map timestamp_ns events) then Some (g, st) else None)"
    by (simp add: correlate_events_asserted_def neighbours_sorted g(1))
  ultimately show ?thesis
    using g by (auto simp: graph_ok_def)
qed

lemma correlate_well_formed_witness:
  "\<exists>g st. correlate_events adj_api mapping_entries (rev demo_trace) 50000 = Some (g, st) \<and> wfg_inv adj_api g \<and>
    correlate_events_asserted adj_api mapping_entries (rev demo_trace) 50000 = None"
proof -
  have "\<not> sorted (map timestamp_ns (rev demo_trace))"
    by (simp add: demo_trace_def)
  then show ?thesis
    using correlate_well_formed [OF adj.petgraph_axioms drain_ok_entries, of "rev demo_trace" 50000]
    by (elim exE conjE) (intro exI conjI, assumption+, simp)
qed

text \<open>Property C7. Correlation refines its specification, one automaton per thread: whatever the
  interleaving, the non-IO edges from a thread, in order, are what the automaton of the
  thread emits on the events.\<close>

theorem correlate_refines_automata:
  assumes "petgraph api" "drain_ok drain" "correlate_events api drain events thr = Some (g, st)"
  shows "filter (\<lambda>(s, d, ew). s = ThreadId (uint t) \<and> wait_type ew \<noteq> Some IoBlock) (wfg_edges api g) =
    thread_edges thr t events"
proof -
  have "emitted t (wfg_edges api g) = thread_edges thr t events"
    using wfg_graph.correlate_events_ok [OF wfg_graph.intro [OF assms(1)] assms(2), of events thr] assms(3) by auto
  then show ?thesis
    by (simp add: emitted_def user_thread_def)
qed

lemma correlate_refines_automata_witness:
  "filter (\<lambda>(s, d, ew). s = ThreadId 7 \<and> wait_type ew \<noteq> Some IoBlock) (wfg_edges adj_api (fst demo_graph)) =
    [(ThreadId 7, ThreadId 9, EdgeWeight_new (TimeWindow_new 1 4))]"
  using correlate_refines_automata [OF adj.petgraph_axioms drain_ok_entries demo_run, of 7]
  unfolding demo_edges by simp

text \<open>Property C24. Every non-IO edge is a wait that happened: the trace has a switch-out of the
  source thread, asleep, and a later switch-in of that thread, and between the two no other
  switch-in of it, no other switch-out of it asleep (one in the running state is not looked
  at) and no exit of it; the target is the last thread that woke it in between; the window is
  the off-CPU time truncated to milliseconds.\<close>

theorem correlate_sound:
  assumes "petgraph api" "drain_ok drain" "correlate_events api drain events thr = Some (g, st)"
    and "(s, d, ew) \<in> set (wfg_edges api g)" "wait_type ew \<noteq> Some IoBlock"
  shows "\<exists>t. is_wait t events (s, d, ew)"
proof -
  have g: "graph_ok api g" "emitted t (wfg_edges api g) = thread_edges thr t events" for t
    using wfg_graph.correlate_events_ok [OF wfg_graph.intro [OF assms(1)] assms(2), of events thr] assms(3) by auto
  have "edge_shape (s, d, ew)"
    using g(1) assms(4) by (auto simp: graph_ok_def list_all_iff)
  then obtain t where "s = user_thread t"
    using assms(5) by (auto simp: edge_shape_def split: if_splits)
  then have "(s, d, ew) \<in> set (thread_edges thr t events)"
    using assms(4,5) unfolding g(2) [symmetric] by (simp add: emitted_def)
  then show ?thesis
    using sound_run [of t events thr] by (auto simp: sound_def thread_edges_def)
qed

lemma correlate_sound_witness:
  "\<exists>t. is_wait t demo_trace (ThreadId 7, ThreadId 9, EdgeWeight_new (TimeWindow_new 1 4))"
proof -
  have "emitted 7 (wfg_edges adj_api (fst demo_graph)) = thread_edges 50000 7 demo_trace"
    by (rule demo_emitted)
  then have "(ThreadId 7, ThreadId 9, EdgeWeight_new (TimeWindow_new 1 4)) \<in> set (wfg_edges adj_api (fst demo_graph))"
    unfolding demo_edges emitted_def by (metis (no_types, lifting) filter_is_subset list.set_intros(1) subsetD)
  then show ?thesis
    by (intro correlate_sound [OF adj.petgraph_axioms drain_ok_entries demo_run]) simp_all
qed

lemma correlate_accounts:
  assumes "petgraph api" "drain_ok drain" "correlate_events api drain events thr = Some (g, st)"
  shows "events_processed st = of_nat (length events) \<and>
    edges_created st = of_nat (edge_count api g) \<and>
    unknown_event_type_count st = count_events (is_type None) events \<and>
    edges_created st + false_wakeup_filtered_count st + switch_in_without_waker_count st +
        unmatched_switch_in_count st + 2 * io_orphan_complete_count st =
      count_events switches_in events + 2 * count_events (is_type (Some IoComplete)) events \<and>
    count_events (is_type (Some IoIssue)) events + io_orphan_complete_count st =
      count_events (is_type (Some IoComplete)) events + io_userspace_pair_collision_count st + io_pending_at_end_count st \<and>
    (thr = 0 \<longrightarrow> false_wakeup_filtered_count st = 0)"
proof -
  obtain s where st: "st = (stats s)\<lparr>edges_created := edges_created (stats s) + of_nat (Mapping.size (pending_edges s)),
      io_pending_at_end_count := of_nat (Mapping.size (pending_io s))\<rparr>"
    and books: "books api s = books_of events"
    and edges: "edges_created (stats s) + of_nat (Mapping.size (pending_edges s)) - of_nat (edge_count api g) = b_edges (books_of events)"
    and filter: "thr = 0 \<longrightarrow> false_wakeup_filtered_count (stats s) = 0"
    using wfg_graph.correlate_events_ok [OF wfg_graph.intro [OF assms(1)] assms(2), of events thr] assms(3) by auto
  have "b_events (books api s) = of_nat (length events)" "b_unknown (books api s) = count_events (is_type None) events"
    "b_switch_in (books api s) = count_events switches_in events + 2 * count_events (is_type (Some IoComplete)) events"
    "b_io (books api s) = count_events (is_type (Some IoIssue)) events - count_events (is_type (Some IoComplete)) events"
    by (simp_all add: books books_of_eq)
  moreover have "of_nat (edge_count api g) = edges_created (stats s) + of_nat (Mapping.size (pending_edges s))"
    using edges by (simp add: books_of_eq)
  ultimately show ?thesis
    using filter by (simp add: st books_def algebra_simps)
qed

text \<open>Property C27. The statistics account for every event: all events are counted; the edges
  created are the edges of the graph; a switch-in became an edge, was filtered as spurious,
  had no waker or no switch-out, and a completion made two edges or was an orphan; an issue
  was completed, overwritten by a collision or is still pending; a threshold of zero filters
  nothing. Counters are u64, so the equations are modulo 2^64.\<close>

theorem correlate_accounting:
  assumes "petgraph api" "drain_ok drain" "correlate_events api drain events thr = Some (g, st)"
  shows "events_processed st = of_nat (length events) \<and>
    edges_created st = of_nat (edge_count api g) \<and>
    unknown_event_type_count st = count_events (is_type None) events \<and>
    edges_created st + false_wakeup_filtered_count st + switch_in_without_waker_count st +
        unmatched_switch_in_count st + 2 * io_orphan_complete_count st =
      count_events switches_in events + 2 * count_events (is_type (Some IoComplete)) events \<and>
    count_events (is_type (Some IoIssue)) events + io_orphan_complete_count st =
      count_events (is_type (Some IoComplete)) events + io_userspace_pair_collision_count st + io_pending_at_end_count st \<and>
    (thr = 0 \<longrightarrow> false_wakeup_filtered_count st = 0)"
  using assms by (rule correlate_accounts)

lemma correlate_accounting_witness:
  "edges_created (snd demo_graph) = of_nat (edge_count adj_api (fst demo_graph)) \<and>
    events_processed (snd demo_graph) = 5"
  using correlate_accounting [OF adj.petgraph_axioms drain_ok_entries demo_run] by (simp add: demo_trace_def)

end
