(* ===== verification/Header_Format.thy ===== *)
theory Header_Format
  imports Event_Format
begin

text \<open>
  The 64-byte file header of the trace format (\<open>src/format/header.rs\<close>): layout, parsing with
  its errors, and the round trip. The compile-time target architecture is an argument.
\<close>

section \<open>Operations\<close>

definition MAGIC :: "u8 list" where "MAGIC = [0x77, 0x50, 0x52, 0x46]"
definition VERSION :: u8 where "VERSION = 1"
definition ENDIAN_LE :: u8 where "ENDIAN_LE = 1"
definition ARCH_X86_64 :: u8 where "ARCH_X86_64 = 0"
definition ARCH_AARCH64 :: u8 where "ARCH_AARCH64 = 1"
definition HEADER_SIZE :: nat where "HEADER_SIZE = 64"

record WprfHeader =
  version :: u8
  endianness :: u8
  host_arch :: u8
  data_section_end_offset :: u64
  section_table_offset :: u64
  feature_bitmap :: "u8 list"

datatype HeaderError = BadMagic | UnsupportedVersion u8 | HeaderIo IoError

definition detect_arch :: "string \<Rightarrow> u8" where
  "detect_arch target_arch =
     (if target_arch = ''x86_64'' then ARCH_X86_64
      else if target_arch = ''aarch64'' then ARCH_AARCH64 else 255)"

definition WprfHeader_new :: "string \<Rightarrow> WprfHeader" where
  "WprfHeader_new target_arch =
     \<lparr>version = VERSION, endianness = ENDIAN_LE, host_arch = detect_arch target_arch,
      data_section_end_offset = of_nat HEADER_SIZE, section_table_offset = 0,
      feature_bitmap = replicate 32 0\<rparr>"

definition header_to_bytes :: "WprfHeader \<Rightarrow> u8 list" where
  "header_to_bytes h =
     MAGIC @ [version h] @ [endianness h] @ [host_arch h] @ [0] @
     to_le_bytes 8 (data_section_end_offset h) @ to_le_bytes 8 (section_table_offset h) @
     feature_bitmap h @ replicate 8 0"

definition header_write_to :: "WprfHeader \<Rightarrow> unit io" where
  "header_write_to h = write_all (header_to_bytes h)"

definition header_from_bytes :: "u8 list \<Rightarrow> HeaderError + WprfHeader" where
  "header_from_bytes buf =
     (if subslice 0 4 buf \<noteq> MAGIC then Inl BadMagic
      else let version = buf ! 4 in
        if version \<noteq> VERSION then Inl (UnsupportedVersion version)
        else Inr \<lparr>version = version, endianness = buf ! 5, host_arch = buf ! 6,
          data_section_end_offset = from_le_bytes (subslice 8 16 buf),
          section_table_offset = from_le_bytes (subslice 16 24 buf),
          feature_bitmap = subslice 24 56 buf\<rparr>)"

definition lift_result :: "'e + 'a \<Rightarrow> ('s, 'e, 'a) comp" where
  "lift_result r s = (r, s)"

definition header_read_from :: "(Device, HeaderError, WprfHeader) comp" where
  "header_read_from =
     io_bind (io_map_err HeaderIo (read_exact HEADER_SIZE)) (\<lambda>buf. lift_result (header_from_bytes buf))"

text \<open>The \<open>Display\<close> of the error; that of an \<open>io::Error\<close> is the argument.\<close>

fun HeaderError_fmt :: "(IoError \<Rightarrow> string) \<Rightarrow> HeaderError \<Rightarrow> string" where
  "HeaderError_fmt io_fmt BadMagic = ''invalid wPRF magic bytes''"
| "HeaderError_fmt io_fmt (UnsupportedVersion v) = ''unsupported wPRF version: '' @ show_nat (unat v)"
| "HeaderError_fmt io_fmt (HeaderIo e) = ''I/O error reading header: '' @ io_fmt e"

fun HeaderError_source :: "HeaderError \<Rightarrow> IoError option" where
  "HeaderError_source (HeaderIo e) = Some e"
| "HeaderError_source BadMagic = None"
| "HeaderError_source (UnsupportedVersion _) = None"

section \<open>Layout\<close>

definition header_ok :: "WprfHeader \<Rightarrow> bool" where
  "header_ok h \<longleftrightarrow> version h = VERSION \<and> length (feature_bitmap h) = 32"

lemma header_new_ok [simp]: "header_ok (WprfHeader_new target)"
  by (simp add: header_ok_def WprfHeader_new_def)

lemma length_header_to_bytes: "header_ok h \<Longrightarrow> length (header_to_bytes h) = 64"
  by (simp add: header_to_bytes_def header_ok_def MAGIC_def)

lemma header_from_to_bytes: "header_ok h \<Longrightarrow> header_from_bytes (header_to_bytes h) = Inr h"
  by (simp add: header_from_bytes_def header_to_bytes_def header_ok_def MAGIC_def subslice_app_right
      subslice_here subslice_Cons nth_append from_to_le_bytes) (simp add: subslice_def)

text \<open>The fields of a parsed header only depend on their own bytes.\<close>

lemma header_from_bytes_ok:
  assumes "header_from_bytes buf = Inr h"
  shows "subslice 0 4 buf = MAGIC" "version h = VERSION" "buf ! 4 = VERSION"
    "data_section_end_offset h = from_le_bytes (subslice 8 16 buf)"
    "section_table_offset h = from_le_bytes (subslice 16 24 buf)"
  using assms by (auto simp: header_from_bytes_def Let_def split: if_splits)

section \<open>Properties\<close>

text \<open>A header of the current version survives the round trip through its 64
  bytes; bytes with another magic or another version are rejected with the matching error,
  and nothing else is.\<close>

theorem header_round_trip:
  "(header_ok h \<longrightarrow> length (header_to_bytes h) = 64 \<and> header_from_bytes (header_to_bytes h) = Inr h) \<and>
   (length bs = 64 \<longrightarrow>
     (case header_from_bytes bs of
        Inl BadMagic \<Rightarrow> take 4 bs \<noteq> MAGIC
      | Inl (UnsupportedVersion v) \<Rightarrow> take 4 bs = MAGIC \<and> v = bs ! 4 \<and> v \<noteq> VERSION
      | Inl (HeaderIo e) \<Rightarrow> False
      | Inr h' \<Rightarrow> take 4 bs = MAGIC \<and> bs ! 4 = VERSION \<and> header_ok h'))"
proof (intro conjI impI)
  assume "length bs = 64"
  then show "case header_from_bytes bs of
      Inl BadMagic \<Rightarrow> take 4 bs \<noteq> MAGIC
    | Inl (UnsupportedVersion v) \<Rightarrow> take 4 bs = MAGIC \<and> v = bs ! 4 \<and> v \<noteq> VERSION
    | Inl (HeaderIo e) \<Rightarrow> False
    | Inr h' \<Rightarrow> take 4 bs = MAGIC \<and> bs ! 4 = VERSION \<and> header_ok h'"
    by (simp add: header_from_bytes_def Let_def subslice_def header_ok_def)
qed (simp_all add: length_header_to_bytes header_from_to_bytes)

lemma header_round_trip_witness:
  "header_from_bytes (header_to_bytes (WprfHeader_new ''x86_64'')) = Inr (WprfHeader_new ''x86_64'')"
  using header_round_trip [of "WprfHeader_new ''x86_64''" "[]"] by simp

end
