(* ===== verification/Writer.thy ===== *)
theory Writer
  imports Header_Format
begin

text \<open>
  The trace writer (\<open>src/format/writer.rs\<close>): header, TLV records, the periodic crash-recovery
  bookmark, and the footer with its metadata. An operation maps the writer to a result and
  the writer after it. The lemmas give the bytes on the stream after each operation, also
  when a write is interrupted: whatever prefix of its bytes got through, the header stays
  valid and its bookmark never points behind the records written.
\<close>

section \<open>Operations\<close>

definition REC_TYPE_SCHED_EVENT :: u8 where "REC_TYPE_SCHED_EVENT = 1"
definition TLV_HEADER_SIZE :: nat where "TLV_HEADER_SIZE = 5"
definition SECTION_ID_METADATA :: u32 where "SECTION_ID_METADATA = 3"
definition SECTION_ENTRY_SIZE :: nat where "SECTION_ENTRY_SIZE = 20"
definition MAX_PAYLOAD_SIZE :: u32 where "MAX_PAYLOAD_SIZE = 16 * 1024 * 1024"

record WperfWriter =
  w_inner :: Device
  w_header :: WprfHeader
  w_event_count :: u64
  start_timestamp_ns :: "u64 option"
  end_timestamp_ns :: u64

text \<open>A stream operation on the writer's stream.\<close>

definition on_stream :: "'a io \<Rightarrow> (WperfWriter, IoError, 'a) comp" where
  "on_stream m w = (case m (w_inner w) of (r, d) \<Rightarrow> (r, w\<lparr>w_inner := d\<rparr>))"

definition modify :: "('s \<Rightarrow> 's) \<Rightarrow> ('s, 'e, unit) comp" where
  "modify f s = (Inr (), f s)"

definition WperfWriter_new :: "string \<Rightarrow> (Device, IoError, WperfWriter) comp" where
  "WperfWriter_new target_arch =
     (let header = WprfHeader_new target_arch
      in io_bind (header_write_to header) (\<lambda>_ inner.
           (Inr \<lparr>w_inner = inner, w_header = header, w_event_count = 0,
              start_timestamp_ns = None, end_timestamp_ns = 0\<rparr>, inner)))"

definition update_data_offset :: "(WperfWriter, IoError, unit) comp" where
  "update_data_offset =
     io_bind (on_stream stream_position) (\<lambda>current_pos.
     io_bind (modify (\<lambda>w. w\<lparr>w_header := (w_header w)\<lparr>data_section_end_offset := current_pos\<rparr>\<rparr>)) (\<lambda>_.
     io_bind (on_stream (seek_start 8)) (\<lambda>_.
     io_bind (on_stream (write_all (to_le_bytes 8 current_pos))) (\<lambda>_.
     io_bind (on_stream (seek_start current_pos)) (\<lambda>_. io_return ())))))"

definition track_timestamp :: "u64 \<Rightarrow> WperfWriter \<Rightarrow> WperfWriter" where
  "track_timestamp ts w =
     (let w = (if start_timestamp_ns w = None then w\<lparr>start_timestamp_ns := Some ts\<rparr> else w)
      in w\<lparr>end_timestamp_ns := max (end_timestamp_ns w) ts\<rparr>)"

definition tlv_record :: "u8 list \<Rightarrow> u8 list" where
  "tlv_record payload = [REC_TYPE_SCHED_EVENT] @ to_le_bytes 4 (of_nat EVENT_SIZE :: u32) @ payload"

text \<open>The common tail of \<open>write_event\<close> and \<open>write_event_raw\<close>: the record, the count and the
  bookmark.\<close>

definition write_record :: "u8 list \<Rightarrow> (WperfWriter, IoError, unit) comp" where
  "write_record payload =
     io_bind (on_stream (write_all (tlv_record payload))) (\<lambda>_.
     io_bind (modify (\<lambda>w. w\<lparr>w_event_count := w_event_count w + 1\<rparr>)) (\<lambda>_.
     io_bind io_get (\<lambda>w.
       if w_event_count w mod 8192 = 0 then update_data_offset else io_return ())))"

definition write_event :: "WperfEvent \<Rightarrow> (WperfWriter, IoError, unit) comp" where
  "write_event event =
     io_bind (modify (track_timestamp (timestamp_ns event))) (\<lambda>_. write_record (event_to_bytes event))"

definition write_event_raw :: "u8 list \<Rightarrow> (WperfWriter, IoError, unit) comp" where
  "write_event_raw raw =
     io_bind (modify (track_timestamp (from_le_bytes (subslice 0 8 raw)))) (\<lambda>_. write_record raw)"

definition ascii :: "string \<Rightarrow> u8 list" where
  "ascii s = map of_char s"

definition write_meta_entry :: "u8 list \<Rightarrow> u8 list \<Rightarrow> u8 list \<Rightarrow> u8 list" where
  "write_meta_entry buf key val =
     buf @ to_le_bytes 2 (of_nat (length key) :: u16) @ key @ to_le_bytes 2 (of_nat (length val) :: u16) @ val"

definition build_metadata :: "u64 \<Rightarrow> u64 \<Rightarrow> u8 list" where
  "build_metadata event_count drop_count =
     write_meta_entry (write_meta_entry [] (ascii ''EVENT_COUNT'') (to_le_bytes 8 event_count))
       (ascii ''DROP_COUNT'') (to_le_bytes 8 drop_count)"

definition set_feature_bit0 :: "WprfHeader \<Rightarrow> WprfHeader" where
  "set_feature_bit0 h = h\<lparr>feature_bitmap := (feature_bitmap h)[0 := feature_bitmap h ! 0 OR 1]\<rparr>"

definition finish :: "u64 \<Rightarrow> (WperfWriter, IoError, unit) comp" where
  "finish drop_count =
     io_bind (on_stream stream_position) (\<lambda>data_end.
     io_bind (modify (\<lambda>w. w\<lparr>w_header := (w_header w)\<lparr>data_section_end_offset := data_end\<rparr>\<rparr>)) (\<lambda>_.
     io_bind io_get (\<lambda>w.
     let metadata_offset = data_end; metadata = build_metadata (w_event_count w) drop_count in
     io_bind (on_stream (write_all metadata)) (\<lambda>_.
     let metadata_size = of_nat (length metadata) :: u64 in
     io_bind (on_stream stream_position) (\<lambda>table_offset.
     io_bind (on_stream (write_all (to_le_bytes 4 SECTION_ID_METADATA))) (\<lambda>_.
     io_bind (on_stream (write_all (to_le_bytes 8 metadata_offset))) (\<lambda>_.
     io_bind (on_stream (write_all (to_le_bytes 8 metadata_size))) (\<lambda>_.
     io_bind (modify (\<lambda>w. w\<lparr>w_header := (w_header w)\<lparr>section_table_offset := table_offset\<rparr>\<rparr>)) (\<lambda>_.
     io_bind (modify (\<lambda>w. w\<lparr>w_header := set_feature_bit0 (w_header w)\<rparr>)) (\<lambda>_.
     io_bind (on_stream stream_position) (\<lambda>final_pos.
     io_bind (on_stream (seek_start 0)) (\<lambda>_.
     io_bind io_get (\<lambda>w.
     io_bind (on_stream (header_write_to (w_header w))) (\<lambda>_.
     io_bind (on_stream (seek_start final_pos)) (\<lambda>_. io_return ())))))))))))))))"

function parse_metadata_loop ::
    "u8 list \<Rightarrow> nat \<Rightarrow> u64 option \<Rightarrow> u64 option \<Rightarrow> u64 option \<times> u64 option" where
  "parse_metadata_loop data pos event_count drop_count =
     (if pos + 4 \<le> length data then
        (let key_len = unat (from_le_bytes (subslice pos (pos + 2) data) :: u16); pos1 = pos + 2
         in if pos1 + key_len + 2 > length data then (event_count, drop_count)
            else
              (let key = subslice pos1 (pos1 + key_len) data; pos2 = pos1 + key_len;
                   val_len = unat (from_le_bytes (subslice pos2 (pos2 + 2) data) :: u16); pos3 = pos2 + 2
               in if pos3 + val_len > length data then (event_count, drop_count)
                  else
                    (let val = subslice pos3 (pos3 + val_len) data; pos4 = pos3 + val_len
                     in if key = ascii ''EVENT_COUNT'' \<and> val_len = 8
                        then parse_metadata_loop data pos4 (Some (from_le_bytes val)) drop_count
                        else if key = ascii ''DROP_COUNT'' \<and> val_len = 8
                        then parse_metadata_loop data pos4 event_count (Some (from_le_bytes val))
                        else parse_metadata_loop data pos4 event_count drop_count)))
      else (event_count, drop_count))"
  by pat_completeness auto
termination
  by (relation "measure (\<lambda>(data, pos, _). length data - pos)") (auto simp: Let_def)

declare parse_metadata_loop.simps [simp del]

definition parse_metadata :: "u8 list \<Rightarrow> u64 option \<times> u64 option" where
  "parse_metadata data = parse_metadata_loop data 0 None None"

definition read_section_entry :: "(u32 \<times> u64 \<times> u64) io" where
  "read_section_entry =
     io_bind (read_exact SECTION_ENTRY_SIZE) (\<lambda>buf.
       io_return (from_le_bytes (subslice 0 4 buf), from_le_bytes (subslice 4 12 buf),
         from_le_bytes (subslice 12 20 buf)))"

definition read_tlv_header :: "(u8 \<times> u32) io" where
  "read_tlv_header =
     io_bind (read_exact TLV_HEADER_SIZE) (\<lambda>buf. io_return (buf ! 0, from_le_bytes (subslice 1 5 buf)))"

section \<open>The bytes of a trace\<close>

definition event_log :: "WperfEvent list \<Rightarrow> u8 list" where
  "event_log evs = concat (map (\<lambda>e. tlv_record (event_to_bytes e)) evs)"

text \<open>A block of 64 bytes that parses as a header whose bookmark is at most \<open>n\<close>.\<close>

definition header_at :: "u8 list \<Rightarrow> nat \<Rightarrow> bool" where
  "header_at H n \<longleftrightarrow> length H = 64 \<and> take 4 H = MAGIC \<and> H ! 4 = VERSION \<and> le_nat (subslice 8 16 H) \<le> n"

text \<open>The bytes a crash-recovery reader can use: a valid header, and behind it the records up
  to its bookmark; then no more than a footer.\<close>

definition recoverable :: "u8 list \<Rightarrow> WperfEvent list \<Rightarrow> bool" where
  "recoverable bytes evs \<longleftrightarrow>
     (\<exists>H B n. bytes = H @ B \<and> header_at H (64 + n) \<and> n \<le> 45 * length evs \<and> take n B = take n (event_log evs)) \<and>
     length bytes \<le> 129 + 45 * length evs"

text \<open>The field of the header that holds the offset of the section table; while it is zero the
  file has no footer.\<close>

definition table_field :: "u8 list \<Rightarrow> u8 list" where
  "table_field bytes = subslice 16 24 bytes"

definition footless :: "u8 list \<Rightarrow> bool" where
  "footless bytes \<longleftrightarrow> table_field bytes = replicate 8 0"

lemma table_field_append [simp]: "24 \<le> length H \<Longrightarrow> table_field (H @ xs) = table_field H"
  by (simp add: table_field_def subslice_def)

lemma table_field_bookmark:
  assumes "length H = 64"
  shows "table_field (overwrite 8 (take k (to_le_bytes 8 (p :: u64))) H) = table_field H"
proof -
  let ?m = "min k 8"
  have "table_field (overwrite 8 (take k (to_le_bytes 8 p)) H) =
      take 8 (drop 16 (take 8 H @ take k (to_le_bytes 8 p) @ drop (8 + ?m) H))"
    using assms by (simp add: table_field_def subslice_def overwrite_def min_def)
  also have "\<dots> = take 8 (drop 16 H)"
    using assms by (simp add: min_def)
  finally show ?thesis
    by (simp add: table_field_def subslice_def)
qed

text \<open>The invariant of a writer that has written the given events.\<close>

definition writer_inv :: "WperfEvent list \<Rightarrow> WperfWriter \<Rightarrow> bool" where
  "writer_inv evs w \<longleftrightarrow>
     (\<exists>H. dev_bytes (w_inner w) = H @ event_log evs \<and> header_at H (64 + 45 * length evs)) \<and>
     dev_pos (w_inner w) = 64 + 45 * length evs \<and> header_ok (w_header w) \<and>
     w_event_count w = of_nat (length evs)"

lemma length_tlv_record [simp]: "length (tlv_record p) = 5 + length p"
  by (simp add: tlv_record_def)

lemma event_log_simps [simp]:
  "event_log [] = []" "event_log (e # evs) = tlv_record (event_to_bytes e) @ event_log evs"
  "event_log (xs @ ys) = event_log xs @ event_log ys"
  by (simp_all add: event_log_def)

lemma length_event_log [simp]: "length (event_log evs) = 45 * length evs"
  by (induction evs) auto

lemma header_at_mono: "header_at H n \<Longrightarrow> n \<le> m \<Longrightarrow> header_at H m"
  by (auto simp: header_at_def)

lemma header_at_to_bytes:
  assumes "header_ok h" "unat (data_section_end_offset h) \<le> n"
  shows "header_at (header_to_bytes h) n"
proof -
  have "subslice 8 16 (header_to_bytes h) = to_le_bytes 8 (data_section_end_offset h)"
    by (simp add: header_to_bytes_def MAGIC_def subslice_app_right subslice_here subslice_Cons)
  moreover have "le_nat (to_le_bytes 8 (data_section_end_offset h)) = unat (data_section_end_offset h)"
    using unat_from_le_bytes [of "to_le_bytes 8 (data_section_end_offset h)", where 'a = 64]
    by (simp add: from_to_le_bytes)
  ultimately show ?thesis
    using assms by (simp add: header_at_def length_header_to_bytes header_ok_def)
      (simp add: header_to_bytes_def MAGIC_def nth_append header_ok_def)
qed

lemma header_at_parse:
  assumes "header_at H n" "n < 2 ^ 64"
  obtains h where "header_from_bytes H = Inr h" "unat (data_section_end_offset h) \<le> n"
    "data_section_end_offset h = from_le_bytes (subslice 8 16 H)"
proof -
  have "unat (from_le_bytes (subslice 8 16 H) :: u64) = le_nat (subslice 8 16 H)"
    using assms(1) by (intro unat_from_le_bytes) (simp add: header_at_def subslice_def)
  then show thesis
    using assms that by (auto simp: header_at_def header_from_bytes_def subslice_def Let_def)
qed

lemma recoverable_append:
  assumes "recoverable bytes evs"
  shows "recoverable bytes (evs @ evs')"
proof -
  obtain H B n where "bytes = H @ B" "header_at H (64 + n)" "n \<le> 45 * length evs"
    "take n B = take n (event_log evs)" "length bytes \<le> 129 + 45 * length evs"
    using assms unfolding recoverable_def by blast
  then show ?thesis
    unfolding recoverable_def by (intro conjI exI [of _ H] exI [of _ B] exI [of _ n]) simp_all
qed

lemma recoverable_tail:
  "header_at H (64 + 45 * length evs) \<Longrightarrow> length xs \<le> 65 \<Longrightarrow> recoverable (H @ event_log evs @ xs) evs"
  unfolding recoverable_def
  by (intro conjI exI [of _ H] exI [of _ "event_log evs @ xs"] exI [of _ "45 * length evs"])
    (simp_all add: header_at_def)

lemma writer_inv_recoverable:
  assumes "writer_inv evs w"
  shows "recoverable (dev_bytes (w_inner w)) evs"
  using assms recoverable_tail [of _ evs "[]"] by (auto simp: writer_inv_def)

text \<open>Storing a part of a new header or of a new bookmark over the old one leaves a valid
  header, whose bookmark is not larger than the new one.\<close>

lemma subslice_append_same: "length xs = a \<Longrightarrow> length ys = b - a \<Longrightarrow> subslice a b (xs @ ys @ zs) = ys"
  by (simp add: subslice_def)

lemma header_at_split:
  "header_at H n \<longleftrightarrow> (\<exists>A M Z. H = A @ M @ Z \<and> length A = 8 \<and> length M = 8 \<and> length Z = 48 \<and>
     take 4 A = MAGIC \<and> A ! 4 = VERSION \<and> le_nat M \<le> n)"
proof
  assume "header_at H n"
  then have "H = take 8 H @ subslice 8 16 H @ drop 16 H" "length H = 64" "take 4 (take 8 H) = MAGIC"
    "take 8 H ! 4 = VERSION" "le_nat (subslice 8 16 H) \<le> n"
    using subslice_split [of 8 16 64 H] by (auto simp: header_at_def subslice_def min_def)
  moreover from this(2) have "length (subslice 8 16 H) = 8" "length (take 8 H) = 8" "length (drop 16 H) = 48"
    by (simp_all add: subslice_length)
  ultimately show "\<exists>A M Z. H = A @ M @ Z \<and> length A = 8 \<and> length M = 8 \<and> length Z = 48 \<and>
     take 4 A = MAGIC \<and> A ! 4 = VERSION \<and> le_nat M \<le> n"
    by blast
next
  assume "\<exists>A M Z. H = A @ M @ Z \<and> length A = 8 \<and> length M = 8 \<and> length Z = 48 \<and>
     take 4 A = MAGIC \<and> A ! 4 = VERSION \<and> le_nat M \<le> n"
  then show "header_at H n"
    by (auto simp: header_at_def subslice_append_same nth_append)
qed

lemma header_at_parts:
  "length A = 8 \<Longrightarrow> length M = 8 \<Longrightarrow> length Z = 48 \<Longrightarrow> take 4 A = MAGIC \<Longrightarrow> A ! 4 = VERSION \<Longrightarrow>
   le_nat M \<le> n \<Longrightarrow> header_at (A @ M @ Z) n"
  unfolding header_at_split by blast

lemma header_at_torn_bookmark:
  assumes "header_at H n" "n \<le> unat p"
  shows "header_at (overwrite 8 (take k (to_le_bytes 8 (p :: u64))) H) (unat p)"
proof -
  obtain A M Z where H: "H = A @ M @ Z" "length A = 8" "length M = 8" "length Z = 48"
    "take 4 A = MAGIC" "A ! 4 = VERSION" "le_nat M \<le> n"
    using assms(1) header_at_split by blast
  let ?new = "to_le_bytes 8 p"
  have new: "le_nat ?new = unat p"
    using unat_from_le_bytes [of ?new, where 'a = 64] by (simp add: from_to_le_bytes)
  have M: "take k M @ drop k M @ Z = M @ Z" "length (take k ?new) = length (take k M)"
    by (metis append.assoc append_take_drop_id) (simp add: H(3))
  have "overwrite 8 (take k ?new) H = A @ (take k ?new @ drop k M) @ Z"
    using overwrite_inside [OF H(2) M(2), of "drop k M @ Z"] by (simp add: H(1) M(1))
  moreover have "le_nat (take k ?new @ drop k M) \<le> unat p"
    using le_nat_torn [of M ?new k] H(3,7) assms(2) by (simp add: new)
  moreover have "length (take k ?new @ drop k M) = 8"
    using H(3) by simp
  ultimately show ?thesis
    using H(2,4,5,6) unfolding header_at_split by blast
qed

lemma header_at_torn_header:
  assumes "header_at H n" "header_at H' m" "n \<le> m" "le_nat (subslice 8 16 H') = m"
  shows "header_at (take k H' @ drop k H) m"
proof -
  obtain A M Z where H: "H = A @ M @ Z" "length A = 8" "length M = 8" "length Z = 48"
    "take 4 A = MAGIC" "A ! 4 = VERSION" "le_nat M \<le> n"
    using assms(1) header_at_split by blast
  obtain A' M' Z' where H': "H' = A' @ M' @ Z'" "length A' = 8" "length M' = 8" "length Z' = 48"
    "take 4 A' = MAGIC" "A' ! 4 = VERSION" "le_nat M' \<le> m"
    using assms(2) header_at_split by blast
  have m: "le_nat M' = m"
    using assms(4) H'(2,3) by (simp add: H'(1) subslice_append_same)
  let ?A = "take k A' @ drop k A" and ?M = "take (k - 8) M' @ drop (k - 8) M"
    and ?Z = "take (k - 16) Z' @ drop (k - 16) Z"
  have "take k H' @ drop k H = ?A @ ?M @ ?Z"
    using H(2,3) H'(2,3) by (cases "k \<le> 8"; cases "k \<le> 16") (simp_all add: H(1) H'(1))
  moreover have "take 4 ?A = MAGIC"
  proof -
    have "take 4 ?A = take k (take 4 A') @ drop k (take 4 A)"
      using H(2) H'(2) by (cases "k \<le> 4") (simp_all add: min_def take_drop)
    then show ?thesis by (simp add: H(5) H'(5))
  qed
  moreover have "?A ! 4 = VERSION"
    using H(2,6) H'(2,6) by (cases "k \<le> 4") (simp_all add: nth_append)
  moreover have "le_nat ?M \<le> m"
    using le_nat_torn [of M M' "k - 8"] H(3,7) H'(3) assms(3) m by simp
  ultimately show ?thesis
    using header_at_parts [of ?A ?M ?Z m] H(2-4) H'(2-4) by simp
qed

section \<open>Writing records\<close>

lemma on_stream_write_cases:
  obtains "on_stream (write_all bs) w = (Inr (), w\<lparr>w_inner := store bs (w_inner w)\<rparr>)"
  | k where "on_stream (write_all bs) w = (Inl OtherIo, w\<lparr>w_inner := store (take k bs) (w_inner w)\<rparr>)"
      "dev_budget (w_inner w) \<noteq> None"
  by (rule write_all_cases [of bs "w_inner w"]) (auto simp: on_stream_def)

lemma on_stream_simps [simp]:
  "on_stream stream_position w = (Inr (of_nat (dev_pos (w_inner w))), w)"
  "unat p < 2 ^ 63 \<Longrightarrow> on_stream (seek_start p) w = (Inr p, w\<lparr>w_inner := (w_inner w)\<lparr>dev_pos := unat p\<rparr>\<rparr>)"
  "modify f w' = (Inr (), f w')"
  by (simp_all add: on_stream_def stream_position_def seek_start_def modify_def)

lemma on_stream_seek:
  "on_stream (seek_start p) w =
     (if unat p < 2 ^ 63 then (Inr p, w\<lparr>w_inner := (w_inner w)\<lparr>dev_pos := unat p\<rparr>\<rparr>) else (Inl OtherIo, w))"
  by (simp add: on_stream_def seek_start_def)

text \<open>What an operation that appends may do: succeed and establish the invariant, or fail and
  leave a recoverable stream; it only fails on a stream with a budget, and never makes the
  header point at a footer.\<close>

definition step_ok :: "WperfEvent list \<Rightarrow> WperfWriter \<Rightarrow> (IoError + unit) \<times> WperfWriter \<Rightarrow> bool" where
  "step_ok evs w res \<longleftrightarrow>
     table_field (dev_bytes (w_inner (snd res))) = table_field (dev_bytes (w_inner w)) \<and>
     (case res of
     (Inr _, w') \<Rightarrow> writer_inv evs w' \<and> (dev_budget (w_inner w) = None \<longrightarrow> dev_budget (w_inner w') = None)
   | (Inl _, w') \<Rightarrow> recoverable (dev_bytes (w_inner w')) evs \<and> dev_budget (w_inner w) \<noteq> None)"

lemma unat_pos:
  "64 + 45 * n < 2 ^ 63 \<Longrightarrow> unat (of_nat (64 + 45 * n) :: u64) = 64 + 45 * n"
  by (rule unat_of_nat_small) simp

lemma update_data_offset_ok:
  assumes "writer_inv evs w" "64 + 45 * length evs < 2 ^ 63"
  shows "step_ok evs w (update_data_offset w)"
proof -
  obtain H where H: "dev_bytes (w_inner w) = H @ event_log evs" "header_at H (64 + 45 * length evs)"
    using assms(1) by (auto simp: writer_inv_def)
  have pos: "dev_pos (w_inner w) = 64 + 45 * length evs"
    using assms(1) by (simp add: writer_inv_def)
  define p where "p = (of_nat (dev_pos (w_inner w)) :: u64)"
  define bs where "bs = to_le_bytes 8 p"
  have p: "unat p = 64 + 45 * length evs"
    using unat_pos [OF assms(2)] by (simp only: p_def pos)
  have len: "length H = 64"
    using H(2) by (simp add: header_at_def)
  have H': "header_at (overwrite 8 (take k bs) H) (64 + 45 * length evs)" for k
    using header_at_torn_bookmark [OF H(2), of p k] p by (simp add: bs_def)
  have bytes: "overwrite 8 (take k bs) (H @ event_log evs) = overwrite 8 (take k bs) H @ event_log evs" for k
    using len by (simp add: overwrite_def min_def bs_def)
  have same: "table_field (overwrite 8 (take k bs) H @ xs) = table_field H" for k xs
    using table_field_bookmark [OF len, of k p] H' [of k] by (simp add: bs_def header_at_def)
  let ?w = "w\<lparr>w_header := (w_header w)\<lparr>data_section_end_offset := p\<rparr>,
    w_inner := (w_inner w)\<lparr>dev_pos := 8\<rparr>\<rparr>"
  show ?thesis
  proof (cases rule: on_stream_write_cases [of bs ?w])
    case 1
    have "update_data_offset w = (Inr (), ?w\<lparr>w_inner := (store bs (w_inner ?w))\<lparr>dev_pos := unat p\<rparr>\<rparr>)"
      using 1 p assms(2) by (simp add: update_data_offset_def flip: p_def bs_def)
    moreover have "overwrite 8 bs (H @ event_log evs) = overwrite 8 bs H @ event_log evs"
      using bytes [of 8] by (simp add: bs_def)
    ultimately show ?thesis
      using H' [of 8] same [of 8 "event_log evs"] assms(1) p
      by (auto simp: bs_def step_ok_def writer_inv_def H(1) header_ok_def len)
  next
    case (2 k)
    have "update_data_offset w = (Inl OtherIo, ?w\<lparr>w_inner := store (take k bs) (w_inner ?w)\<rparr>)"
      using 2(1) by (simp add: update_data_offset_def flip: p_def bs_def)
    moreover have "recoverable (overwrite 8 (take k bs) H @ event_log evs) evs"
      using recoverable_tail [OF H' [of k], of "[]"] by simp
    ultimately show ?thesis
      using 2(2) by (simp add: step_ok_def H(1) bytes len same)
  qed
qed

lemma write_record_ok:
  assumes "writer_inv evs w" "64 + 45 * (length evs + 1) < 2 ^ 63"
  shows "step_ok (evs @ [e]) w (write_record (event_to_bytes e) w)"
proof -
  obtain H where H: "dev_bytes (w_inner w) = H @ event_log evs" "header_at H (64 + 45 * length evs)"
    using assms(1) by (auto simp: writer_inv_def)
  have pos: "dev_pos (w_inner w) = 64 + 45 * length evs"
    using assms(1) by (simp add: writer_inv_def)
  have len: "length H = 64"
    using H(2) by (simp add: header_at_def)
  let ?r = "tlv_record (event_to_bytes e)"
  show ?thesis
  proof (cases rule: on_stream_write_cases [of ?r w])
    case 1
    let ?w = "w\<lparr>w_inner := store ?r (w_inner w), w_event_count := w_event_count w + 1\<rparr>"
    have inv: "writer_inv (evs @ [e]) ?w"
      using assms(1) H len header_at_mono [OF H(2)] unfolding writer_inv_def
      by (auto simp: pos of_nat_add)
    have budget: "dev_budget (w_inner ?w) = None" if "dev_budget (w_inner w) = None"
      using that by simp
    show ?thesis
    proof (cases "w_event_count ?w mod 8192 = 0")
      case True
      then have "write_record (event_to_bytes e) w = update_data_offset ?w"
        using 1 by (simp add: write_record_def)
      then show ?thesis
        using update_data_offset_ok [OF inv] assms(2) budget H(1) len
        by (auto simp: step_ok_def pos split: prod.splits sum.splits)
    next
      case False
      then have "write_record (event_to_bytes e) w = (Inr (), ?w)"
        using 1 by (simp add: write_record_def)
      then show ?thesis
        using inv budget H(1) len by (simp add: step_ok_def pos)
    qed
  next
    case (2 k)
    then have "write_record (event_to_bytes e) w = (Inl OtherIo, w\<lparr>w_inner := store (take k ?r) (w_inner w)\<rparr>)"
      by (simp add: write_record_def)
    moreover have "recoverable (H @ event_log evs @ take k ?r) (evs @ [e])"
      using recoverable_append [OF recoverable_tail [OF H(2)], of "take k ?r" "[e]"] by simp
    ultimately show ?thesis
      using 2(2) len by (simp add: step_ok_def H(1) pos)
  qed
qed

lemma track_inner [simp]: "w_inner (track_timestamp ts w) = w_inner w"
  by (simp add: track_timestamp_def Let_def)

lemma writer_inv_track: "writer_inv evs (track_timestamp ts w) \<longleftrightarrow> writer_inv evs w"
  by (simp add: writer_inv_def track_timestamp_def Let_def)

lemma write_event_ok:
  assumes "writer_inv evs w" "64 + 45 * (length evs + 1) < 2 ^ 63"
  shows "step_ok (evs @ [e]) w (write_event e w)"
  using write_record_ok [OF _ assms(2), of "track_timestamp (timestamp_ns e) w" e] assms(1)
  by (auto simp: write_event_def writer_inv_track step_ok_def split: prod.splits sum.splits)

text \<open>Writing the wire bytes of an event is writing the event.\<close>

lemma write_event_raw_eq: "write_event_raw (event_to_bytes e) = write_event e"
proof -
  have "timestamp_ns e = from_le_bytes (subslice 0 8 (event_to_bytes e))"
    using arg_cong [OF event_from_to_bytes [of e], of timestamp_ns] by (simp add: event_from_bytes_def)
  then show ?thesis
    by (simp add: write_event_raw_def write_event_def)
qed

section \<open>A whole trace\<close>

text \<open>A recording session on the writer: the events one after the other, as long as no write
  fails, then the footer.\<close>

fun write_events :: "WperfEvent list \<Rightarrow> (WperfWriter, IoError, unit) comp" where
  "write_events [] = io_return ()"
| "write_events (e # es) = io_bind (write_event e) (\<lambda>_. write_events es)"

definition write_trace :: "string \<Rightarrow> WperfEvent list \<Rightarrow> u64 \<Rightarrow> Device \<Rightarrow> (IoError + unit) \<times> Device" where
  "write_trace target_arch evs drop_count d =
     (case WperfWriter_new target_arch d of
        (Inl e, d') \<Rightarrow> (Inl e, d')
      | (Inr w, d') \<Rightarrow>
          (case io_bind (write_events evs) (\<lambda>_. finish drop_count) w of (r, w') \<Rightarrow> (r, w_inner w')))"

lemma write_events_ok:
  assumes "writer_inv evs w" "64 + 45 * length (evs @ es) < 2 ^ 63"
  shows "step_ok (evs @ es) w (write_events es w)"
  using assms
proof (induction es arbitrary: evs w)
  case Nil
  then show ?case by (simp add: step_ok_def)
next
  case (Cons e es)
  have step: "step_ok (evs @ [e]) w (write_event e w)"
    using Cons.prems by (intro write_event_ok) auto
  obtain r w' where w': "write_event e w = (r, w')" by fastforce
  show ?case
  proof (cases r)
    case (Inl x)
    then show ?thesis
      using step w' recoverable_append [of "dev_bytes (w_inner w')" "evs @ [e]" es]
      by (simp add: step_ok_def)
  next
    case (Inr u)
    then have "writer_inv (evs @ [e]) w'" and b: "dev_budget (w_inner w) = None \<longrightarrow> dev_budget (w_inner w') = None"
      and t: "table_field (dev_bytes (w_inner w')) = table_field (dev_bytes (w_inner w))"
      using step w' by (simp_all add: step_ok_def)
    then have "step_ok ((evs @ [e]) @ es) w' (write_events es w')"
      using Cons.prems(2) by (intro Cons.IH) auto
    then show ?thesis
      using w' Inr b t by (auto simp: step_ok_def split: prod.splits sum.splits)
  qed
qed

text \<open>The bytes of a finished trace.\<close>

definition section_table :: "u64 \<Rightarrow> u64 \<Rightarrow> u8 list" where
  "section_table off sz = to_le_bytes 4 SECTION_ID_METADATA @ to_le_bytes 8 off @ to_le_bytes 8 sz"

definition complete_trace :: "WperfEvent list \<Rightarrow> u64 \<Rightarrow> u8 list \<Rightarrow> bool" where
  "complete_trace evs drop_count bytes \<longleftrightarrow>
     (let meta = build_metadata (of_nat (length evs)) drop_count; data_end = 64 + 45 * length evs in
      \<exists>h. header_ok h \<and> data_section_end_offset h = of_nat data_end \<and>
        section_table_offset h = of_nat (data_end + length meta) \<and>
        bytes = header_to_bytes h @ event_log evs @ meta @ section_table (of_nat data_end) (of_nat (length meta)))"

lemma length_ascii [simp]: "length (ascii s) = length s"
  by (simp add: ascii_def)

lemma length_build_metadata [simp]: "length (build_metadata c d) = 45"
  by (simp add: build_metadata_def write_meta_entry_def)

lemma length_section_table [simp]: "length (section_table a b) = 20"
  by (simp add: section_table_def)

lemma set_feature_bit0_simps [simp]:
  "header_ok (set_feature_bit0 h) \<longleftrightarrow> header_ok h"
  "data_section_end_offset (set_feature_bit0 h) = data_section_end_offset h"
  "section_table_offset (set_feature_bit0 h) = section_table_offset h"
  by (simp_all add: set_feature_bit0_def header_ok_def)

lemma header_ok_simps [simp]:
  "header_ok (h\<lparr>data_section_end_offset := a\<rparr>) \<longleftrightarrow> header_ok h"
  "header_ok (h\<lparr>section_table_offset := a\<rparr>) \<longleftrightarrow> header_ok h"
  by (simp_all add: header_ok_def)

lemma wp_stream [simp]:
  "wp (on_stream stream_position) Q w \<longleftrightarrow> Q (Inr (of_nat (dev_pos (w_inner w)))) w"
  "unat p < 2 ^ 63 \<Longrightarrow> wp (on_stream (seek_start p)) Q w \<longleftrightarrow> Q (Inr p) (w\<lparr>w_inner := (w_inner w)\<lparr>dev_pos := unat p\<rparr>\<rparr>)"
  by (simp_all add: wp_def)

lemma wp_modify [simp]: "wp (modify f) Q w \<longleftrightarrow> Q (Inr ()) (f w)"
  by (simp add: wp_def)

lemma wp_append:
  assumes "at_end xs (w_inner w)"
    and "\<And>d. at_end (xs @ bs) d \<Longrightarrow> (dev_budget (w_inner w) = None \<Longrightarrow> dev_budget d = None) \<Longrightarrow>
      Q (Inr ()) (w\<lparr>w_inner := d\<rparr>)"
    and "\<And>d k. dev_bytes d = xs @ take k bs \<Longrightarrow> dev_budget (w_inner w) \<noteq> None \<Longrightarrow>
      Q (Inl OtherIo) (w\<lparr>w_inner := d\<rparr>)"
  shows "wp (on_stream (write_all bs)) Q w"
  using write_all_append [OF assms(1), of bs] assms(2,3)
  by (auto simp: wp_def on_stream_def split: prod.splits sum.splits)

text \<open>Rewriting the header of a stream of at least 64 bytes.\<close>

lemma wp_rewrite_header:
  assumes "dev_pos (w_inner w) = 0" "dev_bytes (w_inner w) = H @ xs" "length H = 64" "header_ok h"
    and "\<And>d. dev_bytes d = header_to_bytes h @ xs \<Longrightarrow> Q (Inr ()) (w\<lparr>w_inner := d\<rparr>)"
    and "\<And>d k. dev_bytes d = (take k (header_to_bytes h) @ drop k H) @ xs \<Longrightarrow>
      dev_budget (w_inner w) \<noteq> None \<Longrightarrow> Q (Inl OtherIo) (w\<lparr>w_inner := d\<rparr>)"
  shows "wp (on_stream (header_write_to h)) Q w"
proof -
  have len: "length (header_to_bytes h) = 64"
    by (rule length_header_to_bytes [OF assms(4)])
  have bytes: "overwrite 0 (take k (header_to_bytes h)) (H @ xs) = (take k (header_to_bytes h) @ drop k H) @ xs"
    if "k \<le> 64" for k
    using that len assms(3) by (simp add: overwrite_def min_def)
  show ?thesis
    unfolding header_write_to_def
  proof (cases rule: on_stream_write_cases [of "header_to_bytes h" w])
    case 1
    then show "wp (on_stream (write_all (header_to_bytes h))) Q w"
      using assms(1,2) bytes [of 64] len assms(3) by (auto simp: wp_def intro: assms(5))
  next
    case (2 k)
    have "take k (header_to_bytes h) = take (min k 64) (header_to_bytes h)" "drop k H = drop (min k 64) H"
      using len assms(3) by (simp_all add: min_def)
    with 2 show "wp (on_stream (write_all (header_to_bytes h))) Q w"
      using assms(1,2) bytes [of "min k 64"] by (auto simp: wp_def intro!: assms(6) [of _ k])
  qed
qed

lemma finish_ok:
  assumes "writer_inv evs w" "64 + 45 * length evs + 65 < 2 ^ 63"
  shows "wp (finish drop_count)
    (\<lambda>r w'. if r = Inr () then complete_trace evs drop_count (dev_bytes (w_inner w'))
      else recoverable (dev_bytes (w_inner w')) evs \<and> dev_budget (w_inner w) \<noteq> None \<and>
        (footless (dev_bytes (w_inner w)) \<longrightarrow>
           footless (dev_bytes (w_inner w')) \<or> length (dev_bytes (w_inner w')) = 129 + 45 * length evs)) w"
proof -
  obtain H where H: "dev_bytes (w_inner w) = H @ event_log evs" "header_at H (64 + 45 * length evs)"
    using assms(1) by (auto simp: writer_inv_def)
  have w: "dev_pos (w_inner w) = 64 + 45 * length evs" "header_ok (w_header w)"
    "w_event_count w = of_nat (length evs)"
    using assms(1) by (simp_all add: writer_inv_def)
  have len: "length H = 64"
    using H(2) by (simp add: header_at_def)
  define p where "p = (of_nat (dev_pos (w_inner w)) :: u64)"
  define meta where "meta = build_metadata (of_nat (length evs)) drop_count"
  define q where "q = (of_nat (length H) + (45 * of_nat (length evs) + of_nat (length meta)) :: u64)"
  define h where "h = set_feature_bit0 ((w_header w)\<lparr>data_section_end_offset := p, section_table_offset := q\<rparr>)"
  have meta: "length meta = 45"
    by (simp add: meta_def)
  have p: "unat p = 64 + 45 * length evs"
    unfolding p_def w(1) using assms(2) by (intro unat_pos) simp
  have h: "header_ok h" "data_section_end_offset h = p" "section_table_offset h = q"
    using w(2) by (simp_all add: h_def)
  have torn: "header_at (take k (header_to_bytes h) @ drop k H) (64 + 45 * length evs)" for k
  proof (rule header_at_torn_header [OF H(2)])
    show h': "header_at (header_to_bytes h) (64 + 45 * length evs)"
      using h(1,2) p by (intro header_at_to_bytes) simp_all
    have "subslice 8 16 (header_to_bytes h) = to_le_bytes 8 p"
      by (simp add: header_to_bytes_def MAGIC_def subslice_app_right subslice_here subslice_Cons h(2))
    then show "le_nat (subslice 8 16 (header_to_bytes h)) = 64 + 45 * length evs"
      using unat_from_le_bytes [of "to_le_bytes 8 p", where 'a = 64] by (simp add: from_to_le_bytes p)
  qed simp
  have offset: "unat (of_nat (length H) + (45 * of_nat (length evs) + (of_nat (length meta) + 20)) :: u64) < 2 ^ 63"
    using assms(2) unat_of_nat_small [of "129 + 45 * length evs", where 'a = 64] len meta by simp
  have rec: "recoverable (H @ event_log evs @ xs) evs" if "length xs \<le> 65" for xs
    using H(2) that by (rule recoverable_tail)
  have complete: "complete_trace evs drop_count
      (header_to_bytes h @ event_log evs @ meta @ to_le_bytes 4 SECTION_ID_METADATA @ to_le_bytes 8 p @ to_le_bytes 8 (45 :: u64))"
    unfolding complete_trace_def Let_def using h meta
    by (intro exI [of _ h]) (simp add: p_def w(1) q_def len meta_def section_table_def)
  have at: "at_end (H @ event_log evs) (w_inner w)"
    using H(1) w(1) len by (simp add: at_end_def)
  define Q where "Q = (\<lambda>(r :: IoError + unit) (w' :: WperfWriter). if r = Inr () then complete_trace evs drop_count (dev_bytes (w_inner w'))
      else recoverable (dev_bytes (w_inner w')) evs \<and> dev_budget (w_inner w) \<noteq> None \<and>
        (footless (dev_bytes (w_inner w)) \<longrightarrow>
           footless (dev_bytes (w_inner w')) \<or> length (dev_bytes (w_inner w')) = 129 + 45 * length evs))"
  have fail: "Q (Inl e) w'" if "\<exists>xs. dev_bytes (w_inner w') = H @ event_log evs @ xs \<and> length xs \<le> 65" "dev_budget (w_inner w) = None \<Longrightarrow> False"
    for e w'
    using that rec len by (auto simp: Q_def H(1) footless_def)
  have fail_header: "Q (Inl e) w'"
    if "\<exists>k. dev_bytes (w_inner w') = (take k (header_to_bytes h) @ drop k H) @ event_log evs @ xs" "length xs = 65"
      "dev_budget (w_inner w) = None \<Longrightarrow> False" for e w' xs
    using that recoverable_tail [OF torn] torn by (auto simp: Q_def header_at_def)
  have "wp (finish drop_count) Q w"
    unfolding finish_def
    apply (simp add: Let_def w(3) meta flip: p_def meta_def)
    apply (rule wp_append [where xs = "H @ event_log evs"])
    apply (simp add: at)
    apply (simp add: at_end_def)
    apply (rule wp_append [where xs = "H @ event_log evs @ meta"])
    apply (simp add: at_end_def)
    apply (simp add: at_end_def)
    apply (rule wp_append [where xs = "H @ event_log evs @ meta @ to_le_bytes 4 SECTION_ID_METADATA"])
    apply (simp add: at_end_def)
    apply (simp add: at_end_def)
    apply (rule wp_append [where xs = "H @ event_log evs @ meta @ to_le_bytes 4 SECTION_ID_METADATA @ to_le_bytes 8 p"])
    apply (simp add: at_end_def)
    apply (simp add: at_end_def flip: q_def)
    apply (simp flip: h_def)
    apply (rule wp_rewrite_header [where H = H])
    apply simp
    apply simp
    apply (simp add: len)
    apply (simp add: h)
    apply (simp add: Q_def complete offset [simplified])
    apply (simp only: sum.case)
    apply (rule fail_header [where xs = "meta @ to_le_bytes 4 SECTION_ID_METADATA @ to_le_bytes 8 p @ to_le_bytes 8 (45 :: u64)"])
    apply (simp, blast)
    apply (simp add: meta)
    apply simp
    by (auto intro!: fail simp: meta)
  then show ?thesis by (simp add: Q_def)
qed

text \<open>A new writer on an empty stream, and the outcome of a session on it.\<close>

lemma WperfWriter_new_ok:
  "case WperfWriter_new target \<lparr>dev_bytes = [], dev_pos = 0, dev_budget = b\<rparr> of
      (Inl _, d') \<Rightarrow> b \<noteq> None \<and> length (dev_bytes d') < 64
    | (Inr w, _) \<Rightarrow> writer_inv [] w \<and> (dev_budget (w_inner w) = None \<longleftrightarrow> b = None) \<and>
        footless (dev_bytes (w_inner w))"
proof -
  let ?d = "\<lparr>dev_bytes = [], dev_pos = 0, dev_budget = b\<rparr>" and ?h = "WprfHeader_new target"
  have len: "length (header_to_bytes ?h) = 64"
    by (rule length_header_to_bytes) simp
  show ?thesis
  proof (cases rule: write_all_cases [of "header_to_bytes ?h" ?d])
    case (2 k)
    then have "WperfWriter_new target ?d = (Inl OtherIo, store (take k (header_to_bytes ?h)) ?d)"
      by (simp add: WperfWriter_new_def header_write_to_def Let_def)
    then show ?thesis
      using 2(2,3) len by (simp add: overwrite_def)
  next
    case 1
    have "header_at (header_to_bytes ?h) 64"
      by (rule header_at_to_bytes) (simp, simp add: WprfHeader_new_def HEADER_SIZE_def)
    moreover have "footless (header_to_bytes ?h)"
      by (simp add: footless_def table_field_def header_to_bytes_def WprfHeader_new_def MAGIC_def subslice_def
          numeral_eq_Suc)
    ultimately show ?thesis
      using 1 len by (simp add: WperfWriter_new_def header_write_to_def Let_def writer_inv_def overwrite_def)
  qed
qed

lemma write_trace_ok:
  assumes "64 + 45 * length evs + 65 < 2 ^ 63"
  shows "case write_trace target evs drop_count \<lparr>dev_bytes = [], dev_pos = 0, dev_budget = b\<rparr> of
      (Inr _, d') \<Rightarrow> complete_trace evs drop_count (dev_bytes d')
    | (Inl _, d') \<Rightarrow> b \<noteq> None \<and> (length (dev_bytes d') < 64 \<or> recoverable (dev_bytes d') evs)"
proof -
  let ?d = "\<lparr>dev_bytes = [], dev_pos = 0, dev_budget = b\<rparr>"
  obtain n d' where new: "WperfWriter_new target ?d = (n, d')" by fastforce
  show ?thesis
  proof (cases n)
    case (Inl x)
    then show ?thesis
      using new WperfWriter_new_ok [where target = target and b = b] by (simp add: write_trace_def)
  next
    case (Inr w)
    have inv: "writer_inv [] w" and budget: "dev_budget (w_inner w) = None \<longleftrightarrow> b = None"
      using new Inr WperfWriter_new_ok [where target = target and b = b] by simp_all
    obtain r w' where w': "write_events evs w = (r, w')" by fastforce
    have ok: "step_ok ([] @ evs) w (r, w')"
      unfolding w' [symmetric] using inv assms by (intro write_events_ok) simp_all
    show ?thesis
    proof (cases r)
      case (Inl x)
      then show ?thesis
        using new Inr w' ok budget by (simp add: write_trace_def step_ok_def)
    next
      case (Inr u)
      then have inv': "writer_inv evs w'" and b': "b = None \<longrightarrow> dev_budget (w_inner w') = None"
        using ok budget by (simp_all add: step_ok_def)
      then show ?thesis
        using new \<open>n = Inr w\<close> w' Inr finish_ok [OF inv', of drop_count] assms
        by (auto simp: write_trace_def wp_def split: prod.splits sum.splits)
    qed
  qed
qed

section \<open>Metadata\<close>

lemma parse_step:
  assumes "data = as @ to_le_bytes 2 (of_nat (length key) :: u16) @ key @ to_le_bytes 2 (of_nat (length val) :: u16) @ val @ cs"
    "length key < 2 ^ 16" "length val < 2 ^ 16"
  shows "parse_metadata_loop data (length as) ec dc =
    (if key = ascii ''EVENT_COUNT'' \<and> length val = 8
     then parse_metadata_loop data (length as + (4 + length key + length val)) (Some (from_le_bytes val)) dc
     else if key = ascii ''DROP_COUNT'' \<and> length val = 8
     then parse_metadata_loop data (length as + (4 + length key + length val)) ec (Some (from_le_bytes val))
     else parse_metadata_loop data (length as + (4 + length key + length val)) ec dc)"
proof -
  have a: "subslice (length as) (length as + 2) data = to_le_bytes 2 (of_nat (length key) :: u16)"
    "subslice (length as + 2) (length as + 2 + length key) data = key"
    "subslice (length as + 2 + length key) (length as + 2 + length key + 2) data = to_le_bytes 2 (of_nat (length val) :: u16)"
    "subslice (length as + 2 + length key + 2) (length as + 2 + length key + 2 + length val) data = val"
    by (simp_all add: assms(1) subslice_def)
  have u: "unat (from_le_bytes (subslice (length as) (length as + 2) data) :: u16) = length key"
    "unat (from_le_bytes (subslice (length as + 2 + length key) (length as + 2 + length key + 2) data) :: u16) = length val"
    unfolding a(1,3) using assms(2,3) by (simp_all add: from_to_le_bytes unat_of_nat_small)
  have c: "(length as + 4 \<le> length data) = True" "(length data < length as + 2 + length key + 2) = False"
    "(length data < length as + 2 + length key + 2 + length val) = False"
    by (simp_all add: assms(1))
  have after: "length as + 2 + length key + 2 + length val = length as + (4 + length key + length val)"
    by simp
  show ?thesis
    unfolding parse_metadata_loop.simps [of data "length as"] Let_def u a(2,4) c if_True if_False
    unfolding after by (rule refl)
qed

lemma parse_build_metadata: "parse_metadata (build_metadata c d) = (Some c, Some d)"
proof -
  let ?k1 = "ascii ''EVENT_COUNT''" and ?k2 = "ascii ''DROP_COUNT''"
  let ?v1 = "to_le_bytes 8 c" and ?v2 = "to_le_bytes 8 d"
  let ?e1 = "to_le_bytes 2 (of_nat (length ?k1) :: u16) @ ?k1 @ to_le_bytes 2 (of_nat (length ?v1) :: u16) @ ?v1"
  let ?e2 = "to_le_bytes 2 (of_nat (length ?k2) :: u16) @ ?k2 @ to_le_bytes 2 (of_nat (length ?v2) :: u16) @ ?v2"
  let ?m = "build_metadata c d"
  have m: "?m = ?e1 @ ?e2"
    by (simp only: build_metadata_def write_meta_entry_def append_Nil append_assoc)
  have k: "length ?k1 = 11" "length ?k2 = 10" "?k2 \<noteq> ?k1"
    by (simp, simp, rule notI, drule arg_cong [where f = length], simp)
  have "parse_metadata_loop ?m (length ([] :: u8 list)) None None = parse_metadata_loop ?m 23 (Some c) None"
    by (subst parse_step [where cs = ?e2 and key = ?k1 and val = ?v1])
      (simp only: m append_assoc append_Nil, simp_all only: k length_to_le_bytes, simp_all add: from_to_le_bytes)
  also have "\<dots> = parse_metadata_loop ?m (length ?e1) (Some c) None"
    by (simp only: length_append length_to_le_bytes k) simp
  also have "\<dots> = parse_metadata_loop ?m 45 (Some c) (Some d)"
    by (subst parse_step [where cs = "[]" and key = ?k2 and val = ?v2])
      (simp only: m append_assoc append_Nil2, simp_all only: k length_to_le_bytes length_append, simp_all add: from_to_le_bytes)
  also have "\<dots> = (Some c, Some d)"
    by (subst parse_metadata_loop.simps) simp
  finally show ?thesis
    by (simp add: parse_metadata_def)
qed

end
