(* ===== verification/Reader.thy ===== *)
theory Reader
  imports Writer
begin

text \<open>
  The trace reader (\<open>src/format/reader.rs\<close>): opening with the bookmark clamped to the stream
  length, the loop over TLV records, and the footer metadata. The loops are functions that
  terminate because every record header read advances the position. The lemmas show what is
  read from the bytes the writer leaves, whole or interrupted.
\<close>

section \<open>Operations\<close>

datatype ReaderError =
    Header HeaderError
  | PayloadTooLarge u8 u32
  | UnexpectedPayloadSize u8 u32 u32
  | UnknownRecordType u8
  | ReaderIo IoError

text \<open>The \<open>Display\<close> of the error; that of an \<open>io::Error\<close> is the argument.\<close>

fun ReaderError_fmt :: "(IoError \<Rightarrow> string) \<Rightarrow> ReaderError \<Rightarrow> string" where
  "ReaderError_fmt io_fmt (Header e) = ''header error: '' @ HeaderError_fmt io_fmt e"
| "ReaderError_fmt io_fmt (PayloadTooLarge rec_type len) =
     ''TLV payload too large: type='' @ show_nat (unat rec_type) @ '', length='' @ show_nat (unat len)"
| "ReaderError_fmt io_fmt (UnexpectedPayloadSize rec_type expected actual) =
     ''unexpected payload size for type '' @ show_nat (unat rec_type) @ '': expected '' @
     show_nat (unat expected) @ '', got '' @ show_nat (unat actual)"
| "ReaderError_fmt io_fmt (UnknownRecordType t) = ''unknown TLV record type: '' @ show_nat (unat t)"
| "ReaderError_fmt io_fmt (ReaderIo e) = ''I/O error: '' @ io_fmt e"

text \<open>The error behind an error, a \<open>dyn Error\<close> in the source.\<close>

datatype ReaderSource = HeaderSource HeaderError | ReaderIoSource IoError

fun ReaderError_source :: "ReaderError \<Rightarrow> ReaderSource option" where
  "ReaderError_source (Header e) = Some (HeaderSource e)"
| "ReaderError_source (ReaderIo e) = Some (ReaderIoSource e)"
| "ReaderError_source (PayloadTooLarge _ _) = None"
| "ReaderError_source (UnexpectedPayloadSize _ _ _) = None"
| "ReaderError_source (UnknownRecordType _) = None"

record Metadata =
  md_event_count :: "u64 option"
  md_drop_count :: "u64 option"

record WperfReader =
  r_inner :: Device
  r_header :: WprfHeader
  data_end :: u64

text \<open>A stream operation on the reader's stream, with the conversion of its error that \<open>?\<close>
  performs.\<close>

definition on_inner :: "'a io \<Rightarrow> (WperfReader, ReaderError, 'a) comp" where
  "on_inner m r = (case m (r_inner r) of
     (Inl e, d) \<Rightarrow> (Inl (ReaderIo e), r\<lparr>r_inner := d\<rparr>) | (Inr x, d) \<Rightarrow> (Inr x, r\<lparr>r_inner := d\<rparr>))"

definition WperfReader_open :: "(Device, ReaderError, WperfReader) comp" where
  "WperfReader_open =
     io_bind (io_map_err ReaderIo (seek_start 0)) (\<lambda>_.
     io_bind (io_map_err Header header_read_from) (\<lambda>header.
     io_bind (io_map_err ReaderIo seek_end) (\<lambda>file_len.
     let data_end = min (data_section_end_offset header) file_len in
     io_bind (io_map_err ReaderIo (seek_start (of_nat HEADER_SIZE))) (\<lambda>_.
     io_bind io_get (\<lambda>inner.
       io_return \<lparr>r_inner = inner, r_header = header, data_end = data_end\<rparr>)))))"

text \<open>One round of the loop in \<open>next_event\<close>: \<open>None\<close> to go on, \<open>Some\<close> for what it returns.\<close>

definition next_step :: "(WperfReader, ReaderError, WperfEvent option option) comp" where
  "next_step =
     io_bind (on_inner stream_position) (\<lambda>pos.
     io_bind io_get (\<lambda>self.
     if data_end self \<le> pos then io_return (Some None)
     else if data_end self < pos + of_nat TLV_HEADER_SIZE then io_return (Some None)
     else
       io_bind (on_inner read_tlv_header) (\<lambda>(rec_type, len).
       if MAX_PAYLOAD_SIZE < len then io_fail (PayloadTooLarge rec_type len)
       else
         io_bind (on_inner stream_position) (\<lambda>pos.
         let payload_end = pos + ucast len in
         if data_end self < payload_end then io_return (Some None)
         else if rec_type = REC_TYPE_SCHED_EVENT then
           if len \<noteq> of_nat EVENT_SIZE
           then io_fail (UnexpectedPayloadSize rec_type (of_nat EVENT_SIZE) len)
           else io_bind (on_inner event_read_from) (\<lambda>event. io_return (Some (Some event)))
         else io_bind (on_inner (seek_forward (unat len))) (\<lambda>_. io_return None)))))"

abbreviation bytes_left :: "WperfReader \<Rightarrow> nat" where
  "bytes_left r \<equiv> length (dev_bytes (r_inner r)) - dev_pos (r_inner r)"

lemma read_exact_progress:
  assumes "read_exact n d = (Inr xs, d')"
  shows "dev_bytes d' = dev_bytes d" "dev_pos d' = dev_pos d + n" "dev_pos d + n \<le> length (dev_bytes d)"
    "length xs = n"
  using assms by (auto simp: read_exact_def split: if_splits)

lemma on_inner_read_tlv:
  "on_inner read_tlv_header r =
     (if dev_pos (r_inner r) + 5 \<le> length (dev_bytes (r_inner r))
      then (let buf = take 5 (drop (dev_pos (r_inner r)) (dev_bytes (r_inner r)))
            in (Inr (buf ! 0, from_le_bytes (subslice 1 5 buf)),
                r\<lparr>r_inner := (r_inner r)\<lparr>dev_pos := dev_pos (r_inner r) + 5\<rparr>\<rparr>))
      else (Inl (ReaderIo UnexpectedEof),
            r\<lparr>r_inner := (r_inner r)\<lparr>dev_pos := max (dev_pos (r_inner r)) (length (dev_bytes (r_inner r)))\<rparr>\<rparr>))"
  by (simp add: on_inner_def read_tlv_header_def io_bind_def read_exact_def TLV_HEADER_SIZE_def Let_def)

lemma on_inner_read_event:
  "on_inner event_read_from r =
     (if dev_pos (r_inner r) + 40 \<le> length (dev_bytes (r_inner r))
      then (Inr (event_from_bytes (take 40 (drop (dev_pos (r_inner r)) (dev_bytes (r_inner r))))),
            r\<lparr>r_inner := (r_inner r)\<lparr>dev_pos := dev_pos (r_inner r) + 40\<rparr>\<rparr>)
      else (Inl (ReaderIo UnexpectedEof),
            r\<lparr>r_inner := (r_inner r)\<lparr>dev_pos := max (dev_pos (r_inner r)) (length (dev_bytes (r_inner r)))\<rparr>\<rparr>))"
  by (simp add: on_inner_def event_read_from_def io_bind_def read_exact_def EVENT_SIZE_def)

lemma on_inner_simps [simp]:
  "on_inner stream_position r = (Inr (of_nat (dev_pos (r_inner r))), r)"
  "on_inner (seek_forward n) r = (Inr (of_nat (dev_pos (r_inner r) + n)),
     r\<lparr>r_inner := (r_inner r)\<lparr>dev_pos := dev_pos (r_inner r) + n\<rparr>\<rparr>)"
  by (simp_all add: on_inner_def stream_position_def seek_forward_def)

lemma next_step_progress:
  assumes "next_step r = (Inr x, r')" "x = None \<or> x = Some (Some ev)"
  shows "bytes_left r' < bytes_left r"
  using assms
  by (auto simp: next_step_def io_bind_def on_inner_read_tlv on_inner_read_event Let_def
      split: if_splits)

function next_event :: "(WperfReader, ReaderError, WperfEvent option) comp" where
  "next_event r =
     (case next_step r of
        (Inl e, r') \<Rightarrow> (Inl e, r')
      | (Inr None, r') \<Rightarrow> next_event r'
      | (Inr (Some x), r') \<Rightarrow> (Inr x, r'))"
  by pat_completeness auto
termination
  by (relation "measure bytes_left") (auto dest!: sym [of "(_, _)"] intro: next_step_progress)

declare next_event.simps [simp del]

lemma next_event_progress:
  "next_event r = (Inr (Some ev), r') \<Longrightarrow> bytes_left r' < bytes_left r"
proof (induction r rule: next_event.induct)
  case (1 r)
  show ?case
    using "1.prems" "1.IH" next_step_progress [of r]
    by (subst (asm) next_event.simps) (fastforce split: prod.splits sum.splits option.splits)
qed

function read_all_loop :: "WperfEvent list \<Rightarrow> (WperfReader, ReaderError, WperfEvent list) comp" where
  "read_all_loop events r =
     (case next_event r of
        (Inl e, r') \<Rightarrow> (Inl e, r')
      | (Inr None, r') \<Rightarrow> (Inr events, r')
      | (Inr (Some ev), r') \<Rightarrow> read_all_loop (events @ [ev]) r')"
  by pat_completeness auto
termination
  by (relation "measure (\<lambda>(events, r). bytes_left r)") (auto dest!: sym [of "(_, _)"] intro: next_event_progress)

declare read_all_loop.simps [simp del]

definition read_all_events :: "(WperfReader, ReaderError, WperfEvent list) comp" where
  "read_all_events = read_all_loop []"

text \<open>The loop over the section table, up to the end of the stream.\<close>

function find_metadata_section :: "(Device, IoError, (u64 \<times> u64) option) comp" where
  "find_metadata_section d =
     (case read_section_entry d of
        (Inr (section_id, off, sz), d') \<Rightarrow>
          if section_id = SECTION_ID_METADATA then (Inr (Some (off, sz)), d')
          else find_metadata_section d'
      | (Inl UnexpectedEof, d') \<Rightarrow> (Inr None, d')
      | (Inl e, d') \<Rightarrow> (Inl e, d'))"
  by pat_completeness auto
termination
  by (relation "measure (\<lambda>d. length (dev_bytes d) - dev_pos d)")
    (auto simp: read_section_entry_def io_bind_def read_exact_def SECTION_ENTRY_SIZE_def split: if_splits)

declare find_metadata_section.simps [simp del]

definition read_metadata :: "(WperfReader, ReaderError, Metadata) comp" where
  "read_metadata =
     io_bind io_get (\<lambda>self.
     let st_offset = section_table_offset (r_header self) in
     if st_offset = 0 then io_return \<lparr>md_event_count = None, md_drop_count = None\<rparr>
     else
       io_bind (on_inner (seek_start st_offset)) (\<lambda>_.
       io_bind (on_inner find_metadata_section) (\<lambda>found.
       case found of
         None \<Rightarrow> io_return \<lparr>md_event_count = None, md_drop_count = None\<rparr>
       | Some (off, sz) \<Rightarrow>
           if ucast MAX_PAYLOAD_SIZE < sz
           then io_fail (PayloadTooLarge (ucast SECTION_ID_METADATA) (ucast (min sz 0xFFFFFFFF)))
           else
             io_bind (on_inner (seek_start off)) (\<lambda>_.
             io_bind (on_inner (read_exact (unat sz))) (\<lambda>buf.
             let (event_count, drop_count) = parse_metadata buf in
             io_return \<lparr>md_event_count = event_count, md_drop_count = drop_count\<rparr>)))))"

definition rewind :: "(WperfReader, ReaderError, unit) comp" where
  "rewind = io_bind (on_inner (seek_start (of_nat HEADER_SIZE))) (\<lambda>_. io_return ())"

section \<open>Reading a sequence of records\<close>

text \<open>A TLV record of any type, a sequence of them, and what reading the first \<open>n\<close> bytes of
  the sequence is to yield: the events in order, records of another type skipped, the first
  malformed record reported, and a record cut off by the end of the data ignored.\<close>

definition tlv :: "u8 \<times> u8 list \<Rightarrow> u8 list" where
  "tlv rec = fst rec # to_le_bytes 4 (of_nat (length (snd rec)) :: u32) @ snd rec"

fun decode_records :: "(u8 \<times> u8 list) list \<Rightarrow> nat \<Rightarrow> ReaderError + WperfEvent list" where
  "decode_records [] n = Inr []"
| "decode_records ((t, p) # recs) n =
     (if n < 5 then Inr []
      else if unat MAX_PAYLOAD_SIZE < length p then Inl (PayloadTooLarge t (of_nat (length p)))
      else if n < 5 + length p then Inr []
      else if t = REC_TYPE_SCHED_EVENT then
        if length p \<noteq> EVENT_SIZE then Inl (UnexpectedPayloadSize t 40 (of_nat (length p)))
        else map_sum id (Cons (event_from_bytes p)) (decode_records recs (n - (5 + length p)))
      else decode_records recs (n - (5 + length p)))"

definition same_file :: "WperfReader \<Rightarrow> WperfReader \<Rightarrow> bool" where
  "same_file r r' \<longleftrightarrow> dev_bytes (r_inner r') = dev_bytes (r_inner r) \<and> r_header r' = r_header r \<and> data_end r' = data_end r"

lemma length_tlv [simp]: "length (tlv rec) = 5 + length (snd rec)"
  by (simp add: tlv_def)

lemma tlv_record_eq: "length p = 40 \<Longrightarrow> tlv_record p = tlv (REC_TYPE_SCHED_EVENT, p)"
  by (simp add: tlv_record_def tlv_def EVENT_SIZE_def)

text \<open>One round of the loop in front of a record.\<close>

lemma take_less_eq: "take n xs = take n ys \<Longrightarrow> k \<le> n \<Longrightarrow> take k xs = take k ys"
  by (metis min.absorb1 take_take)

lemma next_step_at_record:
  assumes bytes: "length (dev_bytes (r_inner r)) < 2 ^ 63" "unat (data_end r) \<le> length (dev_bytes (r_inner r))"
    and p: "length p < 2 ^ 32"
    and here: "n = unat (data_end r) - dev_pos (r_inner r)" "dev_pos (r_inner r) < 2 ^ 63"
      "take n (drop (dev_pos (r_inner r)) (dev_bytes (r_inner r))) = take n (tlv (t, p) @ rest)"
  shows "\<exists>r'. same_file r r' \<and> next_step r =
    (if n < 5 then Inr (Some None)
     else if unat MAX_PAYLOAD_SIZE < length p then Inl (PayloadTooLarge t (of_nat (length p)))
     else if n < 5 + length p then Inr (Some None)
     else if t = REC_TYPE_SCHED_EVENT then
       if length p \<noteq> EVENT_SIZE then Inl (UnexpectedPayloadSize t 40 (of_nat (length p)))
       else Inr (Some (Some (event_from_bytes p)))
     else Inr None, r') \<and>
    (5 + length p \<le> n \<longrightarrow> t \<noteq> REC_TYPE_SCHED_EVENT \<or> length p = EVENT_SIZE \<longrightarrow> length p \<le> unat MAX_PAYLOAD_SIZE \<longrightarrow>
      dev_pos (r_inner r') = dev_pos (r_inner r) + (5 + length p))"
proof -
  define pos where "pos = dev_pos (r_inner r)"
  define D where "D = unat (data_end r)"
  let ?bytes = "dev_bytes (r_inner r)"
  have small: "pos < 2 ^ 63" "D < 2 ^ 63" "D \<le> length ?bytes" "n = D - pos"
    using bytes here by (simp_all add: pos_def D_def)
  have upos: "unat (of_nat (pos + k) :: u64) = pos + k" if "k \<le> 2 ^ 33" for k
    using that small(1) by (intro unat_of_nat_small) simp
  have c1: "data_end r \<le> of_nat pos \<longleftrightarrow> D \<le> pos"
    using upos [of 0] by (simp add: word_le_nat_alt D_def)
  have c2: "data_end r < of_nat pos + 5 \<longleftrightarrow> D < pos + 5"
    using upos [of 5] by (simp add: word_less_nat_alt D_def)
  show ?thesis
  proof (cases "n < 5")
    case True
    then have "next_step r = (Inr (Some None), r)"
      using c1 c2 small(4) by (auto simp: next_step_def TLV_HEADER_SIZE_def simp flip: pos_def)
    with True show ?thesis by (simp add: same_file_def)
  next
    case False
    then have n: "5 \<le> n" "pos + 5 \<le> D" "\<not> D \<le> pos" "pos + 5 \<le> length ?bytes"
      using small by auto
    have buf: "take 5 (drop pos ?bytes) = t # to_le_bytes 4 (of_nat (length p) :: u32)"
      using take_less_eq [OF here(3) n(1)] by (simp add: pos_def tlv_def)
    have hd: "take 5 (drop pos ?bytes) ! 0 = t"
      "from_le_bytes (subslice 1 5 (take 5 (drop pos ?bytes))) = (of_nat (length p) :: u32)"
      unfolding buf by (simp_all add: subslice_def from_to_le_bytes)
    let ?r = "r\<lparr>r_inner := (r_inner r)\<lparr>dev_pos := pos + 5\<rparr>\<rparr>"
    have up: "unat (of_nat (length p) :: u32) = length p"
      using p by (intro unat_of_nat_small) simp
    have max: "MAX_PAYLOAD_SIZE < of_nat (length p) \<longleftrightarrow> unat MAX_PAYLOAD_SIZE < length p"
      by (simp add: word_less_nat_alt up)
    have "ucast (of_nat (length p) :: u32) = (of_nat (length p) :: u64)"
      using p by (simp add: unsigned_of_nat take_bit_nat_eq_self)
    then have c3: "data_end r < of_nat (pos + 5) + ucast (of_nat (length p) :: u32) \<longleftrightarrow> n < 5 + length p"
      using upos [of "5 + length p"] p small n by (auto simp: word_less_nat_alt D_def add.assoc)
    have size: "(of_nat (length p) :: u32) = of_nat EVENT_SIZE \<longleftrightarrow> length p = EVENT_SIZE"
      using up by (auto simp: EVENT_SIZE_def word_unat_eq_iff)
    have payload: "take (length p) (drop (pos + 5) ?bytes) = p" if "5 + length p \<le> n"
    proof -
      have "take (5 + length p) (drop pos ?bytes) = tlv (t, p)"
        using take_less_eq [OF here(3) that] by (simp add: pos_def)
      then have "drop 5 (take (5 + length p) (drop pos ?bytes)) = p"
        by (simp add: tlv_def)
      then show ?thesis by (simp add: drop_take add.commute)
    qed
    have step: "next_step r =
      (if MAX_PAYLOAD_SIZE < of_nat (length p) then (Inl (PayloadTooLarge t (of_nat (length p))), ?r)
       else if data_end r < of_nat (pos + 5) + ucast (of_nat (length p) :: u32) then (Inr (Some None), ?r)
       else if t = REC_TYPE_SCHED_EVENT then
         if (of_nat (length p) :: u32) \<noteq> of_nat EVENT_SIZE
         then (Inl (UnexpectedPayloadSize t (of_nat EVENT_SIZE) (of_nat (length p))), ?r)
         else io_bind (on_inner event_read_from) (\<lambda>event. io_return (Some (Some event))) ?r
       else io_bind (on_inner (seek_forward (length p))) (\<lambda>_. io_return None) ?r)"
      using n c1 c2 hd unfolding next_step_def
      by (simp add: io_bind_def on_inner_read_tlv TLV_HEADER_SIZE_def up Let_def flip: pos_def)
    consider (big) "unat MAX_PAYLOAD_SIZE < length p"
      | (cut) "\<not> unat MAX_PAYLOAD_SIZE < length p" "n < 5 + length p"
      | (event) "\<not> unat MAX_PAYLOAD_SIZE < length p" "5 + length p \<le> n" "t = REC_TYPE_SCHED_EVENT" "length p = EVENT_SIZE"
      | (bad) "\<not> unat MAX_PAYLOAD_SIZE < length p" "5 + length p \<le> n" "t = REC_TYPE_SCHED_EVENT" "length p \<noteq> EVENT_SIZE"
      | (skip) "\<not> unat MAX_PAYLOAD_SIZE < length p" "5 + length p \<le> n" "t \<noteq> REC_TYPE_SCHED_EVENT"
      by linarith
    then show ?thesis
    proof cases
      case big
      then show ?thesis
        using n unfolding step c3 max by (intro exI [of _ ?r]) (simp add: same_file_def)
    next
      case cut
      then show ?thesis
        using n unfolding step c3 max by (intro exI [of _ ?r]) (simp add: same_file_def)
    next
      case event
      then have "pos + 5 + 40 \<le> length ?bytes" "take 40 (drop (pos + 5) ?bytes) = p"
        using small n payload by (auto simp: EVENT_SIZE_def)
      then show ?thesis
        using event n unfolding step c3 max size
        by (intro exI [of _ "?r\<lparr>r_inner := (r_inner r)\<lparr>dev_pos := pos + 5 + 40\<rparr>\<rparr>"])
          (simp add: same_file_def io_bind_def on_inner_read_event EVENT_SIZE_def flip: pos_def)
    next
      case bad
      then show ?thesis
        using n unfolding step c3 max size
        by (intro exI [of _ ?r]) (simp add: same_file_def, simp add: EVENT_SIZE_def)
    next
      case skip
      then show ?thesis
        using n unfolding step c3 max size
        by (intro exI [of _ "?r\<lparr>r_inner := (r_inner r)\<lparr>dev_pos := pos + 5 + length p\<rparr>\<rparr>"])
          (simp add: same_file_def io_bind_def flip: pos_def)
    qed
  qed
qed


lemma read_all_loop_step:
  "read_all_loop events r =
     (case next_step r of
        (Inl e, r') \<Rightarrow> (Inl e, r')
      | (Inr None, r') \<Rightarrow> read_all_loop events r'
      | (Inr (Some None), r') \<Rightarrow> (Inr events, r')
      | (Inr (Some (Some ev)), r') \<Rightarrow> read_all_loop (events @ [ev]) r')"
proof (cases "next_step r")
  case (Pair x r')
  show ?thesis
  proof (cases "x = Inr None")
    case True
    then show ?thesis
      using Pair read_all_loop.simps [of events r] read_all_loop.simps [of events r'] next_event.simps [of r] by simp
  next
    case False
    then show ?thesis
      using Pair read_all_loop.simps [of events r] next_event.simps [of r]
      by (auto split: sum.splits option.splits)
  qed
qed

lemma next_step_past_end:
  assumes "unat (data_end r) \<le> dev_pos (r_inner r)" "dev_pos (r_inner r) < 2 ^ 63"
  shows "next_step r = (Inr (Some None), r)"
proof -
  have "unat (of_nat (dev_pos (r_inner r)) :: u64) = dev_pos (r_inner r)"
    using assms(2) by (intro unat_of_nat_small) simp
  then have "data_end r \<le> of_nat (dev_pos (r_inner r))"
    using assms(1) by (simp add: word_le_nat_alt)
  then show ?thesis by (simp add: next_step_def)
qed

text \<open>The whole loop, on any sequence of records of which the data section holds a prefix.\<close>

lemma read_records:
  assumes "length (dev_bytes (r_inner r)) < 2 ^ 63" "unat (data_end r) \<le> length (dev_bytes (r_inner r))"
    and "\<forall>rec \<in> set recs. length (snd rec) < 2 ^ 32"
    and "n = unat (data_end r) - dev_pos (r_inner r)" "dev_pos (r_inner r) < 2 ^ 63"
    and "take n (drop (dev_pos (r_inner r)) (dev_bytes (r_inner r))) = take n (concat (map tlv recs))"
    and "n \<le> length (concat (map tlv recs))"
  shows "\<exists>r'. same_file r r' \<and>
    read_all_loop events r = (map_sum id ((@) events) (decode_records recs n), r')"
  using assms
proof (induction recs arbitrary: r n events)
  case Nil
  then show ?case
    using next_step_past_end [of r] by (simp add: read_all_loop_step [of events r] same_file_def)
next
  case (Cons rec recs)
  obtain t p where rec: "rec = (t, p)" by fastforce
  let ?rest = "concat (map tlv recs)"
  from next_step_at_record [of r p n t ?rest] Cons.prems rec
  obtain r1 where r1: "same_file r r1" and step: "next_step r =
      (if n < 5 then Inr (Some None)
       else if unat MAX_PAYLOAD_SIZE < length p then Inl (PayloadTooLarge t (of_nat (length p)))
       else if n < 5 + length p then Inr (Some None)
       else if t = REC_TYPE_SCHED_EVENT then
         if length p \<noteq> EVENT_SIZE then Inl (UnexpectedPayloadSize t 40 (of_nat (length p)))
         else Inr (Some (Some (event_from_bytes p)))
       else Inr None, r1)"
    and pos: "5 + length p \<le> n \<longrightarrow> t \<noteq> REC_TYPE_SCHED_EVENT \<or> length p = EVENT_SIZE \<longrightarrow>
      length p \<le> unat MAX_PAYLOAD_SIZE \<longrightarrow> dev_pos (r_inner r1) = dev_pos (r_inner r) + (5 + length p)"
    by auto
  let ?n = "n - (5 + length p)"
  have go_on: "\<exists>r'. same_file r r' \<and> read_all_loop evs r1 = (map_sum id ((@) evs) (decode_records recs ?n), r')"
    if "5 + length p \<le> n" "t \<noteq> REC_TYPE_SCHED_EVENT \<or> length p = EVENT_SIZE" "length p \<le> unat MAX_PAYLOAD_SIZE" for evs
  proof -
    have pos1: "dev_pos (r_inner r1) = dev_pos (r_inner r) + (5 + length p)"
      using pos that by blast
    have "drop (5 + length p) (take n (drop (dev_pos (r_inner r)) (dev_bytes (r_inner r)))) =
        drop (5 + length p) (take n (tlv (t, p) @ ?rest))"
      using Cons.prems(6) rec by simp
    then have "take ?n (drop (dev_pos (r_inner r1)) (dev_bytes (r_inner r))) = take ?n ?rest"
      using pos1 that(1) by (simp add: drop_take add.commute min_absorb1)
    moreover have "dev_pos (r_inner r1) \<le> unat (data_end r)"
      using pos1 that(1) Cons.prems(4) by simp
    ultimately have "\<exists>r'. same_file r1 r' \<and>
        read_all_loop evs r1 = (map_sum id ((@) evs) (decode_records recs ?n), r')"
      using r1 Cons.prems pos1 that(1) rec by (intro Cons.IH) (auto simp: same_file_def)
    then show ?thesis using r1 by (auto simp: same_file_def)
  qed
  consider (stop) "n < 5 \<or> unat MAX_PAYLOAD_SIZE < length p \<or> n < 5 + length p"
    | (event) "5 \<le> n" "length p \<le> unat MAX_PAYLOAD_SIZE" "5 + length p \<le> n" "t = REC_TYPE_SCHED_EVENT" "length p = EVENT_SIZE"
    | (bad) "5 \<le> n" "length p \<le> unat MAX_PAYLOAD_SIZE" "5 + length p \<le> n" "t = REC_TYPE_SCHED_EVENT" "length p \<noteq> EVENT_SIZE"
    | (skip) "5 \<le> n" "length p \<le> unat MAX_PAYLOAD_SIZE" "5 + length p \<le> n" "t \<noteq> REC_TYPE_SCHED_EVENT"
    by linarith
  then show ?case
  proof cases
    case stop
    then show ?thesis
      using r1 by (intro exI [of _ r1]) (auto simp: read_all_loop_step [of events r] step rec)
  next
    case event
    then have loop: "read_all_loop events r = read_all_loop (events @ [event_from_bytes p]) r1"
      by (simp add: read_all_loop_step [of events r] step)
    show ?thesis
      using go_on [of "events @ [event_from_bytes p]"] event
      by (cases "decode_records recs ?n") (auto simp: loop rec)
  next
    case bad
    then show ?thesis
      using r1 by (intro exI [of _ r1]) (simp add: read_all_loop_step [of events r] step rec)
  next
    case skip
    then have "read_all_loop events r = read_all_loop events r1"
      by (simp add: read_all_loop_step [of events r] step)
    then show ?thesis
      using go_on [of events] skip
      by (cases "decode_records recs ?n") (auto simp: rec)
  qed
qed

section \<open>Opening and reading a file\<close>

definition file_of :: "u8 list \<Rightarrow> Device" where
  "file_of bytes = \<lparr>dev_bytes = bytes, dev_pos = 0, dev_budget = None\<rparr>"

text \<open>What a user of the reader does: open, read all events, then the metadata.\<close>

definition read_trace :: "u8 list \<Rightarrow> ReaderError + WperfEvent list" where
  "read_trace bytes = (case WperfReader_open (file_of bytes) of
     (Inl e, _) \<Rightarrow> Inl e | (Inr r, _) \<Rightarrow> fst (read_all_events r))"

definition read_trace_metadata :: "u8 list \<Rightarrow> ReaderError + Metadata" where
  "read_trace_metadata bytes = (case WperfReader_open (file_of bytes) of
     (Inl e, _) \<Rightarrow> Inl e | (Inr r, _) \<Rightarrow> fst (io_bind read_all_events (\<lambda>_. read_metadata) r))"

lemma WperfReader_open_short:
  "length bytes < 64 \<Longrightarrow> fst (WperfReader_open (file_of bytes)) = Inl (Header (HeaderIo UnexpectedEof))"
  by (simp add: WperfReader_open_def io_bind_def io_map_err_def seek_start_def header_read_from_def
      read_exact_def HEADER_SIZE_def file_of_def)

lemma WperfReader_open_ok:
  assumes "length H = 64" "header_from_bytes H = Inr h"
  shows "\<exists>r d. WperfReader_open (file_of (H @ B)) = (Inr r, d) \<and>
    dev_bytes (r_inner r) = H @ B \<and> dev_pos (r_inner r) = 64 \<and> r_header r = h \<and>
    data_end r = min (data_section_end_offset h) (of_nat (length (H @ B)))"
  using assms
  by (simp add: WperfReader_open_def io_bind_def io_map_err_def seek_start_def header_read_from_def
      read_exact_def HEADER_SIZE_def file_of_def lift_result_def seek_end_def Let_def)

lemma WperfReader_open_bad:
  assumes "length H = 64" "header_from_bytes H = Inl e"
  shows "fst (WperfReader_open (file_of (H @ B))) = Inl (Header e)"
  using assms
  by (simp add: WperfReader_open_def io_bind_def io_map_err_def seek_start_def header_read_from_def
      read_exact_def HEADER_SIZE_def file_of_def lift_result_def)

lemma read_trace_short:
  "length bytes < 64 \<Longrightarrow> read_trace bytes = Inl (Header (HeaderIo UnexpectedEof))"
  using WperfReader_open_short [of bytes]
  by (cases "WperfReader_open (file_of bytes)") (simp add: read_trace_def)

lemma read_trace_bad:
  "length H = 64 \<Longrightarrow> header_from_bytes H = Inl e \<Longrightarrow> read_trace (H @ B) = Inl (Header e)"
  using WperfReader_open_bad [of H e B]
  by (cases "WperfReader_open (file_of (H @ B))") (simp add: read_trace_def)

lemma unat_min: "unat (min a b :: u64) = min (unat a) (unat b)"
  by (simp add: min_def word_le_nat_alt)

lemma read_file_records:
  assumes "length H = 64" "header_from_bytes H = Inr h" "length (H @ B) < 2 ^ 63"
    and "\<forall>rec \<in> set recs. length (snd rec) < 2 ^ 32"
    and "n = min (unat (data_section_end_offset h)) (length (H @ B)) - 64"
    and "take n B = take n (concat (map tlv recs))" "n \<le> length (concat (map tlv recs))"
  shows "\<exists>r d r'. WperfReader_open (file_of (H @ B)) = (Inr r, d) \<and>
    read_all_events r = (decode_records recs n, r') \<and> r_header r' = h"
proof -
  obtain r d where r: "WperfReader_open (file_of (H @ B)) = (Inr r, d)" "dev_bytes (r_inner r) = H @ B"
    "dev_pos (r_inner r) = 64" "r_header r = h" "data_end r = min (data_section_end_offset h) (of_nat (length (H @ B)))"
    using WperfReader_open_ok [OF assms(1,2), of B] by auto
  have len: "unat (of_nat (length (H @ B)) :: u64) = length (H @ B)"
    using assms(3) by (intro unat_of_nat_small) simp
  have "unat (data_end r) = min (unat (data_section_end_offset h)) (length (H @ B))"
    unfolding r(5) unat_min len by (rule refl)
  then have "\<exists>r'. same_file r r' \<and> read_all_loop [] r = (map_sum id ((@) []) (decode_records recs n), r')"
    using assms r(2,3) by (intro read_records) auto
  then show ?thesis
    using r(1,4) by (cases "decode_records recs n") (auto simp: read_all_events_def same_file_def)
qed

lemma read_trace_records:
  assumes "length H = 64" "header_from_bytes H = Inr h" "length (H @ B) < 2 ^ 63"
    and "\<forall>rec \<in> set recs. length (snd rec) < 2 ^ 32"
    and "n = min (unat (data_section_end_offset h)) (length (H @ B)) - 64"
    and "take n B = take n (concat (map tlv recs))" "n \<le> length (concat (map tlv recs))"
  shows "read_trace (H @ B) = decode_records recs n"
    "section_table_offset h = 0 \<Longrightarrow> decode_records recs n = Inr evs \<Longrightarrow>
      read_trace_metadata (H @ B) = Inr \<lparr>md_event_count = None, md_drop_count = None\<rparr>"
  using read_file_records [OF assms]
  by (auto simp: read_trace_def read_trace_metadata_def read_metadata_def)

text \<open>The records the writer leaves.\<close>

abbreviation event_record :: "WperfEvent \<Rightarrow> u8 \<times> u8 list" where
  "event_record e \<equiv> (REC_TYPE_SCHED_EVENT, event_to_bytes e)"

lemma event_log_records: "event_log evs = concat (map tlv (map event_record evs))"
  by (simp add: event_log_def tlv_record_eq comp_def)

lemma unat_MAX_PAYLOAD_SIZE: "unat MAX_PAYLOAD_SIZE = 16777216"
  by (simp add: MAX_PAYLOAD_SIZE_def)

lemma decode_event_records:
  "n \<le> 45 * length evs \<Longrightarrow> decode_records (map event_record evs) n = Inr (take (n div 45) evs)"
proof (induction evs arbitrary: n)
  case (Cons e evs)
  show ?case
  proof (cases "n < 45")
    case True
    have "\<not> unat MAX_PAYLOAD_SIZE < 40"
      by (simp only: unat_MAX_PAYLOAD_SIZE)
    with True have "decode_records (map event_record (e # evs)) n = Inr []"
      by simp
    moreover have "n div 45 = 0"
      using True by simp
    ultimately show ?thesis by simp
  next
    case False
    then have "n div 45 = Suc ((n - 45) div 45)"
      by (simp add: le_div_geq)
    with False Cons show ?thesis
      by (simp add: unat_MAX_PAYLOAD_SIZE EVENT_SIZE_def event_from_to_bytes)
  qed
qed simp

lemma footless_header:
  assumes "length H = 64" "header_from_bytes H = Inr h" "footless (H @ B)"
  shows "section_table_offset h = 0"
proof -
  have "table_field H = replicate 8 0"
    using assms(1,3) by (simp add: footless_def)
  then have "from_le_bytes (subslice 16 24 H) = (0 :: u64)"
    by (simp only: table_field_def from_le_bytes_zeros)
  then show ?thesis
    using assms(2) by (auto simp: header_from_bytes_def Let_def split: if_splits)
qed

lemma read_recoverable:
  assumes "recoverable bytes evs" "129 + 45 * length evs < 2 ^ 63"
  shows "\<exists>k. read_trace bytes = Inr (take k evs)"
    "footless bytes \<Longrightarrow> read_trace_metadata bytes = Inr \<lparr>md_event_count = None, md_drop_count = None\<rparr>"
proof -
  obtain H B n where bytes: "bytes = H @ B" "header_at H (64 + n)" "n \<le> 45 * length evs"
    "take n B = take n (event_log evs)" "length bytes < 2 ^ 63"
    using assms unfolding recoverable_def by auto
  have H: "length H = 64"
    using bytes(2) by (simp add: header_at_def)
  have "64 + n < 2 ^ 64"
    using bytes(3) assms(2) by simp
  then obtain h where h: "header_from_bytes H = Inr h" "unat (data_section_end_offset h) \<le> 64 + n"
    using header_at_parse [OF bytes(2)] by blast
  define m where "m = min (unat (data_section_end_offset h)) (length (H @ B)) - 64"
  have m: "m \<le> n"
    using h(2) by (simp add: m_def)
  have same: "take m B = take m (concat (map tlv (map event_record evs)))"
    "m \<le> length (concat (map tlv (map event_record evs)))"
    "\<forall>rec \<in> set (map event_record evs). length (snd rec) < 2 ^ 32" "length (H @ B) < 2 ^ 63"
    using m bytes(1,3,5) take_less_eq [OF bytes(4) m] by (auto simp: event_log_records [symmetric] simp del: map_map)
  note read = read_trace_records [OF H h(1) same(4,3) m_def same(1,2)]
  have decode: "decode_records (map event_record evs) m = Inr (take (m div 45) evs)"
    using m bytes(3) by (intro decode_event_records) simp
  show "\<exists>k. read_trace bytes = Inr (take k evs)"
    using read(1) unfolding bytes(1) decode by blast
  show "read_trace_metadata bytes = Inr \<lparr>md_event_count = None, md_drop_count = None\<rparr>" if "footless bytes"
    using read(2) [OF _ decode] footless_header [OF H h(1)] that by (simp add: bytes(1))
qed

text \<open>A complete trace.\<close>

lemma read_complete:
  assumes "complete_trace evs drop_count bytes" "129 + 45 * length evs < 2 ^ 63"
  shows "read_trace bytes = Inr evs"
    "read_trace_metadata bytes = Inr \<lparr>md_event_count = Some (of_nat (length evs)), md_drop_count = Some drop_count\<rparr>"
proof -
  define meta where "meta = build_metadata (of_nat (length evs)) drop_count"
  define p where "p = 64 + 45 * length evs"
  obtain h where h: "header_ok h" "data_section_end_offset h = of_nat p"
    "section_table_offset h = of_nat (p + 45)"
    "bytes = header_to_bytes h @ event_log evs @ meta @ section_table (of_nat p) 45"
    using assms(1) by (auto simp: complete_trace_def Let_def meta_def p_def)
  let ?B = "event_log evs @ meta @ section_table (of_nat p) 45"
  have meta: "length meta = 45" by (simp add: meta_def)
  have H: "length (header_to_bytes h) = 64" "header_from_bytes (header_to_bytes h) = Inr h"
    using h(1) by (simp_all add: length_header_to_bytes header_from_to_bytes)
  have len: "length (header_to_bytes h @ ?B) = p + 65" "p + 65 < 2 ^ 63"
    using H(1) assms(2) by (simp_all add: meta p_def)
  have u: "unat (of_nat p :: u64) = p" "unat (of_nat (p + 45) :: u64) = p + 45" "unat (of_nat (p + 65) :: u64) = p + 65"
    using len(2) by (intro unat_of_nat_small, simp)+
  have decode: "decode_records (map event_record evs) (p - 64) = Inr evs"
    using decode_event_records [of "p - 64" evs] by (simp add: p_def)
  show "read_trace bytes = Inr evs"
    unfolding h(4) decode [symmetric]
    using H len h(2) u by (intro read_trace_records) (auto simp: event_log_records [symmetric] p_def simp del: map_map)
  obtain r d where r: "WperfReader_open (file_of (header_to_bytes h @ ?B)) = (Inr r, d)"
    "dev_bytes (r_inner r) = header_to_bytes h @ ?B" "dev_pos (r_inner r) = 64" "r_header r = h"
    "data_end r = min (data_section_end_offset h) (of_nat (length (header_to_bytes h @ ?B)))"
    using WperfReader_open_ok [OF H, of ?B] by auto
  have "unat (data_end r) = p"
    unfolding r(5) unat_min len(1) h(2) u by simp
  then have "\<exists>r'. same_file r r' \<and> read_all_loop [] r = (map_sum id ((@) []) (decode_records (map event_record evs) (p - 64)), r')"
    using r(2,3) len p_def H(1) meta by (intro read_records) (auto simp: event_log_records [symmetric] simp del: map_map)
  then obtain r' where r': "same_file r r'" "read_all_events r = (Inr evs, r')"
    by (auto simp: decode read_all_events_def)
  have bytes: "dev_bytes (r_inner r') = (header_to_bytes h @ event_log evs @ meta) @ section_table (of_nat p) 45 @ []"
    "dev_bytes (r_inner r') = (header_to_bytes h @ event_log evs) @ meta @ section_table (of_nat p) 45"
    "r_header r' = h"
    using r'(1) r(2,4) by (simp_all add: same_file_def)
  have entry: "find_metadata_section ((r_inner r')\<lparr>dev_pos := p + 45\<rparr>) =
      (Inr (Some (of_nat p, 45)), (r_inner r')\<lparr>dev_pos := p + 65\<rparr>)"
  proof -
    have "read_exact 20 ((r_inner r')\<lparr>dev_pos := p + 45\<rparr>) =
        (Inr (section_table (of_nat p) 45), (r_inner r')\<lparr>dev_pos := p + 65\<rparr>)"
      by (subst read_exact_app [where as = "header_to_bytes h @ event_log evs @ meta" and bs = "section_table (of_nat p) 45" and cs = "[]"])
        (use bytes(1) H(1) meta in \<open>simp_all add: p_def\<close>)
    moreover have "from_le_bytes (subslice 0 4 (section_table (of_nat p) 45)) = SECTION_ID_METADATA"
      "from_le_bytes (subslice 4 12 (section_table (of_nat p) 45)) = (of_nat p :: u64)"
      "from_le_bytes (subslice 12 20 (section_table (of_nat p) 45)) = (45 :: u64)"
      by (simp_all add: section_table_def subslice_def from_to_le_bytes)
    ultimately show ?thesis
      by (simp add: find_metadata_section.simps read_section_entry_def io_bind_def SECTION_ENTRY_SIZE_def)
  qed
  have st: "section_table_offset h \<noteq> 0"
    using u(2) unfolding h(3) by (metis add_is_0 unat_0 zero_neq_numeral)
  have payload: "read_exact 45 ((r_inner r')\<lparr>dev_pos := p\<rparr>) = (Inr meta, (r_inner r')\<lparr>dev_pos := p + 45\<rparr>)"
    by (subst read_exact_app [where as = "header_to_bytes h @ event_log evs" and bs = meta and cs = "section_table (of_nat p) 45"])
      (use bytes(2) H(1) meta in \<open>simp_all add: p_def\<close>)
  have "fst (read_metadata r') = Inr \<lparr>md_event_count = Some (of_nat (length evs)), md_drop_count = Some drop_count\<rparr>"
    using st bytes(3) entry payload parse_build_metadata [of "of_nat (length evs)" drop_count] u len(2)
    by (simp add: read_metadata_def io_bind_def on_inner_def seek_start_def h(3) MAX_PAYLOAD_SIZE_def word_less_nat_alt Let_def flip: meta_def)
  then show "read_trace_metadata bytes = Inr \<lparr>md_event_count = Some (of_nat (length evs)), md_drop_count = Some drop_count\<rparr>"
    using r(1) r'(2) h(4) by (simp add: read_trace_metadata_def)
qed

text \<open>Any bytes are a prefix of the bytes of some records, so that what is read from a record
  sequence tells what is read from any file.\<close>

lemma tlv_of_bytes:
  fixes B :: "u8 list"
  defines "B' \<equiv> B @ replicate 5 0"
  defines "len \<equiv> unat (from_le_bytes (subslice 1 5 B') :: u32)"
  defines "p \<equiv> take len (drop 5 B @ replicate len 0)"
  shows "tlv (B' ! 0, p) = take 5 B' @ p" "length p = len" "len < 2 ^ 32"
proof -
  show len: "length p = len" by (simp add: p_def)
  show "len < 2 ^ 32"
    using unsigned_less [of "from_le_bytes (subslice 1 5 B') :: u32", where ?'a = nat] by (simp add: len_def)
  have "length (subslice 1 5 B') = 4"
    by (simp add: subslice_def B'_def)
  then have "to_le_bytes 4 (of_nat len :: u32) = subslice 1 5 B'"
    by (simp add: len_def to_from_le_bytes_len)
  moreover have "take 5 B' = B' ! 0 # subslice 1 5 B'"
    by (cases B') (simp_all add: subslice_def B'_def)
  ultimately show "tlv (B' ! 0, p) = take 5 B' @ p"
    by (simp add: tlv_def len)
qed

lemma records_cover:
  assumes "n \<le> length B"
  shows "\<exists>recs. (\<forall>rec \<in> set recs. length (snd rec) < 2 ^ 32) \<and> n \<le> length (concat (map tlv recs)) \<and>
    take n B = take n (concat (map tlv recs))"
  using assms
proof (induction "length B" arbitrary: B n rule: less_induct)
  case less
  define B' where "B' = B @ replicate 5 0"
  define len where "len = unat (from_le_bytes (subslice 1 5 B') :: u32)"
  define p where "p = take len (drop 5 B @ replicate len 0)"
  have rec: "tlv (B' ! 0, p) = take 5 B' @ p" "length p = len" "len < 2 ^ 32"
    using tlv_of_bytes [of B] by (simp_all only: B'_def len_def p_def)
  show ?case
  proof (cases "5 + len \<le> length B")
    case True
    then have "n - (5 + len) \<le> length (drop (5 + len) B)" "length (drop (5 + len) B) < length B"
      using less.prems by auto
    from less.hyps [OF this(2,1)] obtain recs where recs: "\<forall>rec \<in> set recs. length (snd rec) < 2 ^ 32"
      "n - (5 + len) \<le> length (concat (map tlv recs))"
      "take (n - (5 + len)) (drop (5 + len) B) = take (n - (5 + len)) (concat (map tlv recs))"
      by blast
    have "take 5 B' @ p = take (5 + len) B"
      using True by (simp add: B'_def p_def take_add)
    then have "tlv (B' ! 0, p) = take (5 + len) B"
      using rec(1) by simp
    moreover have "take n B = take n (take (5 + len) B) @ take (n - (5 + len)) (drop (5 + len) B)"
      using True take_append [of n "take (5 + len) B" "drop (5 + len) B"]
      by (simp only: append_take_drop_id length_take min.absorb2)
    ultimately have "take n B = take n (concat (map tlv ((B' ! 0, p) # recs)))"
      using recs(3) True rec(2) by (simp add: take_append)
    then show ?thesis
      using recs(1,2) rec(2,3) by (intro exI [of _ "(B' ! 0, p) # recs"]) auto
  next
    case False
    then have "take n (tlv (B' ! 0, p)) = take n B"
      using less.prems take_add [of 5 "n - 5" B]
      unfolding rec(1) by (cases "5 \<le> length B"; cases "n \<le> 5") (simp_all add: B'_def p_def take_append min_def)
    then show ?thesis
      using less.prems rec(2,3) False by (intro exI [of _ "[(B' ! 0, p)]"]) auto
  qed
qed

lemma map_sum_eq_Inl_iff: "map_sum id f x = Inl e \<longleftrightarrow> x = Inl e"
  by (cases x) auto

lemma decode_records_error:
  "decode_records recs n = Inl e \<Longrightarrow> (\<exists>t l. e = PayloadTooLarge t l) \<or> (\<exists>t x l. e = UnexpectedPayloadSize t x l)"
  by (induction recs n rule: decode_records.induct) (auto split: if_splits simp: map_sum_eq_Inl_iff)

lemma decode_records_length: "decode_records recs n = Inr evs \<Longrightarrow> 45 * length evs \<le> n"
proof (induction recs n arbitrary: evs rule: decode_records.induct)
  case (2 t p recs n)
  show ?case
  proof (cases "\<not> n < 5 \<and> \<not> unat MAX_PAYLOAD_SIZE < length p \<and> \<not> n < 5 + length p")
    case True
    show ?thesis
    proof (cases "t = REC_TYPE_SCHED_EVENT")
      case sched: True
      with True "2.prems" obtain evs' where "length p = EVENT_SIZE" "decode_records recs (n - (5 + length p)) = Inr evs'"
        "evs = event_from_bytes p # evs'"
        by (cases "decode_records recs (n - (5 + length p))") (auto split: if_splits)
      then show ?thesis
        using "2.IH"(1) [of evs'] True sched by (auto simp: EVENT_SIZE_def)
    next
      case False
      then show ?thesis
        using "2.IH"(2) [of evs] True "2.prems" by simp
    qed
  next
    case False
    then show ?thesis using "2.prems" by (auto split: if_splits)
  qed
qed simp

section \<open>Properties\<close>

text \<open>Property C10. A trace survives the disk: recording any events with any drop count on a
  stream that accepts all bytes succeeds, and opening the bytes again yields exactly these
  events in this order, and the metadata with their number and the drop count.\<close>

theorem trace_round_trip:
  assumes "129 + 45 * length evs < 2 ^ 63"
  shows "\<exists>d. write_trace target evs drop_count (file_of []) = (Inr (), d) \<and>
    read_trace (dev_bytes d) = Inr evs \<and>
    read_trace_metadata (dev_bytes d) =
      Inr \<lparr>md_event_count = Some (of_nat (length evs)), md_drop_count = Some drop_count\<rparr>"
proof -
  have "64 + 45 * length evs + 65 < 2 ^ 63"
    using assms by simp
  from write_trace_ok [OF this, where target = target and drop_count = drop_count and b = None]
  obtain d where "write_trace target evs drop_count (file_of []) = (Inr (), d)" "complete_trace evs drop_count (dev_bytes d)"
    by (auto simp: file_of_def split: prod.splits sum.splits)
  then show ?thesis
    using read_complete [OF _ assms] by blast
qed

lemma trace_round_trip_witness:
  "\<exists>d. write_trace ''x86_64'' [event_from_bytes (replicate 40 7)] 3 (file_of []) = (Inr (), d) \<and>
    read_trace (dev_bytes d) = Inr [event_from_bytes (replicate 40 7)] \<and>
    read_trace_metadata (dev_bytes d) = Inr \<lparr>md_event_count = Some 1, md_drop_count = Some 3\<rparr>"
  using trace_round_trip [of "[event_from_bytes (replicate 40 7)]" "''x86_64''" 3] by simp

text \<open>Property C8. A recording that is interrupted after any number of bytes stays readable: if
  the stream accepts only a budget of bytes, the session either completes, and then the trace
  reads back whole, or fails, and then what is on the stream is either less than a header,
  which the reader rejects, or a file from which the reader returns, without an error, a
  prefix of the events, no other events and none torn.\<close>

theorem crash_recovery:
  assumes "129 + 45 * length evs < 2 ^ 63"
  shows "case write_trace target evs drop_count \<lparr>dev_bytes = [], dev_pos = 0, dev_budget = Some b\<rparr> of
      (Inr _, d) \<Rightarrow> read_trace (dev_bytes d) = Inr evs
    | (Inl _, d) \<Rightarrow>
        (if length (dev_bytes d) < 64 then read_trace (dev_bytes d) = Inl (Header (HeaderIo UnexpectedEof))
         else \<exists>k. read_trace (dev_bytes d) = Inr (take k evs))"
proof -
  have "64 + 45 * length evs + 65 < 2 ^ 63"
    using assms by simp
  from write_trace_ok [OF this, where target = target and drop_count = drop_count and b = "Some b"] show ?thesis
    using read_complete(1) [OF _ assms] read_recoverable [OF _ assms] read_trace_short
    by (fastforce split: prod.splits sum.splits)
qed

lemma crash_recovery_witness:
  "case write_trace ''x86_64'' [event_from_bytes (replicate 40 7)] 3 \<lparr>dev_bytes = [], dev_pos = 0, dev_budget = Some 70\<rparr> of
      (Inr _, d) \<Rightarrow> read_trace (dev_bytes d) = Inr [event_from_bytes (replicate 40 7)]
    | (Inl _, d) \<Rightarrow>
        (if length (dev_bytes d) < 64 then read_trace (dev_bytes d) = Inl (Header (HeaderIo UnexpectedEof))
         else \<exists>k. read_trace (dev_bytes d) = Inr (take k [event_from_bytes (replicate 40 7)]))"
  using crash_recovery [of "[event_from_bytes (replicate 40 7)]" "''x86_64''" 3 70] by simp

text \<open>Property C23. What the reader makes of a file with a valid header and any records behind it,
  of any types and lengths: the events of the scheduler records up to the bookmark or the end
  of the file, in order; records of other types are skipped; a record longer than the limit
  and a scheduler record of a wrong size stop the reading with the error that names them; a
  record the bookmark cuts off ends it without an error.\<close>

theorem reader_decodes:
  assumes "header_ok h" "length (header_to_bytes h @ concat (map tlv recs)) < 2 ^ 63"
    and "\<forall>rec \<in> set recs. length (snd rec) < 2 ^ 32"
  shows "read_trace (header_to_bytes h @ concat (map tlv recs)) =
    decode_records recs
      (min (unat (data_section_end_offset h)) (64 + length (concat (map tlv recs))) - 64)"
proof -
  have H: "length (header_to_bytes h) = 64" "header_from_bytes (header_to_bytes h) = Inr h"
    using assms(1) by (simp_all add: length_header_to_bytes header_from_to_bytes)
  show ?thesis
    using read_trace_records [OF H assms(2,3) refl] H by simp
qed

lemma reader_decodes_witness:
  "read_trace (header_to_bytes ((WprfHeader_new ''aarch64'')\<lparr>data_section_end_offset := 200\<rparr>) @
      concat (map tlv [(9, [1, 2]), (1, replicate 40 7), (1, [5])])) = Inl (UnexpectedPayloadSize 1 40 1)"
  using reader_decodes [of "(WprfHeader_new ''aarch64'')\<lparr>data_section_end_offset := 200\<rparr>"
      "[(9, [1, 2]), (1, replicate 40 7), (1, [5])]"]
  by (simp add: length_header_to_bytes unat_MAX_PAYLOAD_SIZE REC_TYPE_SCHED_EVENT_def EVENT_SIZE_def)

text \<open>Property C22. The reader is robust: on any file at all, of less than 2^63 bytes, it returns
  events or one of three errors, that of the header, an oversized record or a record of a
  wrong size; behind the header it never fails with an end-of-file error.\<close>

theorem reader_robust:
  assumes "length bytes < 2 ^ 63"
  shows "case read_trace bytes of
      Inr evs \<Rightarrow> 45 * length evs + 64 \<le> length bytes
    | Inl e \<Rightarrow> (\<exists>h. e = Header h) \<or> (\<exists>t l. e = PayloadTooLarge t l) \<or> (\<exists>t x l. e = UnexpectedPayloadSize t x l)"
proof (cases "length bytes < 64")
  case True
  then show ?thesis
    by (simp add: read_trace_short)
next
  case False
  define H B where "H = take 64 bytes" and "B = drop 64 bytes"
  have bytes: "bytes = H @ B" "length H = 64"
    using False by (simp_all add: H_def B_def)
  show ?thesis
  proof (cases "header_from_bytes H")
    case (Inl e)
    then show ?thesis
      using read_trace_bad [OF bytes(2) Inl, of B] by (simp add: bytes(1))
  next
    case (Inr h)
    define n where "n = min (unat (data_section_end_offset h)) (length (H @ B)) - 64"
    have n: "n \<le> length B" "n + 64 \<le> length bytes"
      using bytes by (auto simp: n_def)
    obtain recs where "\<forall>rec \<in> set recs. length (snd rec) < 2 ^ 32" "n \<le> length (concat (map tlv recs))"
      "take n B = take n (concat (map tlv recs))"
      using records_cover [OF n(1)] by blast
    then have "read_trace (H @ B) = decode_records recs n"
      using assms bytes Inr n_def by (intro read_trace_records) auto
    then show ?thesis
      using decode_records_error [of recs n] decode_records_length [of recs n] n(2)
      unfolding bytes(1) [symmetric] by (fastforce split: sum.splits)
  qed
qed

lemma reader_robust_witness:
  "case read_trace (replicate 100 7) of
      Inr evs \<Rightarrow> 45 * length evs + 64 \<le> 100
    | Inl e \<Rightarrow> (\<exists>h. e = Header h) \<or> (\<exists>t l. e = PayloadTooLarge t l) \<or> (\<exists>t x l. e = UnexpectedPayloadSize t x l)"
  using reader_robust [of "replicate 100 7"] unfolding length_replicate by simp

text \<open>Recording the 40 wire bytes of an event without decoding them is the same as
  recording the event they decode to: the same bytes, the same counters, the same errors.\<close>

theorem raw_write_agrees:
  assumes "length raw = 40"
  shows "write_event_raw raw w = write_event (event_from_bytes raw) w"
  using write_event_raw_eq [of "event_from_bytes raw"] assms by (simp add: event_to_from_bytes)

lemma raw_write_agrees_witness:
  "write_event_raw (replicate 40 7) w = write_event (event_from_bytes (replicate 40 7)) w"
  by (rule raw_write_agrees) simp

end
