(* ===== verification/Reorder.thy ===== *)
theory Reorder
  imports Event_Format
begin

text \<open>
  The reorder buffer of the perfarray path (\<open>src/transport/reorder.rs\<close>) and the order of events
  it shares with the pipeline: the derived \<open>Ord\<close> of \<open>WperfEvent\<close>, which compares all fields
  in declaration order. The \<open>BinaryHeap\<close> is used as a priority queue: the locale \<open>min_heap\<close>
  states what the buffer needs of one, the heap of the model is a list kept in order. A
  method that calls a callback returns the events it hands to it, in order.
\<close>

section \<open>The order of events\<close>

type_synonym event_ord = "u64 \<times> u32 \<times> u32 \<times> u32 \<times> u32 \<times> u32 \<times> u32 \<times> u16 \<times> u8 \<times> u8 \<times> u32"

definition event_key :: "WperfEvent \<Rightarrow> event_ord" where
  "event_key e = (timestamp_ns e, pid e, tid e, prev_tid e, next_tid e, prev_pid e, next_pid e, cpu e,
     event_type e, prev_state e, flags e)"

lemma event_key_inject [simp]: "event_key a = event_key b \<longleftrightarrow> a = b"
  by (cases a; cases b) (simp add: event_key_def)

lemma inj_event_key: "inj event_key"
  by (simp add: inj_def)

lemma event_key_timestamp: "event_key a \<le> event_key b \<Longrightarrow> timestamp_ns a \<le> timestamp_ns b"
  by (auto simp: event_key_def less_eq_prod_def)

lemma sorted_timestamps: "sorted (map event_key es) \<Longrightarrow> sorted (map timestamp_ns es)"
  by (induction es) (auto simp: event_key_timestamp)

text \<open>A sort by an injective key is determined by what is sorted.\<close>

lemma sort_key_mset:
  assumes "inj k" "mset xs = mset ys"
  shows "sort_key k xs = sort_key k ys"
proof -
  have "sort (map k xs) = sort (map k ys)"
    using assms(2) by (intro properties_for_sort) simp_all
  then have "map k (sort_key k xs) = map k (sort_key k ys)"
    using sort_key_map [of id k] by (simp add: sort_key_map id_def comp_def)
  then show ?thesis
    using assms(1) by (simp add: inj_map_eq_map)
qed

section \<open>Priority queues\<close>

text \<open>What a client of \<open>BinaryHeap<Reverse<T>>\<close> relies on: the contents as a multiset, \<open>push\<close>
  adds, \<open>pop\<close> takes out an element with a minimal key, and fails only when empty.\<close>

locale min_heap =
  fixes key :: "'a \<Rightarrow> 'k::linorder"
    and empty :: 'h
    and push :: "'a \<Rightarrow> 'h \<Rightarrow> 'h"
    and pop :: "'h \<Rightarrow> ('a \<times> 'h) option"
    and contents :: "'h \<Rightarrow> 'a multiset"
    and ok :: "'h \<Rightarrow> bool"
  assumes ok_empty: "ok empty" and contents_empty: "contents empty = {#}"
    and ok_push: "ok h \<Longrightarrow> ok (push x h)"
    and contents_push: "ok h \<Longrightarrow> contents (push x h) = add_mset x (contents h)"
    and pop_None: "ok h \<Longrightarrow> pop h = None \<longleftrightarrow> contents h = {#}"
    and pop_Some: "ok h \<Longrightarrow> pop h = Some (x, h') \<Longrightarrow>
      ok h' \<and> contents h = add_mset x (contents h') \<and> (\<forall>y \<in># contents h'. key x \<le> key y)"
begin

text \<open>The elements taken out by popping \<open>n\<close> times.\<close>

fun pops :: "nat \<Rightarrow> 'h \<Rightarrow> 'a list" where
  "pops 0 h = []"
| "pops (Suc n) h = (case pop h of None \<Rightarrow> [] | Some (x, h') \<Rightarrow> x # pops n h')"

lemma set_pops: "ok h \<Longrightarrow> set (pops n h) \<subseteq> set_mset (contents h)"
proof (induction n arbitrary: h)
  case (Suc n)
  show ?case
  proof (cases "pop h")
    case (Some p)
    then obtain x h' where p: "pop h = Some (x, h')" by (cases p) auto
    with pop_Some [OF Suc.prems p] Suc.IH [of h'] show ?thesis by auto
  qed simp
qed simp

lemma sorted_pops: "ok h \<Longrightarrow> sorted (map key (pops n h))"
proof (induction n arbitrary: h)
  case (Suc n)
  show ?case
  proof (cases "pop h")
    case (Some p)
    then obtain x h' where p: "pop h = Some (x, h')" by (cases p) auto
    with pop_Some [OF Suc.prems p] Suc.IH [of h'] set_pops [of h' n] show ?thesis by auto
  qed simp
qed simp

lemma mset_pops: "ok h \<Longrightarrow> size (contents h) \<le> n \<Longrightarrow> mset (pops n h) = contents h"
proof (induction n arbitrary: h)
  case 0
  then show ?case by simp
next
  case (Suc n)
  show ?case
  proof (cases "pop h")
    case None
    then show ?thesis using pop_None [OF Suc.prems(1)] by simp
  next
    case (Some p)
    then obtain x h' where p: "pop h = Some (x, h')" by (cases p) auto
    have h': "ok h'" "contents h = add_mset x (contents h')"
      using pop_Some [OF Suc.prems(1) p] by auto
    with Suc.IH [of h'] Suc.prems(2) p show ?thesis by simp
  qed
qed

end

section \<open>The buffer\<close>

definition heap_push :: "WperfEvent \<Rightarrow> WperfEvent list \<Rightarrow> WperfEvent list" where
  "heap_push e h = insort_key event_key e h"

fun heap_pop :: "WperfEvent list \<Rightarrow> (WperfEvent \<times> WperfEvent list) option" where
  "heap_pop [] = None"
| "heap_pop (e # h) = Some (e, h)"

fun heap_peek :: "WperfEvent list \<Rightarrow> WperfEvent option" where
  "heap_peek [] = None"
| "heap_peek (e # h) = Some e"

definition heap_ok :: "WperfEvent list \<Rightarrow> bool" where
  "heap_ok h \<longleftrightarrow> sorted (map event_key h)"

interpretation event_heap: min_heap event_key "[]" heap_push heap_pop mset heap_ok
proof unfold_locales
  fix h x h'
  assume "heap_ok h" "heap_pop h = Some (x, h')"
  then show "heap_ok h' \<and> mset h = add_mset x (mset h') \<and> (\<forall>y \<in># mset h'. event_key x \<le> event_key y)"
    by (cases h) (auto simp: heap_ok_def)
next
  show "heap_pop h = None \<longleftrightarrow> mset h = {#}" for h
    by (cases h) auto
qed (auto simp: heap_ok_def heap_push_def sorted_insort_key)

definition DEFAULT_WINDOW_NS :: u64 where "DEFAULT_WINDOW_NS = 50000000"

record ReorderBuf =
  heap :: "WperfEvent list"
  newest_ts :: u64
  window_ns :: u64

definition with_window :: "u64 \<Rightarrow> ReorderBuf" where
  "with_window window = \<lparr>heap = [], newest_ts = 0, window_ns = window\<rparr>"

definition ReorderBuf_new :: ReorderBuf where
  "ReorderBuf_new = with_window DEFAULT_WINDOW_NS"

text \<open>The loop of \<open>flush_expired\<close>: the events handed to the callback, and the heap left.\<close>

function flush_loop :: "u64 \<Rightarrow> WperfEvent list \<Rightarrow> WperfEvent list \<times> WperfEvent list" where
  "flush_loop cutoff h =
     (case heap_peek h of
        None \<Rightarrow> ([], h)
      | Some oldest \<Rightarrow>
          if timestamp_ns oldest \<le> cutoff then
            (case heap_pop h of
               None \<Rightarrow> ([], h)
             | Some (event, h') \<Rightarrow> let (out, h'') = flush_loop cutoff h' in (event # out, h''))
          else ([], h))"
  by pat_completeness auto
termination
  by (relation "measure (\<lambda>(c, h). length h)") (auto elim: heap_pop.elims)

declare flush_loop.simps [simp del]

definition flush_expired :: "ReorderBuf \<Rightarrow> WperfEvent list \<times> ReorderBuf" where
  "flush_expired b =
     (let cutoff = saturating_sub (newest_ts b) (window_ns b); (out, h) = flush_loop cutoff (heap b)
      in (out, b\<lparr>heap := h\<rparr>))"

definition reorder_push :: "WperfEvent \<Rightarrow> ReorderBuf \<Rightarrow> WperfEvent list \<times> ReorderBuf" where
  "reorder_push event b =
     (let b = (if newest_ts b < timestamp_ns event then b\<lparr>newest_ts := timestamp_ns event\<rparr> else b);
          b = b\<lparr>heap := heap_push event (heap b)\<rparr>
      in flush_expired b)"

function reorder_drain_loop :: "WperfEvent list \<Rightarrow> WperfEvent list" where
  "reorder_drain_loop h = (case heap_pop h of None \<Rightarrow> [] | Some (event, h') \<Rightarrow> event # reorder_drain_loop h')"
  by pat_completeness auto
termination
  by (relation "measure length") (auto elim: heap_pop.elims)

declare reorder_drain_loop.simps [simp del]

definition reorder_drain :: "ReorderBuf \<Rightarrow> WperfEvent list \<times> ReorderBuf" where
  "reorder_drain b = (reorder_drain_loop (heap b), b\<lparr>heap := [], newest_ts := 0\<rparr>)"

definition reorder_len :: "ReorderBuf \<Rightarrow> nat" where
  "reorder_len b = length (heap b)"

definition reorder_is_empty :: "ReorderBuf \<Rightarrow> bool" where
  "reorder_is_empty b \<longleftrightarrow> heap b = []"

text \<open>A client: pushes, one after the other, then the drain.\<close>

fun push_all :: "WperfEvent list \<Rightarrow> ReorderBuf \<Rightarrow> WperfEvent list \<times> ReorderBuf" where
  "push_all [] b = ([], b)"
| "push_all (e # es) b = (let (out, b) = reorder_push e b; (out', b) = push_all es b in (out @ out', b))"

definition reorder_all :: "WperfEvent list \<Rightarrow> ReorderBuf \<Rightarrow> WperfEvent list" where
  "reorder_all es b = (let (out, b) = push_all es b in out @ fst (reorder_drain b))"

section \<open>What comes out\<close>

lemma reorder_drain_loop_eq: "reorder_drain_loop h = h"
  by (induction h) (simp_all add: reorder_drain_loop.simps)

lemma flush_loop_eq:
  "flush_loop cutoff h = (takeWhile (\<lambda>e. timestamp_ns e \<le> cutoff) h, dropWhile (\<lambda>e. timestamp_ns e \<le> cutoff) h)"
  by (induction h) (simp_all add: flush_loop.simps)

lemma heap_timestamps: "heap_ok h \<Longrightarrow> sorted (map timestamp_ns h)"
  by (simp add: heap_ok_def sorted_timestamps)

definition cutoff_of :: "ReorderBuf \<Rightarrow> u64" where
  "cutoff_of b = saturating_sub (newest_ts b) (window_ns b)"

lemma dropWhile_sorted:
  fixes f :: "'a \<Rightarrow> 'b::linorder"
  assumes "sorted (map f xs)" "x \<in> set (dropWhile (\<lambda>y. f y \<le> c) xs)"
  shows "c < f x"
  using assms by (induction xs) (auto split: if_splits)

lemma sorted_takeWhile_map: "sorted (map f xs) \<Longrightarrow> sorted (map f (takeWhile P xs))"
  by (metis sorted_append takeWhile_dropWhile_id map_append)

lemma sorted_dropWhile_map: "sorted (map f xs) \<Longrightarrow> sorted (map f (dropWhile P xs))"
  by (metis sorted_append takeWhile_dropWhile_id map_append)

lemma reorder_push_eq:
  defines "n' e b \<equiv> max (newest_ts b) (timestamp_ns e)"
  shows "reorder_push e b =
    (let c = saturating_sub (n' e b) (window_ns b); h = insort_key event_key e (heap b)
     in (takeWhile (\<lambda>x. timestamp_ns x \<le> c) h,
         b\<lparr>heap := dropWhile (\<lambda>x. timestamp_ns x \<le> c) h, newest_ts := n' e b\<rparr>))"
  by (auto simp: reorder_push_def flush_expired_def flush_loop_eq heap_push_def n'_def max_def Let_def)

text \<open>One push: nothing is lost or invented, the heap stays in order, what is handed out lies
  at or below the new cutoff, what stays lies above it.\<close>

lemma reorder_push_ok:
  assumes "heap_ok (heap b)" "reorder_push e b = (out, b')"
  shows "heap_ok (heap b')" "mset out + mset (heap b') = add_mset e (mset (heap b))"
    "newest_ts b' = max (newest_ts b) (timestamp_ns e)" "window_ns b' = window_ns b"
    "sorted (map event_key out)" "\<And>x. x \<in> set out \<Longrightarrow> timestamp_ns x \<le> cutoff_of b'"
    "\<And>x. x \<in> set (heap b') \<Longrightarrow> cutoff_of b' < timestamp_ns x"
    "\<And>x. x \<in> set out \<Longrightarrow> x = e \<or> x \<in> set (heap b)"
proof -
  define c where "c = saturating_sub (max (newest_ts b) (timestamp_ns e)) (window_ns b)"
  define h where "h = insort_key event_key e (heap b)"
  have eq: "out = takeWhile (\<lambda>x. timestamp_ns x \<le> c) h"
    "b' = b\<lparr>heap := dropWhile (\<lambda>x. timestamp_ns x \<le> c) h, newest_ts := max (newest_ts b) (timestamp_ns e)\<rparr>"
    using assms(2) by (simp_all add: reorder_push_eq c_def h_def Let_def)
  have h: "sorted (map event_key h)" "sorted (map timestamp_ns h)"
    using assms(1) by (simp_all add: h_def heap_ok_def sorted_insort_key sorted_timestamps)
  have cut: "cutoff_of b' = c"
    by (simp add: cutoff_of_def eq c_def)
  show "heap_ok (heap b')"
    using sorted_dropWhile_map [OF h(1)] by (simp add: eq heap_ok_def)
  show "mset out + mset (heap b') = add_mset e (mset (heap b))"
    unfolding eq by (simp flip: mset_append) (simp add: h_def)
  show "sorted (map event_key out)"
    using h(1) by (simp add: eq sorted_takeWhile_map)
  show "timestamp_ns x \<le> cutoff_of b'" if "x \<in> set out" for x
    using that set_takeWhileD by (fastforce simp: eq(1) cut)
  show "cutoff_of b' < timestamp_ns x" if "x \<in> set (heap b')" for x
    using dropWhile_sorted [OF h(2), of x c] that unfolding cut by (simp add: eq(2))
  show "x = e \<or> x \<in> set (heap b)" if "x \<in> set out" for x
    using that set_takeWhileD by (fastforce simp: eq(1) h_def set_insort_key)
qed (use assms(2) in \<open>auto simp: reorder_push_eq Let_def\<close>)

lemma push_all_ok:
  assumes "heap_ok (heap b)" "push_all es b = (out, b')"
  shows "heap_ok (heap b') \<and> mset out + mset (heap b') = mset (heap b) + mset es \<and> window_ns b' = window_ns b \<and>
    newest_ts b' = fold max (map timestamp_ns es) (newest_ts b) \<and>
    ((\<forall>x \<in> set (heap b). cutoff_of b < timestamp_ns x) \<longrightarrow> (\<forall>x \<in> set (heap b'). cutoff_of b' < timestamp_ns x))"
  using assms
proof (induction es arbitrary: b out)
  case Nil
  then show ?case by simp
next
  case (Cons e es)
  obtain o1 b1 where push: "reorder_push e b = (o1, b1)" by fastforce
  obtain o2 where rest: "push_all es b1 = (o2, b')" "out = o1 @ o2"
    using Cons.prems(2) push by (auto simp: Let_def split: prod.splits)
  note p = reorder_push_ok [OF Cons.prems(1) push]
  note q = Cons.IH [OF p(1) rest(1)]
  have "mset out + mset (heap b') = mset o1 + (mset o2 + mset (heap b'))"
    by (simp add: rest(2) ac_simps)
  also have "\<dots> = (mset o1 + mset (heap b1)) + mset es"
    using q by (simp add: ac_simps)
  also have "\<dots> = mset (heap b) + mset (e # es)"
    using p(2) by simp
  finally show ?case
    using p(3,4,7) q by (simp add: max.commute)
qed

lemma unat_cutoff_le: "saturating_sub n w \<le> t \<longleftrightarrow> unat n \<le> unat t + unat w"
  by (auto simp: word_le_nat_alt unat_saturating_sub)

text \<open>If no event is later than an earlier one by more than the window, the output of the
  pushes is in order, and below all that stays.\<close>

lemma push_all_sorted:
  assumes "heap_ok (heap b)" "push_all es b = (out, b')"
    and "sorted_wrt (\<lambda>x y. unat (timestamp_ns x) \<le> unat (timestamp_ns y) + unat (window_ns b)) es"
    and "\<forall>x \<in> set es. unat (newest_ts b) \<le> unat (timestamp_ns x) + unat (window_ns b)"
    and "\<forall>x \<in> set (heap b). cutoff_of b < timestamp_ns x"
  shows "sorted (map timestamp_ns out) \<and> (\<forall>x \<in> set out. cutoff_of b \<le> timestamp_ns x \<and> timestamp_ns x \<le> cutoff_of b') \<and>
    cutoff_of b \<le> cutoff_of b'"
  using assms
proof (induction es arbitrary: b out)
  case Nil
  then show ?case by simp
next
  case (Cons e es)
  obtain o1 b1 where push: "reorder_push e b = (o1, b1)" by fastforce
  obtain o2 where rest: "push_all es b1 = (o2, b')" "out = o1 @ o2"
    using Cons.prems(2) push by (auto simp: Let_def split: prod.splits)
  note p = reorder_push_ok [OF Cons.prems(1) push]
  have late: "cutoff_of b \<le> timestamp_ns e"
    using Cons.prems(4) by (simp add: cutoff_of_def unat_cutoff_le)
  have o1: "cutoff_of b \<le> timestamp_ns x \<and> timestamp_ns x \<le> cutoff_of b1" if "x \<in> set o1" for x
    using p(6,8) [OF that] late Cons.prems(5) by (auto simp: less_imp_le)
  have mono: "cutoff_of b \<le> cutoff_of b1"
    by (simp add: cutoff_of_def p(3,4) word_le_nat_alt unat_saturating_sub max_def) linarith
  have "\<forall>x \<in> set es. unat (newest_ts b1) \<le> unat (timestamp_ns x) + unat (window_ns b1)"
    using Cons.prems(3,4) by (simp add: p(3,4) max_def)
  then have q: "sorted (map timestamp_ns o2) \<and> (\<forall>x \<in> set o2. cutoff_of b1 \<le> timestamp_ns x \<and> timestamp_ns x \<le> cutoff_of b') \<and>
      cutoff_of b1 \<le> cutoff_of b'"
    using Cons.prems(3) p(4,7) by (intro Cons.IH [OF p(1) rest(1)]) auto
  have "sorted (map timestamp_ns o1)"
    using p(5) by (rule sorted_timestamps)
  then show ?case
    using q o1 mono by (auto simp: rest(2) sorted_append intro: order_trans)
qed

lemma reorder_all_eq:
  "push_all es b = (out, b') \<Longrightarrow> reorder_all es b = out @ heap b'"
  by (simp add: reorder_all_def reorder_drain_def reorder_drain_loop_eq)

lemma reorder_all_mset: "mset (reorder_all es (with_window window)) = mset es"
proof -
  obtain out b' where p: "push_all es (with_window window) = (out, b')" by fastforce
  have "heap_ok (heap (with_window window))"
    by (simp add: with_window_def heap_ok_def)
  from push_all_ok [OF this p] show ?thesis
    by (simp add: reorder_all_eq [OF p]) (simp add: with_window_def)
qed

lemma reorder_all_sorted:
  assumes "sorted_wrt (\<lambda>x y. unat (timestamp_ns x) \<le> unat (timestamp_ns y) + unat window) es"
  shows "sorted (map timestamp_ns (reorder_all es (with_window window)))"
proof -
  let ?b = "with_window window"
  obtain out b' where p: "push_all es ?b = (out, b')" by fastforce
  have ok: "heap_ok (heap ?b)" "\<forall>x \<in> set (heap ?b). cutoff_of ?b < timestamp_ns x" "window_ns ?b = window" "newest_ts ?b = 0"
    by (simp_all add: with_window_def heap_ok_def)
  have out: "sorted (map timestamp_ns out)" "\<forall>x \<in> set out. timestamp_ns x \<le> cutoff_of b'"
    using push_all_sorted [OF ok(1) p] assms ok by auto
  have rest: "sorted (map timestamp_ns (heap b'))" "\<forall>x \<in> set (heap b'). cutoff_of b' < timestamp_ns x"
    using push_all_ok [OF ok(1) p] ok(2) by (auto intro: heap_timestamps)
  have "timestamp_ns x \<le> timestamp_ns y" if "x \<in> set out" "y \<in> set (heap b')" for x y
    using that out(2) rest(2) by (meson less_imp_le order_trans)
  then show ?thesis
    using out(1) rest(1) by (auto simp: reorder_all_eq [OF p] sorted_append)
qed

section \<open>Properties\<close>

text \<open>The buffer is a permutation: whatever is pushed comes out exactly once, during
  the pushes or in the final drain, in whatever order and with whatever timestamps it came.\<close>

theorem reorder_permutes: "mset (reorder_all es (with_window window)) = mset es"
  by (rule reorder_all_mset)

text \<open>Property C35. The buffer sorts under bounded disorder: if every event arrives no later
  than the window behind any event before it, the output is in timestamp order.\<close>

theorem reorder_sorts:
  assumes "sorted_wrt (\<lambda>x y. unat (timestamp_ns x) \<le> unat (timestamp_ns y) + unat window) es"
  shows "sorted (map timestamp_ns (reorder_all es (with_window window)))"
  using assms by (rule reorder_all_sorted)

text \<open>Property C36. Latency is bounded: the buffer knows the newest timestamp; an event still
  buffered after the pushes is less than the window older than that, so that the buffer never
  holds more than a window of events; and a push hands out only events at least the window
  older than the newest, or with timestamp zero.\<close>

theorem reorder_latency:
  assumes "push_all es (with_window window) = (out, b)"
  shows "newest_ts b = fold max (map timestamp_ns es) 0 \<and>
    (\<forall>x \<in> set (heap b). timestamp_ns x \<le> newest_ts b \<and> unat (newest_ts b) - unat (timestamp_ns x) < unat window) \<and>
    (\<forall>e out' b'. reorder_push e b = (out', b') \<longrightarrow> (\<forall>x \<in> set out'. timestamp_ns x = 0 \<or>
       unat window \<le> unat (newest_ts b') - unat (timestamp_ns x)))"
proof (intro conjI allI impI ballI)
  have ok: "heap_ok (heap (with_window window))" "\<forall>x \<in> set (heap (with_window window)). cutoff_of (with_window window) < timestamp_ns x"
    "window_ns (with_window window) = window" "newest_ts (with_window window) = 0" "heap (with_window window) = []"
    by (simp_all add: with_window_def heap_ok_def)
  note p = push_all_ok [OF ok(1) assms]
  have b: "heap_ok (heap b)" "window_ns b = window" "mset out + mset (heap b) = mset es"
    "newest_ts b = fold max (map timestamp_ns es) 0" "\<forall>x \<in> set (heap b). cutoff_of b < timestamp_ns x"
    using p ok by auto
  show "newest_ts b = fold max (map timestamp_ns es) 0" by (rule b(4))
  show newest: "timestamp_ns x \<le> newest_ts b" if "x \<in> set (heap b)" for x
  proof -
    have "x \<in> set es"
      using that b(3) by (metis set_mset_mset union_iff)
    then have "timestamp_ns x \<in> set (0 # map timestamp_ns es)" by simp
    then have "timestamp_ns x \<le> Max (set (0 # map timestamp_ns es))"
      by (intro Max_ge) simp_all
    also have "\<dots> = newest_ts b"
      unfolding b(4) by (rule Max.set_eq_fold)
    finally show ?thesis .
  qed
  show "unat (newest_ts b) - unat (timestamp_ns x) < unat window" if "x \<in> set (heap b)" for x
  proof -
    have "unat (newest_ts b) - unat window < unat (timestamp_ns x)"
      using b(5) that by (simp add: cutoff_of_def word_less_nat_alt unat_saturating_sub b(2))
    then show ?thesis
      using newest [OF that] unfolding word_le_nat_alt by linarith
  qed
  show "timestamp_ns x = 0 \<or> unat window \<le> unat (newest_ts b') - unat (timestamp_ns x)"
    if "reorder_push e b = (out', b')" "x \<in> set out'" for e out' b' x
  proof -
    have "timestamp_ns x \<le> cutoff_of b'" "window_ns b' = window"
      using reorder_push_ok [OF b(1) that(1)] that(2) b(2) by auto
    then have "unat (timestamp_ns x) \<le> unat (newest_ts b') - unat window"
      by (simp add: cutoff_of_def word_le_nat_alt unat_saturating_sub)
    then show ?thesis
      by (cases "timestamp_ns x = 0") (auto simp: unat_gt_0 [symmetric] simp del: unat_gt_0)
  qed
qed

text \<open>Two events out of order by less than the window.\<close>

definition event_at :: "u64 \<Rightarrow> WperfEvent" where
  "event_at ts = \<lparr>timestamp_ns = ts, pid = 1, tid = 1, prev_tid = 0, next_tid = 0, prev_pid = 0, next_pid = 0,
     cpu = 0, event_type = 1, prev_state = 0, flags = 0\<rparr>"

lemma reorder_sorts_witness:
  "sorted (map timestamp_ns (reorder_all [event_at 30, event_at 25, event_at 50] (with_window 10)))"
  by (rule reorder_sorts) (simp add: event_at_def)

lemma reorder_latency_witness:
  "newest_ts (snd (push_all [event_at 30, event_at 25] (with_window 10))) = 30"
  using reorder_latency [of "[event_at 30, event_at 25]" 10, OF prod.collapse [symmetric]]
  by (simp add: event_at_def)

end
