(* ===== verification/Pipeline.thy ===== *)
theory Pipeline
  imports Correlate Reader Reorder
begin

text \<open>
  The pipeline (\<open>src/pipeline.rs\<close>): all events of a trace are read, sorted by the full derived
  order of \<open>WperfEvent\<close> and correlated. The lemmas show that reading a trace changes nothing
  of the reader but its position, and that the pipeline fails only when reading does.
\<close>

section \<open>Operations\<close>

datatype PipelineError = PipelineReader ReaderError

fun PipelineError_fmt :: "(IoError \<Rightarrow> string) \<Rightarrow> PipelineError \<Rightarrow> string" where
  "PipelineError_fmt io_fmt (PipelineReader e) = ''reader error: '' @ ReaderError_fmt io_fmt e"

fun PipelineError_source :: "PipelineError \<Rightarrow> ReaderError option" where
  "PipelineError_source (PipelineReader e) = Some e"

record PipelineStats =
  events_read :: u64
  correlation :: CorrelationStats

text \<open>\<open>sort_unstable\<close> on events: equal events cannot be told apart, so that it is the sort by
  the key of the order.\<close>

definition sort_events :: "WperfEvent list \<Rightarrow> WperfEvent list" where
  "sort_events events = sort_key event_key events"

text \<open>The result is \<open>None\<close> for a panic; otherwise an error or the graph and the statistics, and
  the reader after it.\<close>

definition build_wait_for_graph ::
    "'g wfg_api \<Rightarrow> ((u32, PendingEdge) mapping \<Rightarrow> (u32 \<times> PendingEdge) list) \<Rightarrow> u64 \<Rightarrow> WperfReader \<Rightarrow>
     ((PipelineError + 'g WaitForGraph \<times> PipelineStats) \<times> WperfReader) option" where
  "build_wait_for_graph api drain spurious_threshold_ns reader =
     (case read_all_events reader of
        (Inl e, reader) \<Rightarrow> Some (Inl (PipelineReader e), reader)
      | (Inr events, reader) \<Rightarrow>
          let n = of_nat (length events); events = sort_events events
          in do {
            (graph, correlation) \<leftarrow> correlate_events api drain events spurious_threshold_ns;
            Some (Inr (graph, \<lparr>events_read = n, correlation = correlation\<rparr>), reader)
          })"

section \<open>The reader after reading\<close>

text \<open>Reading moves the position and changes nothing else.\<close>

definition moved :: "WperfReader \<Rightarrow> WperfReader \<Rightarrow> bool" where
  "moved r r' \<longleftrightarrow> (\<exists>p. r' = r\<lparr>r_inner := (r_inner r)\<lparr>dev_pos := p\<rparr>\<rparr>)"

lemma moved_refl [simp]: "moved r r"
  by (auto simp: moved_def intro!: exI [of _ "dev_pos (r_inner r)"])

lemma moved_trans: "moved r s \<Longrightarrow> moved s t \<Longrightarrow> moved r t"
  by (auto simp: moved_def)

lemma next_step_moved: "next_step r = (x, r') \<Longrightarrow> moved r r'"
  by (auto simp: next_step_def io_bind_def on_inner_read_tlv on_inner_read_event Let_def moved_def
      intro: exI [of _ "dev_pos (r_inner r)"] split: if_splits)

lemma next_event_moved: "next_event r = (x, r') \<Longrightarrow> moved r r'"
proof (induction r rule: next_event.induct)
  case (1 r)
  obtain y s where y: "next_step r = (y, s)" by fastforce
  note step = next_step_moved [OF y]
  show ?case
    using "1.prems" "1.IH" [OF y [symmetric]] step y
    by (subst (asm) next_event.simps) (auto split: sum.splits option.splits intro: moved_trans)
qed

lemma read_all_loop_moved: "read_all_loop evs r = (x, r') \<Longrightarrow> moved r r'"
proof (induction evs r rule: read_all_loop.induct)
  case (1 evs r)
  obtain y s where y: "next_event r = (y, s)" by fastforce
  note step = next_event_moved [OF y]
  show ?case
    using "1.prems" "1.IH" [OF y [symmetric]] step y
    by (subst (asm) read_all_loop.simps) (auto split: sum.splits option.splits intro: moved_trans)
qed

lemma read_all_events_moved: "read_all_events r = (x, r') \<Longrightarrow> moved r r'"
  unfolding read_all_events_def by (rule read_all_loop_moved)

lemma seek_moved:
  "moved r r' \<Longrightarrow> fst (io_bind (on_inner (seek_start p)) f r') = fst (io_bind (on_inner (seek_start p)) f r)"
  by (auto simp: moved_def on_inner_def seek_start_def io_bind_def)

lemma read_metadata_moved:
  assumes "moved r r'"
  shows "fst (read_metadata r') = fst (read_metadata r)"
proof -
  have "r_header r' = r_header r"
    using assms by (auto simp: moved_def)
  then show ?thesis
    by (simp add: read_metadata_def io_bind_def [of io_get] Let_def seek_moved [OF assms])
qed

section \<open>From a file to the graph\<close>

definition trace_graph ::
    "'g wfg_api \<Rightarrow> ((u32, PendingEdge) mapping \<Rightarrow> (u32 \<times> PendingEdge) list) \<Rightarrow> u64 \<Rightarrow> u8 list \<Rightarrow>
     (PipelineError + 'g WaitForGraph \<times> PipelineStats) option" where
  "trace_graph api drain thr bytes =
     (case WperfReader_open (file_of bytes) of
        (Inl e, _) \<Rightarrow> Some (Inl (PipelineReader e))
      | (Inr r, _) \<Rightarrow> map_option fst (build_wait_for_graph api drain thr r))"

lemma trace_graph_eq:
  "trace_graph api drain thr bytes =
     (case read_trace bytes of
        Inl e \<Rightarrow> Some (Inl (PipelineReader e))
      | Inr evs \<Rightarrow> map_option (\<lambda>(g, st). Inr (g, \<lparr>events_read = of_nat (length evs), correlation = st\<rparr>))
          (correlate_events api drain (sort_events evs) thr))"
proof (cases "WperfReader_open (file_of bytes)")
  case (Pair x d)
  show ?thesis
  proof (cases x)
    case (Inr r)
    obtain y r' where "read_all_events r = (y, r')" by fastforce
    with Pair Inr show ?thesis
      by (cases y; cases "correlate_events api drain (sort_events (projr y)) thr")
        (auto simp: trace_graph_def read_trace_def build_wait_for_graph_def Let_def)
  qed (simp add: Pair trace_graph_def read_trace_def)
qed

lemma sort_events_mset: "mset xs = mset ys \<Longrightarrow> sort_events xs = sort_events ys"
  unfolding sort_events_def by (rule sort_key_mset [OF inj_event_key])

lemma recorded_trace:
  assumes "129 + 45 * length evs < 2 ^ 63"
  obtains d where "write_trace target evs drop_count (file_of []) = (Inr (), d)" "read_trace (dev_bytes d) = Inr evs"
    "read_trace_metadata (dev_bytes d) = Inr \<lparr>md_event_count = Some (of_nat (length evs)), md_drop_count = Some drop_count\<rparr>"
proof -
  have "64 + 45 * length evs + 65 < 2 ^ 63"
    using assms by simp
  from write_trace_ok [OF this, where target = target and drop_count = drop_count and b = None]
  obtain d where d: "write_trace target evs drop_count (file_of []) = (Inr (), d)" "complete_trace evs drop_count (dev_bytes d)"
    by (auto simp: file_of_def split: prod.splits sum.splits)
  then show thesis
    using that read_complete [OF d(2) assms] by blast
qed

text \<open>A trace file: the events of \<open>demo_trace\<close> in reverse order.\<close>

definition demo_file :: "u8 list" where
  "demo_file = dev_bytes (snd (write_trace ''x86_64'' (rev demo_trace) 0 (file_of [])))"

lemma demo_file_ok: "read_trace demo_file = Inr (rev demo_trace)"
  and demo_file_metadata: "read_trace_metadata demo_file = Inr \<lparr>md_event_count = Some 5, md_drop_count = Some 0\<rparr>"
proof -
  have "129 + 45 * length (rev demo_trace) < 2 ^ 63"
    by (simp add: demo_trace_def)
  from recorded_trace [OF this, where target = "''x86_64''" and drop_count = 0] obtain d where
    "write_trace ''x86_64'' (rev demo_trace) 0 (file_of []) = (Inr (), d)" "read_trace (dev_bytes d) = Inr (rev demo_trace)"
    "read_trace_metadata (dev_bytes d) = Inr \<lparr>md_event_count = Some (of_nat (length (rev demo_trace))), md_drop_count = Some 0\<rparr>"
    by blast
  then show "read_trace demo_file = Inr (rev demo_trace)"
    "read_trace_metadata demo_file = Inr \<lparr>md_event_count = Some 5, md_drop_count = Some 0\<rparr>"
    by (simp_all add: demo_file_def demo_trace_def)
qed

lemma sort_demo_trace: "sort_events (rev demo_trace) = demo_trace"
proof -
  have "sorted (map event_key demo_trace)"
    by (simp add: demo_trace_def demo_event_def event_key_def less_eq_prod_def)
  then have "sort_events demo_trace = demo_trace"
    unfolding sort_events_def by (rule sort_key_id_if_sorted)
  then show ?thesis
    using sort_events_mset [of "rev demo_trace" demo_trace] by simp
qed

section \<open>Properties\<close>

text \<open>The pipeline on any file never panics. It fails exactly when reading the trace
  fails, with that error; otherwise it yields a well-formed graph, counts every event of the
  trace, and the edges of each thread are those its automaton emits on the events in order of
  time.\<close>

theorem pipeline_total:
  assumes "petgraph api" "drain_ok drain"
  shows "case read_trace bytes of
      Inl e \<Rightarrow> trace_graph api drain thr bytes = Some (Inl (PipelineReader e))
    | Inr evs \<Rightarrow> \<exists>g st. trace_graph api drain thr bytes = Some (Inr (g, st)) \<and> wfg_inv api g \<and>
        events_read st = of_nat (length evs) \<and> events_processed (correlation st) = of_nat (length evs) \<and>
        edges_created (correlation st) = of_nat (edge_count api g) \<and>
        (\<forall>t. filter (\<lambda>(s, d, ew). s = ThreadId (uint t) \<and> wait_type ew \<noteq> Some IoBlock) (wfg_edges api g) =
           thread_edges thr t (sort_events evs))"
proof (cases "read_trace bytes")
  case (Inr evs)
  obtain g s where g: "correlate_events api drain (sort_events evs) thr =
      Some (g, (stats s)\<lparr>edges_created := edges_created (stats s) + of_nat (Mapping.size (pending_edges s)),
        io_pending_at_end_count := of_nat (Mapping.size (pending_io s))\<rparr>)"
    "graph_ok api g" "books api s = books_of (sort_events evs)"
    "edges_created (stats s) + of_nat (Mapping.size (pending_edges s)) - of_nat (edge_count api g) = b_edges (books_of (sort_events evs))"
    "\<forall>t. emitted t (wfg_edges api g) = thread_edges thr t (sort_events evs)"
    using wfg_graph.correlate_events_ok [OF wfg_graph.intro [OF assms(1)] assms(2), of "sort_events evs" thr] by blast
  have "events_processed (stats s) = of_nat (length evs)"
    using arg_cong [OF g(3), of b_events] by (simp add: books_def books_of_eq sort_events_def)
  moreover have "edges_created (stats s) + of_nat (Mapping.size (pending_edges s)) = of_nat (edge_count api g)"
    using g(4) by (simp add: books_of_eq)
  ultimately show ?thesis
    using g(1,2,5) by (simp add: Inr trace_graph_eq graph_ok_def emitted_def user_thread_def)
qed (simp add: trace_graph_eq)

lemma pipeline_total_witness:
  "\<exists>g st. trace_graph adj_api mapping_entries 50000 demo_file = Some (Inr (g, st)) \<and> events_read st = 5"
  using pipeline_total [OF adj.petgraph_axioms drain_ok_entries, where bytes = demo_file and thr = 50000]
  unfolding demo_file_ok by (auto simp: demo_trace_def)

end
