(* ===== verification/Dot.thy ===== *)
theory Dot
  imports Output Pipeline
begin

text \<open>
  The Graphviz backends (\<open>src/dot.rs\<close>), with the error type of the report command
  (\<open>src/report.rs\<close>), which they return. \<open>render_dot\<close> is a function to strings; the external
  \<open>dot\<close> process of \<open>render_svg\<close> is an argument: what spawning it yields and, once it runs, the
  result of waiting for it and of the thread that writes its input. The lemmas show that the
  output is a sequence of well-formed lines that declares every node once, and that it
  depends on the multiset of the edges and determines it.
\<close>

section \<open>The error of the report command\<close>

datatype ReportError =
    ReportIo IoError
  | ReportPipeline PipelineError
  | ReportCascade InvariantError
  | GraphvizNotFound
  | GraphvizFailed (exit_code: "int option") (stderr: string)

fun ReportError_fmt :: "(IoError \<Rightarrow> string) \<Rightarrow> ReportError \<Rightarrow> string" where
  "ReportError_fmt io_fmt (ReportIo e) = ''I/O error: '' @ io_fmt e"
| "ReportError_fmt io_fmt (ReportPipeline e) = ''pipeline error: '' @ PipelineError_fmt io_fmt e"
| "ReportError_fmt io_fmt (ReportCascade e) = ''cascade invariant error: '' @ InvariantError_fmt e"
| "ReportError_fmt io_fmt GraphvizNotFound =
     ''Graphviz '' @ [CHR 0x27] @ ''dot'' @ [CHR 0x27] @ '' not found in PATH; '' @
     ''install graphviz (https://graphviz.org) or use --format dot''"
| "ReportError_fmt io_fmt (GraphvizFailed code err) =
     ''Graphviz '' @ [CHR 0x27] @ ''dot'' @ [CHR 0x27] @ '' failed'' @
     (case code of Some c \<Rightarrow> '' (exit code '' @ show_int c @ '')'' | None \<Rightarrow> []) @
     (if err \<noteq> [] then '': '' @ take 1024 err else [])"

text \<open>The error a report error is caused by.\<close>

datatype ErrorSource = IoSource IoError | PipelineSource PipelineError | CascadeSource InvariantError

fun ReportError_source :: "ReportError \<Rightarrow> ErrorSource option" where
  "ReportError_source (ReportIo e) = Some (IoSource e)"
| "ReportError_source (ReportPipeline e) = Some (PipelineSource e)"
| "ReportError_source (ReportCascade e) = Some (CascadeSource e)"
| "ReportError_source GraphvizNotFound = None"
| "ReportError_source (GraphvizFailed _ _) = None"

section \<open>DOT\<close>

text \<open>\<open>writeln!\<close> to a string: the text and a newline.\<close>

definition writeln :: "string \<Rightarrow> string" where
  "writeln l = l @ [CHR 0x0A]"

definition dot_id :: "int \<Rightarrow> string" where
  "dot_id t = (if t < 0 then ''neg_'' @ show_nat (nat (- t)) else ''t'' @ show_int t)"

definition dot_nodes :: "CascadeResult \<Rightarrow> int list" where
  "dot_nodes cascade =
     remdups_adj (sort (concat (map (\<lambda>e. [tid_val (eo_src e), tid_val (eo_dst e)]) (cr_edges cascade))))"

definition dot_edges :: "CascadeResult \<Rightarrow> EdgeOutput list" where
  "dot_edges cascade =
     sort_key (\<lambda>e. (eo_src e, eo_dst e, eo_attributed_delay_ms e, eo_raw_wait_ms e)) (cr_edges cascade)"

definition node_line :: "int \<Rightarrow> string" where
  "node_line t = ''    '' @ dot_id t @ '' [label='' @ [CHR 0x22] @ ThreadId_fmt (ThreadId t) @ [CHR 0x22] @ ''];''"

definition edge_line :: "EdgeOutput \<Rightarrow> string" where
  "edge_line e = ''    '' @ dot_id (tid_val (eo_src e)) @ '' -> '' @ dot_id (tid_val (eo_dst e)) @
     '' [label='' @ [CHR 0x22] @ show_nat (unat (eo_attributed_delay_ms e)) @ ''ms (raw '' @
     show_nat (unat (eo_raw_wait_ms e)) @ ''ms)'' @ [CHR 0x22] @ ''];''"

definition render_dot :: "CascadeResult \<Rightarrow> string" where
  "render_dot cascade =
     writeln ''digraph wperf {'' @ writeln ''    rankdir=LR;'' @ writeln ''    node [shape=box];'' @
     concat (map (\<lambda>t. writeln (node_line t)) (dot_nodes cascade)) @
     concat (map (\<lambda>e. writeln (edge_line e)) (dot_edges cascade)) @
     writeln ''}''"

section \<open>SVG\<close>

record Output =
  status_code :: "int option"
  out_stdout :: "u8 list"
  out_stderr :: "u8 list"

definition status_success :: "Output \<Rightarrow> bool" where
  "status_success o' \<longleftrightarrow> status_code o' = Some 0"

text \<open>A run of the process: the result of waiting for it, and of writing its input.\<close>

record DotRun =
  wait_result :: "IoError + Output"
  writer_result :: "IoError + unit"

text \<open>The environment: spawning a command with arguments on an input, and the decoding of its
  error output (\<open>String::from_utf8_lossy\<close>).\<close>

record DotEnv =
  spawn :: "string \<Rightarrow> string list \<Rightarrow> u8 list \<Rightarrow> IoError + DotRun"
  utf8_lossy :: "u8 list \<Rightarrow> string"

definition render_svg_with_command :: "DotEnv \<Rightarrow> CascadeResult \<Rightarrow> string \<Rightarrow> ReportError + u8 list" where
  "render_svg_with_command env cascade dot_command =
     (let dot_input = render_dot cascade
      in case spawn env dot_command [''-Tsvg''] (ascii dot_input) of
        Inl e \<Rightarrow> Inl (if e = NotFound then GraphvizNotFound else ReportIo e)
      | Inr run \<Rightarrow>
          (case wait_result run of
             Inl e \<Rightarrow> Inl (ReportIo e)
           | Inr output \<Rightarrow>
               if \<not> status_success output
               then Inl (GraphvizFailed (status_code output) (utf8_lossy env (out_stderr output)))
               else (case writer_result run of
                   Inl e \<Rightarrow> Inl (ReportIo e)
                 | Inr _ \<Rightarrow> Inr (out_stdout output))))"

definition render_svg :: "DotEnv \<Rightarrow> CascadeResult \<Rightarrow> ReportError + u8 list" where
  "render_svg env cascade = render_svg_with_command env cascade ''dot''"

section \<open>Lines\<close>

lemma lines_writeln: "CHR 0x0A \<notin> set l \<Longrightarrow> lines (writeln l @ cs) = l # lines cs"
  unfolding writeln_def by (induction l) auto

lemma lines_concat:
  "(\<And>x. x \<in> set xs \<Longrightarrow> CHR 0x0A \<notin> set (f x)) \<Longrightarrow>
   lines (concat (map (\<lambda>x. writeln (f x)) xs) @ cs) = map f xs @ lines cs"
  by (induction xs) (simp_all add: lines_writeln)

lemma digits_exclude [simp]: "of_char c < (48 :: nat) \<or> 58 \<le> (of_char c :: nat) \<Longrightarrow> c \<notin> set (show_nat n)"
  using show_nat_digits [of c n] by fastforce

text \<open>Texts up to a separator that does not occur in them.\<close>

lemma sep_inject:
  assumes "c \<notin> set xs" "c \<notin> set xs'"
  shows "xs @ c # ys = xs' @ c # ys' \<longleftrightarrow> xs = xs' \<and> ys = ys'"
  using assms
proof (induction xs arbitrary: xs')
  case Nil
  then show ?case by (cases xs') auto
next
  case (Cons x xs)
  then show ?case by (cases xs') auto
qed

lemma show_int_nat: "0 \<le> t \<Longrightarrow> show_int t = show_nat (nat t)"
  by (simp add: show_int_def)

lemma dot_id_chars [simp]: "CHR '' '' \<notin> set (dot_id t)" "CHR 0x0A \<notin> set (dot_id t)"
  by (auto simp: dot_id_def show_int_nat)

lemma dot_id_inject [simp]: "dot_id a = dot_id b \<longleftrightarrow> a = b"
  by (auto simp: dot_id_def)

lemma fmt_chars: "CHR 0x0A \<notin> set (ThreadId_fmt t)"
  by (auto simp: ThreadId_fmt_def show_int_def)

lemma no_newline: "CHR 0x0A \<notin> set (node_line t)" "CHR 0x0A \<notin> set (edge_line e)"
  by (auto simp: node_line_def edge_line_def fmt_chars)

lemma edge_line_inject [simp]: "edge_line a = edge_line b \<longleftrightarrow> a = b"
proof
  assume eq: "edge_line a = edge_line b"
  have "dot_id (tid_val (eo_src a)) = dot_id (tid_val (eo_src b)) \<and>
      dot_id (tid_val (eo_dst a)) = dot_id (tid_val (eo_dst b)) \<and>
      show_nat (unat (eo_attributed_delay_ms a)) = show_nat (unat (eo_attributed_delay_ms b)) \<and>
      show_nat (unat (eo_raw_wait_ms a)) = show_nat (unat (eo_raw_wait_ms b))"
    using eq by (simp add: edge_line_def sep_inject)
  then show "a = b"
    by (cases a; cases b) (auto simp: word_unat_eq_iff intro: ThreadId.expand)
qed simp

lemma edge_node_line: "edge_line e \<noteq> node_line t"
  by (simp add: edge_line_def node_line_def sep_inject)

lemma edge_line_brace: "edge_line e \<noteq> ''}''"
  by (simp add: edge_line_def)

lemma lines_render:
  "lines (render_dot c) = [''digraph wperf {'', ''    rankdir=LR;'', ''    node [shape=box];''] @
     map node_line (dot_nodes c) @ map edge_line (dot_edges c) @ [''}'']"
  by (simp add: render_dot_def lines_writeln lines_concat no_newline) (simp add: writeln_def)

lemma dot_nodes_eq: "sorted (dot_nodes c)" "distinct (dot_nodes c)"
  "set (dot_nodes c) = (\<lambda>e. tid_val (eo_src e)) ` set (cr_edges c) \<union> (\<lambda>e. tid_val (eo_dst e)) ` set (cr_edges c)"
  by (auto simp: dot_nodes_def distinct_remdups_adj_sorted)

lemma dot_edges_mset: "mset (dot_edges c) = mset (cr_edges c)"
  by (simp add: dot_edges_def)

lemma dot_edges_cong:
  assumes "mset (cr_edges a) = mset (cr_edges b)"
  shows "dot_edges a = dot_edges b"
proof -
  have "inj (\<lambda>e :: EdgeOutput. (eo_src e, eo_dst e, eo_attributed_delay_ms e, eo_raw_wait_ms e))"
    by (auto simp: inj_def)
  then show ?thesis
    unfolding dot_edges_def using assms by (rule sort_key_mset)
qed

lemma dot_nodes_cong:
  assumes "mset (cr_edges a) = mset (cr_edges b)"
  shows "dot_nodes a = dot_nodes b"
proof -
  have "set (dot_nodes a) = set (dot_nodes b)"
    using assms unfolding dot_nodes_eq(3) by (metis set_mset_mset)
  then show ?thesis
    using dot_nodes_eq(1,2) by (metis sorted_distinct_set_unique)
qed

text \<open>How rendering to SVG ends: it yields the output of \<open>dot\<close> only if the process
  ran, exited with success and took all of its input; a missing executable is reported as
  such; and when the process failed, its own status and error output are reported, whatever
  happened to the thread that was feeding it.\<close>

lemma svg_outcome:
  "render_svg env c =
    (case spawn env ''dot'' [''-Tsvg''] (ascii (render_dot c)) of
       Inl NotFound \<Rightarrow> Inl GraphvizNotFound
     | Inl e \<Rightarrow> Inl (ReportIo e)
     | Inr run \<Rightarrow>
         (case (wait_result run, writer_result run) of
            (Inl e, _) \<Rightarrow> Inl (ReportIo e)
          | (Inr out, written) \<Rightarrow>
              if status_code out \<noteq> Some 0 then Inl (GraphvizFailed (status_code out) (utf8_lossy env (out_stderr out)))
              else if written = Inr () then Inr (out_stdout out)
              else Inl (ReportIo (projl written))))"
  by (auto simp: render_svg_def render_svg_with_command_def Let_def status_success_def
      split: sum.splits IoError.splits)

section \<open>Properties\<close>

text \<open>The DOT output is well formed: its lines are the fixed frame around one line
  per node and one line per edge, where the nodes are exactly the end points of the edges,
  each declared once, in ascending order and under an identifier of its own, and the edge
  lines are those of the edges of the result, each as often as it occurs.\<close>

theorem dot_well_formed:
  "\<exists>ns es. lines (render_dot c) = [''digraph wperf {'', ''    rankdir=LR;'', ''    node [shape=box];''] @
     map node_line ns @ map edge_line es @ [''}''] \<and>
   sorted ns \<and> distinct (map dot_id ns) \<and> mset es = mset (cr_edges c) \<and>
   set ns = (\<lambda>e. tid_val (eo_src e)) ` set (cr_edges c) \<union> (\<lambda>e. tid_val (eo_dst e)) ` set (cr_edges c)"
  using dot_nodes_eq [of c] dot_edges_mset [of c]
  by (intro exI [of _ "dot_nodes c"] exI [of _ "dot_edges c"])
    (simp add: lines_render distinct_map inj_on_def)

text \<open>Property C37. The DOT output is a function of the edges and determines them: two results
  are rendered to the same text exactly when they hold the same edges with the same weights,
  in whatever order.\<close>

theorem dot_determines_edges:
  "render_dot a = render_dot b \<longleftrightarrow> mset (cr_edges a) = mset (cr_edges b)"
proof
  assume "mset (cr_edges a) = mset (cr_edges b)"
  then show "render_dot a = render_dot b"
    by (simp add: render_dot_def dot_nodes_cong [of a b] dot_edges_cong [of a b])
next
  assume "render_dot a = render_dot b"
  then have "map node_line (dot_nodes a) @ map edge_line (dot_edges a) @ [''}''] =
      map node_line (dot_nodes b) @ map edge_line (dot_edges b) @ [''}'']"
    using lines_render [of a] lines_render [of b] by simp
  note filtered = arg_cong [OF this, of "filter (\<lambda>l. l \<in> range edge_line)"]
  have "filter (\<lambda>l. l \<in> range edge_line) (map node_line ns @ map edge_line es @ [''}'']) = map edge_line es"
    for ns es
    using edge_node_line [THEN not_sym] edge_line_brace [THEN not_sym] by (auto simp: filter_empty_conv)
  with filtered have "map edge_line (dot_edges a) = map edge_line (dot_edges b)"
    by (simp only:)
  then have "dot_edges a = dot_edges b"
    by (simp add: inj_map_eq_map inj_def)
  then show "mset (cr_edges a) = mset (cr_edges b)"
    by (metis dot_edges_mset)
qed

end
