(* ===== verification/Tarjan.thy ===== *)
theory Tarjan
  imports Wfg
begin

text \<open>
  Strongly connected components and the condensation DAG (\<open>src/scc/tarjan.rs\<close>).
  \<open>petgraph::algo::tarjan_scc\<close> is the argument \<open>tarjan\<close>; the condensation is a second petgraph
  graph, over its own operations \<open>dapi\<close>. The lemmas show that the components partition the
  threads by mutual reachability, and that the condensation has one edge per pair of
  different components joined by an edge, with the largest attributed delay as its weight.
\<close>

section \<open>State and operations\<close>

record Scc =
  members :: "ThreadId list"

record SuperNode =
  scc_index :: nat
  sn_members :: "ThreadId list"
  weight :: u64

record 'd CondensationDag =
  dag :: 'd
  scc_node_map :: "(ThreadId, nat) mapping"

type_synonym 'd dag_api = "('d, SuperNode, u64) petgraph_api"

definition super_node :: "'d dag_api \<Rightarrow> 'd CondensationDag \<Rightarrow> nat \<Rightarrow> SuperNode option" where
  "super_node dapi c idx = pg_node_weight dapi (dag c) idx"

text \<open>\<open>super_node_mut\<close> followed by a write through the reference, as a modification.\<close>

definition super_node_mut ::
    "'d dag_api \<Rightarrow> 'd CondensationDag \<Rightarrow> nat \<Rightarrow> (SuperNode \<Rightarrow> SuperNode) \<Rightarrow> 'd CondensationDag option" where
  "super_node_mut dapi c idx f = do {
     sn \<leftarrow> pg_node_weight dapi (dag c) idx;
     d \<leftarrow> pg_set_node_weight dapi (dag c) idx (f sn);
     Some (c\<lparr>dag := d\<rparr>)
   }"

definition scc_of :: "'d CondensationDag \<Rightarrow> ThreadId \<Rightarrow> nat option" where
  "scc_of c t = Mapping.lookup (scc_node_map c) t"

definition dag_node_count :: "'d dag_api \<Rightarrow> 'd CondensationDag \<Rightarrow> nat" where
  "dag_node_count dapi c = pg_node_count dapi (dag c)"

definition dag_edge_count :: "'d dag_api \<Rightarrow> 'd CondensationDag \<Rightarrow> nat" where
  "dag_edge_count dapi c = pg_edge_count dapi (dag c)"

definition all_super_nodes :: "'d dag_api \<Rightarrow> 'd CondensationDag \<Rightarrow> (nat \<times> SuperNode) list option" where
  "all_super_nodes dapi c = do {
     sns \<leftarrow> those (map (\<lambda>idx. map_option (Pair idx) (pg_node_weight dapi (dag c) idx))
              (pg_node_indices dapi (dag c)));
     Some (sort_key fst sns)
   }"

definition out_degree :: "'d dag_api \<Rightarrow> 'd CondensationDag \<Rightarrow> nat \<Rightarrow> nat" where
  "out_degree dapi c idx = length (pg_edges_directed dapi (dag c) idx Outgoing)"

definition sinks :: "'d dag_api \<Rightarrow> 'd CondensationDag \<Rightarrow> nat list" where
  "sinks dapi c = filter (\<lambda>idx. out_degree dapi c idx = 0) (pg_node_indices dapi (dag c))"

definition scc_members :: "'g wfg_api \<Rightarrow> 'g WaitForGraph \<Rightarrow> nat list \<Rightarrow> Scc option" where
  "scc_members api g component = do {
     ms \<leftarrow> those (map (thread_id api g) component);
     Some \<lparr>members = sort ms\<rparr>
   }"

definition find_sccs :: "'g wfg_api \<Rightarrow> ('g \<Rightarrow> nat list list) \<Rightarrow> 'g WaitForGraph \<Rightarrow> Scc list option" where
  "find_sccs api tarjan g = those (map (scc_members api g) (tarjan (graph g)))"

text \<open>The two loops of \<open>build_condensation\<close>: one super-node per component, then the weight of
  each pair of components, starting from 0 and raised to the maximum.\<close>

definition add_super_node ::
    "'d dag_api \<Rightarrow> nat \<times> Scc \<Rightarrow> 'd \<times> (ThreadId, nat) mapping \<Rightarrow> 'd \<times> (ThreadId, nat) mapping" where
  "add_super_node dapi p st =
     (case p of (i, scc) \<Rightarrow> case st of (d, m) \<Rightarrow>
        let (d', idx) = pg_add_node dapi d \<lparr>scc_index = i, sn_members = members scc, weight = 0\<rparr>
        in (d', fold (\<lambda>t. Mapping.update t idx) (members scc) m))"

definition add_cross_edge ::
    "(ThreadId, nat) mapping \<Rightarrow> full_edge_ref \<Rightarrow> (nat \<times> nat, u64) mapping \<Rightarrow>
     (nat \<times> nat, u64) mapping option" where
  "add_cross_edge m r weights =
     (case r of (_, src_tid, dst_tid, ew) \<Rightarrow> do {
        src_scc \<leftarrow> Mapping.lookup m src_tid;
        dst_scc \<leftarrow> Mapping.lookup m dst_tid;
        Some (if src_scc \<noteq> dst_scc
              then Mapping.update (src_scc, dst_scc)
                     (max (unwrap_or 0 (Mapping.lookup weights (src_scc, dst_scc))) (attributed_delay_ms ew))
                     weights
              else weights) })"

definition build_condensation ::
    "'g wfg_api \<Rightarrow> 'd dag_api \<Rightarrow> ('g \<Rightarrow> nat list list) \<Rightarrow> 'g WaitForGraph \<Rightarrow> 'd CondensationDag option" where
  "build_condensation api dapi tarjan g = do {
     sccs \<leftarrow> find_sccs api tarjan g;
     let (d, m) = fold (add_super_node dapi) (enumerate 0 sccs) (pg_new dapi, Mapping.empty);
     es \<leftarrow> all_edges api g;
     edge_weights \<leftarrow> foldM (add_cross_edge m) es Mapping.empty;
     d' \<leftarrow> foldM (\<lambda>((src, dst), w) d. map_option fst (pg_add_edge dapi d src dst w))
            (mapping_entries edge_weights) d;
     Some \<lparr>dag = d', scc_node_map = m\<rparr>
   }"

definition internal_edges ::
    "'g wfg_api \<Rightarrow> 'g WaitForGraph \<Rightarrow> Scc \<Rightarrow> (ThreadId \<times> ThreadId \<times> EdgeWeight) list option" where
  "internal_edges api g scc = do {
     ess \<leftarrow> those (map (\<lambda>src_tid. do {
         src_idx \<leftarrow> node_index g src_tid;
         es \<leftarrow> outgoing_edges api g src_idx;
         Some (map (\<lambda>(_, dst_tid, ew). (src_tid, dst_tid, ew))
           (filter (\<lambda>(_, dst_tid, _). binary_search_is_ok (members scc) dst_tid) es)) })
       (members scc));
     Some (concat ess)
   }"

section \<open>Components as a partition of the threads\<close>

definition wait_rel :: "'g wfg_api \<Rightarrow> 'g WaitForGraph \<Rightarrow> (ThreadId \<times> ThreadId) set" where
  "wait_rel api g = (\<lambda>(s, d, ew). (s, d)) ` set (wfg_edges api g)"

text \<open>A list of member lists is the list of the strongly connected components of a relation
  on a set of threads, sinks first.\<close>

definition sccs_ok :: "(ThreadId \<times> ThreadId) set \<Rightarrow> ThreadId set \<Rightarrow> ThreadId list list \<Rightarrow> bool" where
  "sccs_ok R T cs \<longleftrightarrow>
     distinct (concat cs) \<and> [] \<notin> set cs \<and> set (concat cs) = T \<and> (\<forall>c \<in> set cs. sorted c) \<and>
     (\<forall>c \<in> set cs. \<forall>s \<in> set c. \<forall>t \<in> T. t \<in> set c \<longleftrightarrow> (s, t) \<in> R\<^sup>* \<and> (t, s) \<in> R\<^sup>*) \<and>
     (\<forall>i < length cs. \<forall>j < length cs. \<forall>s \<in> set (cs ! i). \<forall>t \<in> set (cs ! j). (s, t) \<in> R \<longrightarrow> j \<le> i)"

text \<open>The attributed delays of the edges from one set of threads to another.\<close>

definition cross_delays ::
    "(ThreadId \<times> ThreadId \<times> EdgeWeight) list \<Rightarrow> ThreadId list \<Rightarrow> ThreadId list \<Rightarrow> u64 list" where
  "cross_delays E c c' =
     map (\<lambda>(s, d, ew). attributed_delay_ms ew) (filter (\<lambda>(s, d, ew). s \<in> set c \<and> d \<in> set c') E)"

lemma set_cross_delays:
  "x \<in> set (cross_delays E c c') \<longleftrightarrow>
   (\<exists>s d ew. (s, d, ew) \<in> set E \<and> s \<in> set c \<and> d \<in> set c' \<and> x = attributed_delay_ms ew)"
  by (force simp: cross_delays_def)

lemma distinct_concat_index:
  assumes "distinct (concat cs)" "i < length cs" "j < length cs" "x \<in> set (cs ! i)" "x \<in> set (cs ! j)"
  shows "i = j"
  using assms
proof (induction cs arbitrary: i j)
  case (Cons c cs)
  have "x \<in> set (concat cs)" if "x \<in> set (cs ! k)" "k < length cs" for k
    using that by auto
  then show ?case
    using Cons by (cases i; cases j) auto
qed simp

lemma in_component_index: "x \<in> set (concat cs) \<longleftrightarrow> (\<exists>i < length cs. x \<in> set (cs ! i))"
  by (auto simp: in_set_conv_nth [of _ cs]) (metis nth_mem)

context wfg_graph
begin

lemma wait_rel_iff:
  assumes "wfg_inv api g" "i < pg_node_count api (graph g)" "j < pg_node_count api (graph g)"
  shows "(nw_tid (pg_nodes api (graph g) ! i), nw_tid (pg_nodes api (graph g) ! j)) \<in> wait_rel api g \<longleftrightarrow>
    (i, j) \<in> pg_rel api (graph g)"
proof -
  have inj: "nw_tid (pg_nodes api (graph g) ! a) = nw_tid (pg_nodes api (graph g) ! b) \<longleftrightarrow> a = b"
    if "a < pg_node_count api (graph g)" "b < pg_node_count api (graph g)" for a b
    using inv_lookup_nth [OF assms(1) that(1)] inv_lookup_nth [OF assms(1) that(2)]
    by (metis option.inject)
  have bound: "s < pg_node_count api (graph g) \<and> d < pg_node_count api (graph g)"
    if "(s, d, ew) \<in> set (pg_edges api (graph g))" for s d ew
    using assms(1) that by (auto simp: wfg_inv_def)
  show ?thesis
  proof
    assume "(i, j) \<in> pg_rel api (graph g)"
    then show "(nw_tid (pg_nodes api (graph g) ! i), nw_tid (pg_nodes api (graph g) ! j)) \<in> wait_rel api g"
      by (force simp: wait_rel_def pg_rel_def wfg_edges_def)
  next
    assume "(nw_tid (pg_nodes api (graph g) ! i), nw_tid (pg_nodes api (graph g) ! j)) \<in> wait_rel api g"
    then obtain s d ew where e: "(s, d, ew) \<in> set (pg_edges api (graph g))"
      "nw_tid (pg_nodes api (graph g) ! i) = nw_tid (pg_nodes api (graph g) ! s)"
      "nw_tid (pg_nodes api (graph g) ! j) = nw_tid (pg_nodes api (graph g) ! d)"
      by (auto simp: wait_rel_def wfg_edges_def)
    then have "s = i" "d = j"
      using inj bound assms(2,3) by metis+
    with e(1) show "(i, j) \<in> pg_rel api (graph g)"
      by (force simp: pg_rel_def)
  qed
qed

lemma pg_rel_bound:
  assumes "wfg_inv api g" "(i, j) \<in> pg_rel api (graph g)"
  shows "i < pg_node_count api (graph g)" "j < pg_node_count api (graph g)"
  using assms by (auto simp: pg_rel_def wfg_inv_def)

lemma wait_rel_rtrancl:
  assumes "wfg_inv api g" "i < pg_node_count api (graph g)" "j < pg_node_count api (graph g)"
  shows "(nw_tid (pg_nodes api (graph g) ! i), nw_tid (pg_nodes api (graph g) ! j)) \<in> (wait_rel api g)\<^sup>* \<longleftrightarrow>
    (i, j) \<in> (pg_rel api (graph g))\<^sup>*" (is "(?t i, ?t j) \<in> _ \<longleftrightarrow> _")
proof
  assume "(i, j) \<in> (pg_rel api (graph g))\<^sup>*"
  then show "(?t i, ?t j) \<in> (wait_rel api g)\<^sup>*"
  proof induction
    case (step k l)
    then have "(?t k, ?t l) \<in> wait_rel api g"
      using wait_rel_iff [OF assms(1)] pg_rel_bound [OF assms(1)] by blast
    with step.IH show ?case by (rule rtrancl.rtrancl_into_rtrancl)
  qed simp
next
  have trace: "\<exists>k. k < pg_node_count api (graph g) \<and> ?t k = t \<and> (i, k) \<in> (pg_rel api (graph g))\<^sup>*"
    if "(?t i, t) \<in> (wait_rel api g)\<^sup>*" for t
    using that
  proof induction
    case base
    then show ?case using assms(2) by blast
  next
    case (step u v)
    then obtain k where k: "k < pg_node_count api (graph g)" "?t k = u" "(i, k) \<in> (pg_rel api (graph g))\<^sup>*"
      by blast
    have "v \<in> wfg_threads g"
      using step.hyps(2) edges_in_threads(2) [OF assms(1)] by (auto simp: wait_rel_def)
    then obtain l where l: "l < pg_node_count api (graph g)" "?t l = v"
      using assms(1) by (auto simp: in_wfg_threads inv_node)
    with step.hyps(2) k show ?case
      using wait_rel_iff [OF assms(1) k(1) l(1)] by (metis rtrancl.rtrancl_into_rtrancl)
  qed
  assume "(?t i, ?t j) \<in> (wait_rel api g)\<^sup>*"
  then obtain k where "k < pg_node_count api (graph g)" "?t k = ?t j" "(i, k) \<in> (pg_rel api (graph g))\<^sup>*"
    using trace by blast
  then show "(i, j) \<in> (pg_rel api (graph g))\<^sup>*"
    using inv_lookup_nth [OF assms(1)] assms(3) by (metis option.inject)
qed

lemma find_sccs_ok:
  assumes "wfg_inv api g" "tarjan_ok api (graph g) (tarjan (graph g))"
  obtains cs where "find_sccs api tarjan g = Some (map (\<lambda>c. \<lparr>members = c\<rparr>) cs)"
    "sccs_ok (wait_rel api g) (wfg_threads g) cs"
proof -
  let ?n = "pg_node_count api (graph g)" and ?ts = "tarjan (graph g)"
  let ?t = "\<lambda>i. nw_tid (pg_nodes api (graph g) ! i)"
  define cs where "cs = map (\<lambda>c. sort (map ?t c)) ?ts"
  note tarjan = assms(2) [unfolded tarjan_ok_def]
  have less: "i < ?n" if "c \<in> set ?ts" "i \<in> set c" for c i
    using tarjan that by auto
  have inj: "inj_on ?t {..<?n}"
    using inv_lookup_nth [OF assms(1)] by (intro inj_onI) (metis lessThan_iff option.inject)
  have "scc_members api g c = Some \<lparr>members = sort (map ?t c)\<rparr>" if "c \<in> set ?ts" for c
  proof -
    have "those (map (thread_id api g) c) = Some (map ?t c)"
      using less [OF that] by (intro those_map_Some) (simp add: thread_id_eq)
    then show ?thesis by (simp add: scc_members_def)
  qed
  then have find: "find_sccs api tarjan g = Some (map (\<lambda>c. \<lparr>members = c\<rparr>) cs)"
    by (simp add: find_sccs_def cs_def comp_def those_map_Some [where g = "\<lambda>c. \<lparr>members = sort (map ?t c)\<rparr>"])
  have "mset (concat cs) = mset (map ?t (concat ?ts))"
    by (induction ?ts) (simp_all add: cs_def mset_concat comp_def map_concat)
  then have parts: "distinct (concat cs)" "set (concat cs) = ?t ` {..<?n}"
    using tarjan inj by (metis distinct_map mset_eq_imp_distinct_iff, metis mset_eq_setD set_map)
  have threads: "?t ` {..<?n} = wfg_threads g"
    using assms(1) by (auto simp: in_wfg_threads inv_node inv_lookup_nth image_iff)
  have reach: "t \<in> set c \<longleftrightarrow> (s, t) \<in> (wait_rel api g)\<^sup>* \<and> (t, s) \<in> (wait_rel api g)\<^sup>*"
    if c: "c \<in> set cs" and s: "s \<in> set c" and t: "t \<in> wfg_threads g" for c s t
  proof -
    obtain c' i where c': "c' \<in> set ?ts" "c = sort (map ?t c')" "i \<in> set c'" "s = ?t i"
      using c s by (auto simp: cs_def)
    obtain j where j: "j < ?n" "t = ?t j"
      using t assms(1) by (auto simp: in_wfg_threads inv_node)
    have "t \<in> set c \<longleftrightarrow> j \<in> set c'"
      using c' j less inj by (auto simp: inj_on_def)
    also have "\<dots> \<longleftrightarrow> (i, j) \<in> (pg_rel api (graph g))\<^sup>* \<and> (j, i) \<in> (pg_rel api (graph g))\<^sup>*"
      using tarjan c'(1,3) j(1) by blast
    finally show ?thesis
      using wait_rel_rtrancl [OF assms(1)] less [OF c'(1,3)] j c'(4) by simp
  qed
  have topo: "j \<le> i" if ij: "i < length cs" "j < length cs" "s \<in> set (cs ! i)" "t \<in> set (cs ! j)"
      "(s, t) \<in> wait_rel api g" for i j s t
  proof -
    obtain u v where uv: "u \<in> set (?ts ! i)" "s = ?t u" "v \<in> set (?ts ! j)" "t = ?t v"
      using ij by (auto simp: cs_def)
    have "u < ?n" "v < ?n"
      using ij(1,2) uv(1,3) less [of "?ts ! i" u] less [of "?ts ! j" v] by (simp_all add: cs_def)
    with uv ij(5) have "(u, v) \<in> pg_rel api (graph g)"
      using wait_rel_iff [OF assms(1)] by simp
    moreover have "\<forall>i < length ?ts. \<forall>j < length ?ts. \<forall>u \<in> set (?ts ! i). \<forall>v \<in> set (?ts ! j).
        (u, v) \<in> pg_rel api (graph g) \<longrightarrow> j \<le> i"
      using tarjan by (elim conjE)
    moreover have "i < length ?ts" "j < length ?ts"
      using ij(1,2) by (simp_all add: cs_def)
    ultimately show ?thesis
      using uv(1,3) by blast
  qed
  have nonempty: "[] \<notin> set ?ts"
    using tarjan by (elim conjE)
  have "sort (map ?t c) \<noteq> []" if "c \<in> set ?ts" for c
    using that nonempty by (metis length_0_conv length_map length_sort)
  then have shape: "[] \<notin> set cs" "\<forall>c \<in> set cs. sorted c"
    by (auto simp: cs_def) metis
  have set_eq: "set (concat cs) = wfg_threads g"
    using parts(2) threads by (rule trans)
  have "sccs_ok (wait_rel api g) (wfg_threads g) cs"
    unfolding sccs_ok_def
  proof (intro conjI)
    show "\<forall>c \<in> set cs. \<forall>s \<in> set c. \<forall>t \<in> wfg_threads g.
        t \<in> set c \<longleftrightarrow> (s, t) \<in> (wait_rel api g)\<^sup>* \<and> (t, s) \<in> (wait_rel api g)\<^sup>*"
      by (intro ballI) (rule reach)
    show "\<forall>i < length cs. \<forall>j < length cs. \<forall>s \<in> set (cs ! i). \<forall>t \<in> set (cs ! j).
        (s, t) \<in> wait_rel api g \<longrightarrow> j \<le> i"
      by (intro allI ballI impI) (rule topo)
  qed (fact parts(1) shape set_eq)+
  with find show thesis by (rule that)
qed

end

section \<open>The condensation\<close>

definition super_nodes :: "ThreadId list list \<Rightarrow> SuperNode list" where
  "super_nodes cs = map (\<lambda>(i, c). \<lparr>scc_index = i, sn_members = c, weight = 0\<rparr>) (enumerate 0 cs)"

text \<open>What \<open>build_condensation\<close> promises of its result for the components \<open>cs\<close> of the edges
  \<open>E\<close>: one super-node per component in their order, each thread mapped to its component, and
  between two different components one edge exactly when an edge of \<open>E\<close> joins them, with the
  largest attributed delay of those edges.\<close>

definition condensed ::
    "'d dag_api \<Rightarrow> (ThreadId \<times> ThreadId \<times> EdgeWeight) list \<Rightarrow> ThreadId list list \<Rightarrow> 'd CondensationDag \<Rightarrow> bool" where
  "condensed dapi E cs c \<longleftrightarrow>
     pg_nodes dapi (dag c) = super_nodes cs \<and>
     (\<forall>t i. scc_of c t = Some i \<longleftrightarrow> i < length cs \<and> t \<in> set (cs ! i)) \<and>
     distinct (map (\<lambda>(i, j, w). (i, j)) (pg_edges dapi (dag c))) \<and>
     (\<forall>i j w. (i, j, w) \<in> set (pg_edges dapi (dag c)) \<longleftrightarrow>
        i < length cs \<and> j < length cs \<and> i \<noteq> j \<and>
        cross_delays E (cs ! i) (cs ! j) \<noteq> [] \<and> w = Max (set (cross_delays E (cs ! i) (cs ! j))))"

lemma length_super_nodes [simp]: "length (super_nodes cs) = length cs"
  by (simp add: super_nodes_def)

lemma nth_super_nodes:
  "i < length cs \<Longrightarrow> super_nodes cs ! i = \<lparr>scc_index = i, sn_members = cs ! i, weight = 0\<rparr>"
  by (simp add: super_nodes_def nth_enumerate_eq)

lemma lookup_fold_update:
  "Mapping.lookup (fold (\<lambda>t. Mapping.update t v) ts m) t =
     (if t \<in> set ts then Some v else Mapping.lookup m t)"
  by (induction ts arbitrary: m) (auto simp: lookup_update')

definition pair_delays :: "(ThreadId, nat) mapping \<Rightarrow> full_edge_ref list \<Rightarrow> nat \<Rightarrow> nat \<Rightarrow> u64 list" where
  "pair_delays m es i j = map (\<lambda>(e, s, d, ew). attributed_delay_ms ew)
     (filter (\<lambda>(e, s, d, ew). Mapping.lookup m s = Some i \<and> Mapping.lookup m d = Some j) es)"

lemma set_pair_delays:
  "x \<in> set (pair_delays m es i j) \<longleftrightarrow>
   (\<exists>e s d ew. (e, s, d, ew) \<in> set es \<and> x = attributed_delay_ms ew \<and>
      Mapping.lookup m s = Some i \<and> Mapping.lookup m d = Some j)"
  by (force simp: pair_delays_def)

lemma cross_edges_loop:
  assumes "\<forall>(e, s, d, ew) \<in> set es. Mapping.lookup m s \<noteq> None \<and> Mapping.lookup m d \<noteq> None"
  shows "\<exists>ws. foldM (add_cross_edge m) es Mapping.empty = Some ws \<and> finite (Mapping.keys ws) \<and>
    (\<forall>i j. Mapping.lookup ws (i, j) =
       (if i = j \<or> pair_delays m es i j = [] then None else Some (Max (set (pair_delays m es i j)))))"
  using assms
proof (induction es rule: rev_induct)
  case Nil
  then show ?case by (simp add: pair_delays_def)
next
  case (snoc r es)
  obtain e s d ew where r: "r = (e, s, d, ew)" by (metis surj_pair)
  with snoc.prems obtain a b where ab: "Mapping.lookup m s = Some a" "Mapping.lookup m d = Some b"
    by auto
  have D: "pair_delays m (es @ [r]) i j =
      pair_delays m es i j @ (if i = a \<and> j = b then [attributed_delay_ms ew] else [])" for i j
    using ab by (auto simp: pair_delays_def r)
  obtain ws where ws: "foldM (add_cross_edge m) es Mapping.empty = Some ws" "finite (Mapping.keys ws)"
    "\<And>i j. Mapping.lookup ws (i, j) =
       (if i = j \<or> pair_delays m es i j = [] then None else Some (Max (set (pair_delays m es i j))))"
    using snoc by fastforce
  have "Max (insert x (set xs)) = max (Max (set xs)) x" if "xs \<noteq> []" for x :: u64 and xs
    using that by (simp add: max.commute)
  then have "\<exists>ws'. add_cross_edge m r ws = Some ws' \<and> finite (Mapping.keys ws') \<and>
      (\<forall>i j. Mapping.lookup ws' (i, j) =
        (if i = j \<or> pair_delays m (es @ [r]) i j = [] then None
         else Some (Max (set (pair_delays m (es @ [r]) i j)))))"
    unfolding D using ws(2) by (auto simp: add_cross_edge_def r ab ws(3) lookup_update' unwrap_or_def)
  then obtain ws' where ws': "add_cross_edge m r ws = Some ws'" "finite (Mapping.keys ws')"
    "\<And>i j. Mapping.lookup ws' (i, j) =
        (if i = j \<or> pair_delays m (es @ [r]) i j = [] then None
         else Some (Max (set (pair_delays m (es @ [r]) i j))))"
    by blast
  have "foldM (add_cross_edge m) (es @ [r]) Mapping.empty = Some ws'"
    using ws(1) ws'(1) by (simp add: foldM_append)
  with ws'(2,3) show ?case by blast
qed

locale scc_graph = wfg_graph api + dg: petgraph dapi
  for api :: "('g, NodeWeight, EdgeWeight) petgraph_api"
    and dapi :: "('d, SuperNode, u64) petgraph_api"
begin

lemma super_nodes_loop:
  assumes "distinct (concat cs)"
    "fold (add_super_node dapi) (enumerate 0 (map (\<lambda>c. \<lparr>members = c\<rparr>) cs)) (pg_new dapi, Mapping.empty) = (d, m)"
  shows "pg_nodes dapi d = super_nodes cs \<and> pg_edges dapi d = [] \<and>
    (\<forall>t i. Mapping.lookup m t = Some i \<longleftrightarrow> i < length cs \<and> t \<in> set (cs ! i))"
  using assms
proof (induction cs arbitrary: d m rule: rev_induct)
  case Nil
  then show ?case by (auto simp: super_nodes_def dg.new_nodes dg.new_edges)
next
  case (snoc c cs)
  obtain d' m' where dm: "fold (add_super_node dapi) (enumerate 0 (map (\<lambda>c. \<lparr>members = c\<rparr>) cs))
      (pg_new dapi, Mapping.empty) = (d', m')"
    by fastforce
  have IH: "pg_nodes dapi d' = super_nodes cs" "pg_edges dapi d' = []"
    "\<And>t i. Mapping.lookup m' t = Some i \<longleftrightarrow> i < length cs \<and> t \<in> set (cs ! i)"
    using snoc.IH [OF _ dm] snoc.prems(1) by auto
  have n: "pg_node_count dapi d' = length cs"
    using IH(1) by (metis dg.length_pg_nodes length_super_nodes)
  have fresh: "t \<notin> set (cs ! i)" if "t \<in> set c" "i < length cs" for t i
    using that snoc.prems(1) by (auto dest: nth_mem)
  have "(d, m) = add_super_node dapi (length cs, \<lparr>members = c\<rparr>) (d', m')"
    using snoc.prems(2) dm by (simp add: enumerate_append_eq)
  then have "d = fst (pg_add_node dapi d' \<lparr>scc_index = length cs, sn_members = c, weight = 0\<rparr>)"
    "m = fold (\<lambda>t. Mapping.update t (length cs)) c m'"
    by (simp_all add: add_super_node_def split_beta dg.add_node_index n)
  then show ?case
    using IH fresh
    by (auto simp: dg.add_node_nodes dg.add_node_edges super_nodes_def enumerate_append_eq
        lookup_fold_update nth_append less_Suc_eq)
qed

lemma dag_edges_loop:
  assumes "\<forall>((i, j), w) \<in> set ps. i < pg_node_count dapi d \<and> j < pg_node_count dapi d"
  shows "\<exists>d'. foldM (\<lambda>((src, dst), w) d. map_option fst (pg_add_edge dapi d src dst w)) ps d = Some d' \<and>
    pg_nodes dapi d' = pg_nodes dapi d \<and> pg_edges dapi d' = pg_edges dapi d @ map (\<lambda>((i, j), w). (i, j, w)) ps"
  using assms
proof (induction ps arbitrary: d)
  case Nil
  then show ?case by simp
next
  case (Cons p ps)
  obtain i j w where p: "p = ((i, j), w)" by (metis surj_pair)
  then have "i < pg_node_count dapi d" "j < pg_node_count dapi d"
    using Cons.prems by auto
  from dg.add_edge_ok [OF this, of w] obtain d1 where
    d1: "pg_add_edge dapi d i j w = Some (d1, pg_edge_count dapi d)"
      "pg_nodes dapi d1 = pg_nodes dapi d" "pg_edges dapi d1 = pg_edges dapi d @ [(i, j, w)]"
    by blast
  have "pg_node_count dapi d1 = pg_node_count dapi d"
    using d1(2) by (metis dg.length_pg_nodes)
  then show ?case
    using Cons.IH [of d1] Cons.prems d1 by (auto simp: p)
qed

lemma build_condensation_ok:
  assumes "wfg_inv api g" "tarjan_ok api (graph g) (tarjan (graph g))"
  obtains c cs where "build_condensation api dapi tarjan g = Some c"
    "find_sccs api tarjan g = Some (map (\<lambda>c. \<lparr>members = c\<rparr>) cs)"
    "sccs_ok (wait_rel api g) (wfg_threads g) cs"
    "condensed dapi (wfg_edges api g) cs c"
proof -
  obtain cs where cs: "find_sccs api tarjan g = Some (map (\<lambda>c. \<lparr>members = c\<rparr>) cs)"
    "sccs_ok (wait_rel api g) (wfg_threads g) cs"
    by (rule find_sccs_ok [where tarjan = tarjan, OF assms])
  obtain d m where dm: "fold (add_super_node dapi) (enumerate 0 (map (\<lambda>c. \<lparr>members = c\<rparr>) cs))
      (pg_new dapi, Mapping.empty) = (d, m)"
    by fastforce
  have "distinct (concat cs)"
    using cs(2) by (simp add: sccs_ok_def)
  note nodes = super_nodes_loop [OF this dm]
  then have lookup: "Mapping.lookup m t = Some i \<longleftrightarrow> i < length cs \<and> t \<in> set (cs ! i)" for t i
    by blast
  have dom: "Mapping.lookup m t \<noteq> None" if "t \<in> wfg_threads g" for t
  proof -
    have "t \<in> set (concat cs)"
      using that cs(2) by (simp add: sccs_ok_def)
    then obtain i where "i < length cs" "t \<in> set (cs ! i)"
      unfolding in_component_index by blast
    then have "Mapping.lookup m t = Some i" by (simp add: lookup)
    then show ?thesis by simp
  qed
  obtain es where es: "all_edges api g = Some es" "set es = set (indexed (wfg_edges api g))"
    using all_edges_eq [OF assms(1)] by simp
  have "\<forall>(e, s, d, ew) \<in> set es. Mapping.lookup m s \<noteq> None \<and> Mapping.lookup m d \<noteq> None"
  proof (clarify)
    fix e s d ew assume "(e, s, d, ew) \<in> set es"
    then have "(s, d, ew) \<in> set (wfg_edges api g)"
      unfolding es(2) in_indexed by (metis nth_mem)
    then show "Mapping.lookup m s \<noteq> None \<and> Mapping.lookup m d \<noteq> None"
      using dom edges_in_threads [OF assms(1)] by blast
  qed
  from cross_edges_loop [OF this] obtain ws where ws: "foldM (add_cross_edge m) es Mapping.empty = Some ws"
    "finite (Mapping.keys ws)"
    "\<And>i j. Mapping.lookup ws (i, j) =
       (if i = j \<or> pair_delays m es i j = [] then None else Some (Max (set (pair_delays m es i j))))"
    by blast
  have D: "set (pair_delays m es i j) =
    (if i < length cs \<and> j < length cs then set (cross_delays (wfg_edges api g) (cs ! i) (cs ! j)) else {})" for i j
    unfolding set_eq_iff set_pair_delays lookup es(2)
    by (auto simp: in_indexed set_cross_delays in_set_conv_nth [of "(_, _, _)" "wfg_edges api g"])
  have entries: "((i, j), w) \<in> set (mapping_entries ws) \<longleftrightarrow>
      i < length cs \<and> j < length cs \<and> i \<noteq> j \<and> cross_delays (wfg_edges api g) (cs ! i) (cs ! j) \<noteq> [] \<and>
      w = Max (set (cross_delays (wfg_edges api g) (cs ! i) (cs ! j)))" for i j w
    unfolding set_mapping_entries [OF ws(2)] ws(3) set_empty [symmetric] D by auto
  have "pg_node_count dapi d = length cs"
    using nodes by (metis dg.length_pg_nodes length_super_nodes)
  then have "\<forall>((i, j), w) \<in> set (mapping_entries ws). i < pg_node_count dapi d \<and> j < pg_node_count dapi d"
    using entries by auto
  from dag_edges_loop [OF this] obtain d' where
    d': "foldM (\<lambda>((src, dst), w) d. map_option fst (pg_add_edge dapi d src dst w)) (mapping_entries ws) d = Some d'"
    "pg_nodes dapi d' = super_nodes cs" "pg_edges dapi d' = map (\<lambda>((i, j), w). (i, j, w)) (mapping_entries ws)"
    using nodes by auto
  have "map (\<lambda>(i, j, w). (i, j)) (pg_edges dapi d') = map fst (mapping_entries ws)"
    by (auto simp: d'(3))
  then have "distinct (map (\<lambda>(i, j, w). (i, j)) (pg_edges dapi d'))"
    using distinct_mapping_entries by simp
  moreover have "(i, j, w) \<in> set (pg_edges dapi d') \<longleftrightarrow> ((i, j), w) \<in> set (mapping_entries ws)" for i j w
    unfolding d'(3) by force
  ultimately have "condensed dapi (wfg_edges api g) cs \<lparr>dag = d', scc_node_map = m\<rparr>"
    unfolding condensed_def using d'(2) lookup entries by (simp add: scc_of_def)
  moreover have "build_condensation api dapi tarjan g = Some \<lparr>dag = d', scc_node_map = m\<rparr>"
    using cs(1) dm es(1) ws(1) d'(1) by (simp add: build_condensation_def)
  ultimately show thesis
    using that cs by blast
qed

end

interpretation adj_scc: scc_graph adj_api adj_api
  by unfold_locales

section \<open>Consequences\<close>

lemma sccs_okD:
  assumes "sccs_ok R T cs"
  shows "distinct (concat cs)" "[] \<notin> set cs" "set (concat cs) = T" "c \<in> set cs \<Longrightarrow> sorted c"
    "c \<in> set cs \<Longrightarrow> distinct c" "c \<in> set cs \<Longrightarrow> set c \<subseteq> T"
  using assms by (auto simp: sccs_ok_def distinct_concat_iff)

lemma condensed_edge_less:
  assumes "sccs_ok (wait_rel api g) T cs" "condensed dapi (wfg_edges api g) cs c"
    "(i, j, w) \<in> set (pg_edges dapi (dag c))"
  shows "j < i"
proof -
  have ij: "i < length cs" "j < length cs" "i \<noteq> j" "cross_delays (wfg_edges api g) (cs ! i) (cs ! j) \<noteq> []"
    using assms(2,3) by (auto simp: condensed_def)
  then obtain s d ew where "(s, d, ew) \<in> set (wfg_edges api g)" "s \<in> set (cs ! i)" "d \<in> set (cs ! j)"
    using set_cross_delays by (metis last_in_set)
  then have "j \<le> i"
    using assms(1) ij(1,2) unfolding sccs_ok_def wait_rel_def by (metis (no_types, lifting) case_prod_conv imageI)
  with ij(3) show ?thesis by simp
qed

lemma acyclic_descending:
  assumes "R \<subseteq> {(i, j :: nat). j < i}"
  shows "acyclic R"
proof -
  have "acyclic {(i, j :: nat). j < i}"
    using acyclic_converse [of "{(i, j :: nat). i < j}"] wf_acyclic [OF wf_less]
    by (simp add: converse_unfold)
  then show ?thesis
    using assms acyclic_subset by blast
qed

lemma condensed_delays:
  assumes "condensed dapi E cs c" "i < length cs" "j < length cs"
  shows "{attributed_delay_ms ew | s d ew. (s, d, ew) \<in> set E \<and> scc_of c s = Some i \<and> scc_of c d = Some j} =
    set (cross_delays E (cs ! i) (cs ! j))"
proof -
  have "\<And>t i. scc_of c t = Some i \<longleftrightarrow> i < length cs \<and> t \<in> set (cs ! i)"
    using assms(1) by (simp add: condensed_def)
  then show ?thesis
    unfolding set_eq_iff set_cross_delays mem_Collect_eq using assms(2,3) by metis
qed

lemma condensed_same_scc:
  assumes "sccs_ok R T cs" "condensed dapi E cs c" "s \<in> T" "t \<in> T"
  shows "scc_of c s = scc_of c t \<longleftrightarrow> (s, t) \<in> R\<^sup>* \<and> (t, s) \<in> R\<^sup>*"
proof -
  obtain i where i: "i < length cs" "s \<in> set (cs ! i)"
    using assms(1,3) in_component_index [of s cs] by (auto simp: sccs_ok_def)
  have lookup: "\<And>t i. scc_of c t = Some i \<longleftrightarrow> i < length cs \<and> t \<in> set (cs ! i)"
    using assms(2) by (simp add: condensed_def)
  then have "scc_of c s = Some i"
    using i by blast
  moreover from this have "scc_of c t = Some i \<longleftrightarrow> t \<in> set (cs ! i)"
    using i(1) lookup by blast
  moreover have "t \<in> set (cs ! i) \<longleftrightarrow> (s, t) \<in> R\<^sup>* \<and> (t, s) \<in> R\<^sup>*"
    using assms(1,4) i nth_mem [OF i(1)] unfolding sccs_ok_def by blast
  ultimately show ?thesis by metis
qed

lemma sccs_classes:
  assumes "sccs_ok R T cs"
  shows "(\<exists>i < length cs. set (cs ! i) = K) \<longleftrightarrow> (\<exists>t \<in> T. K = {u \<in> T. (t, u) \<in> R\<^sup>* \<and> (u, t) \<in> R\<^sup>*})"
proof -
  have sub: "set (cs ! i) \<subseteq> T" if "i < length cs" for i
    using nth_mem [OF that] sccs_okD(3) [OF assms] by auto
  have class_eq: "set (cs ! i) = {u \<in> T. (t, u) \<in> R\<^sup>* \<and> (u, t) \<in> R\<^sup>*}"
    if "i < length cs" "t \<in> set (cs ! i)" for i t
    using assms nth_mem [OF that(1)] that(2) sub [OF that(1)] unfolding sccs_ok_def by blast
  show ?thesis
  proof
    assume "\<exists>i < length cs. set (cs ! i) = K"
    then obtain i where i: "i < length cs" "set (cs ! i) = K" by blast
    then have "set (cs ! i) \<noteq> {}"
      using nth_mem [OF i(1)] sccs_okD(2) [OF assms] by fastforce
    then obtain t where "t \<in> set (cs ! i)" unfolding ex_in_conv [symmetric] by (elim exE)
    with i class_eq sub show "\<exists>t \<in> T. K = {u \<in> T. (t, u) \<in> R\<^sup>* \<and> (u, t) \<in> R\<^sup>*}" by blast
  next
    assume "\<exists>t \<in> T. K = {u \<in> T. (t, u) \<in> R\<^sup>* \<and> (u, t) \<in> R\<^sup>*}"
    then obtain t where t: "t \<in> T" "K = {u \<in> T. (t, u) \<in> R\<^sup>* \<and> (u, t) \<in> R\<^sup>*}" by blast
    then have "t \<in> set (concat cs)"
      using assms by (simp add: sccs_ok_def)
    then obtain i where "i < length cs" "t \<in> set (cs ! i)"
      unfolding in_component_index by blast
    with t class_eq show "\<exists>i < length cs. set (cs ! i) = K" by blast
  qed
qed

text \<open>Two threads that wait for each other, and a third that waits for the first.\<close>

definition deadlock_edges :: "(ThreadId \<times> ThreadId \<times> EdgeWeight) list" where
  "deadlock_edges =
     [(ThreadId 1, ThreadId 2, EdgeWeight_new (TimeWindow_new 0 100)),
      (ThreadId 2, ThreadId 1, EdgeWeight_new (TimeWindow_new 0 80)),
      (ThreadId 3, ThreadId 1, EdgeWeight_new (TimeWindow_new 10 60))]"

definition deadlock :: "(NodeWeight, EdgeWeight) adj WaitForGraph" where
  "deadlock = the (build_graph adj_api
     [(ThreadId 1, UserThread), (ThreadId 2, UserThread), (ThreadId 3, UserThread)] deadlock_edges)"

definition deadlock_sccs :: "(NodeWeight, EdgeWeight) adj \<Rightarrow> nat list list" where
  "deadlock_sccs gr = [[1, 0], [2]]"

lemma deadlock_ok:
  "wfg_inv adj_api deadlock" "wfg_edges adj_api deadlock = deadlock_edges"
  "wfg_threads deadlock = {ThreadId 1, ThreadId 2, ThreadId 3}"
proof -
  have "fst ` set deadlock_edges \<union> (fst \<circ> snd) ` set deadlock_edges \<subseteq>
      fst ` set [(ThreadId 1, UserThread), (ThreadId 2, UserThread), (ThreadId 3, UserThread)]"
    by (auto simp: deadlock_edges_def)
  from adj_wfg.build_graph_ok [OF this] obtain g where
    "build_graph adj_api [(ThreadId 1, UserThread), (ThreadId 2, UserThread), (ThreadId 3, UserThread)]
       deadlock_edges = Some g" "wfg_inv adj_api g" "wfg_edges adj_api g = deadlock_edges"
    "wfg_threads g = {ThreadId 1, ThreadId 2, ThreadId 3}"
    by auto
  then show "wfg_inv adj_api deadlock" "wfg_edges adj_api deadlock = deadlock_edges"
    "wfg_threads deadlock = {ThreadId 1, ThreadId 2, ThreadId 3}"
    by (simp_all add: deadlock_def)
qed

lemma deadlock_graph:
  "length (fst (graph deadlock)) = 3" "map (\<lambda>(s, d, w). (s, d)) (snd (graph deadlock)) = [(0, 1), (1, 0), (2, 0)]"
  by code_simp+

lemma deadlock_tarjan: "tarjan_ok adj_api (graph deadlock) (deadlock_sccs (graph deadlock))"
proof -
  have R: "pg_rel adj_api (graph deadlock) = {(0, 1), (1, 0), (2, 0)}"
    using arg_cong [OF deadlock_graph(2), of set] by (simp add: adj_rel)
  have into: "u = v \<or> u = 2 \<or> (u \<in> {0, 1} \<and> v \<in> {0, 1})" if "(u, v) \<in> {(0, 1), (1, 0), (2, 0)}\<^sup>*" for u v :: nat
    using that by induction auto
  have "(0, 1) \<in> {(0, 1), (1, 0), (2, 0)}\<^sup>*" "(1, 0) \<in> {(0, 1), (1, 0), (2, 0 :: nat)}\<^sup>*"
    by auto
  then show ?thesis
    unfolding tarjan_ok_def R deadlock_sccs_def
    using into by (auto simp: deadlock_graph less_Suc_eq numeral_3_eq_3 numeral_2_eq_2)
qed

section \<open>Properties\<close>

text \<open>Property C16. The condensation is always built, whatever the cycles of the wait-for graph,
  it maps two threads to the same super-node exactly when they wait for each other through
  the graph, and it is acyclic.\<close>

theorem condensation_acyclic:
  assumes "petgraph api" "petgraph dapi" "wfg_inv api g" "tarjan_ok api (graph g) (tarjan (graph g))"
  shows "\<exists>c. build_condensation api dapi tarjan g = Some c \<and>
    (\<forall>s \<in> wfg_threads g. \<forall>t \<in> wfg_threads g. scc_of c s = scc_of c t \<longleftrightarrow>
       (s, t) \<in> (wait_rel api g)\<^sup>* \<and> (t, s) \<in> (wait_rel api g)\<^sup>*) \<and>
    acyclic (pg_rel dapi (dag c))"
proof -
  note sg = scc_graph.intro [OF wfg_graph.intro [OF assms(1)] assms(2)]
  obtain c cs where c: "build_condensation api dapi tarjan g = Some c"
    "sccs_ok (wait_rel api g) (wfg_threads g) cs" "condensed dapi (wfg_edges api g) cs c"
    using scc_graph.build_condensation_ok [where tarjan = tarjan, OF sg assms(3,4)] by blast
  have "pg_rel dapi (dag c) \<subseteq> {(i, j). j < i}"
    using condensed_edge_less [OF c(2,3)] by (auto simp: pg_rel_def)
  then have "acyclic (pg_rel dapi (dag c))"
    by (rule acyclic_descending)
  with c condensed_same_scc [OF c(2,3)] show ?thesis by blast
qed

lemma condensation_acyclic_witness:
  "\<exists>c. build_condensation adj_api adj_api deadlock_sccs deadlock = Some c \<and>
    acyclic (pg_rel adj_api (dag c))"
  using condensation_acyclic [where tarjan = deadlock_sccs, OF adj.petgraph_axioms adj.petgraph_axioms deadlock_ok(1) deadlock_tarjan]
  by blast

text \<open>Property C15. The condensation has an edge from one super-node to another exactly when an
  edge of the wait-for graph leads from a member of the first to a member of the second;
  there is only one such edge, and its weight is the largest attributed delay among the
  parallel edges it stands for.\<close>

theorem condensation_exact:
  assumes "petgraph api" "petgraph dapi" "wfg_inv api g" "tarjan_ok api (graph g) (tarjan (graph g))"
    "build_condensation api dapi tarjan g = Some c"
  shows "distinct (map (\<lambda>(i, j, w). (i, j)) (pg_edges dapi (dag c))) \<and>
    (\<forall>i j w. (i, j, w) \<in> set (pg_edges dapi (dag c)) \<longleftrightarrow>
      (let delays = {attributed_delay_ms ew | s d ew. (s, d, ew) \<in> set (wfg_edges api g) \<and>
              scc_of c s = Some i \<and> scc_of c d = Some j}
       in i \<noteq> j \<and> delays \<noteq> {} \<and> w = Max delays))"
proof -
  note sg = scc_graph.intro [OF wfg_graph.intro [OF assms(1)] assms(2)]
  obtain cs where c: "condensed dapi (wfg_edges api g) cs c"
    using scc_graph.build_condensation_ok [where tarjan = tarjan, OF sg assms(3,4)] assms(5)
    by (metis option.inject)
  let ?D = "\<lambda>i j. {attributed_delay_ms ew | s d ew. (s, d, ew) \<in> set (wfg_edges api g) \<and>
              scc_of c s = Some i \<and> scc_of c d = Some j}"
  have empty: "?D i j = {}" if "\<not> (i < length cs \<and> j < length cs)" for i j
    using that c by (auto simp: condensed_def)
  have "(i, j, w) \<in> set (pg_edges dapi (dag c)) \<longleftrightarrow> i \<noteq> j \<and> ?D i j \<noteq> {} \<and> w = Max (?D i j)" for i j w
  proof (cases "i < length cs \<and> j < length cs")
    case True
    then show ?thesis
      using c unfolding condensed_delays [OF c True [THEN conjunct1] True [THEN conjunct2]]
      by (simp add: condensed_def)
  next
    case False
    then show ?thesis
      using c unfolding empty [OF False] by (auto simp: condensed_def)
  qed
  then show ?thesis
    using c unfolding Let_def condensed_def by blast
qed

lemma condensation_exact_witness:
  "\<exists>c. build_condensation adj_api adj_api deadlock_sccs deadlock = Some c \<and>
    distinct (map (\<lambda>(i, j, w). (i, j)) (pg_edges adj_api (dag c)))"
proof -
  obtain c where c: "build_condensation adj_api adj_api deadlock_sccs deadlock = Some c"
    using adj_scc.build_condensation_ok [where tarjan = deadlock_sccs, OF deadlock_ok(1) deadlock_tarjan]
    by blast
  with condensation_exact [where tarjan = deadlock_sccs, OF adj.petgraph_axioms adj.petgraph_axioms deadlock_ok(1) deadlock_tarjan c]
  show ?thesis by blast
qed

end
