(* ===== verification/Heuristic.thy ===== *)
theory Heuristic
  imports Tarjan
begin

text \<open>
  The MAX heuristic for super-node weights (\<open>src/scc/heuristic.rs\<close>). The lemmas show that the
  weight is a function of the edge list: the largest attributed delay inside the component,
  or around its only thread, and that applying it changes nothing else of the condensation.
\<close>

definition max_heuristic_weight :: "'g wfg_api \<Rightarrow> 'g WaitForGraph \<Rightarrow> Scc \<Rightarrow> u64 option" where
  "max_heuristic_weight api g scc = do {
     int_edges \<leftarrow> internal_edges api g scc;
     if int_edges \<noteq> [] then Some (max_or_zero (map (\<lambda>(_, _, ew). attributed_delay_ms ew) int_edges))
     else if length (members scc) = 1 then
       (case node_index g (members scc ! 0) of
          Some idx \<Rightarrow> do {
            out_edges \<leftarrow> outgoing_edges api g idx;
            in_edges \<leftarrow> incoming_edges api g idx;
            let out_max = max_or_zero (map (\<lambda>(_, _, ew). attributed_delay_ms ew) out_edges);
            let in_max = max_or_zero (map (\<lambda>(_, _, ew). attributed_delay_ms ew) in_edges);
            Some (max out_max in_max) }
        | None \<Rightarrow> Some 0)
     else Some 0
   }"

definition apply_max_heuristic ::
    "'g wfg_api \<Rightarrow> 'd dag_api \<Rightarrow> 'g WaitForGraph \<Rightarrow> 'd CondensationDag \<Rightarrow> 'd CondensationDag option" where
  "apply_max_heuristic api dapi g c =
     foldM (\<lambda>idx c. do {
         sn \<leftarrow> super_node dapi c idx;
         w \<leftarrow> max_heuristic_weight api g \<lparr>members = sn_members sn\<rparr>;
         super_node_mut dapi c idx (\<lambda>sn. sn\<lparr>weight := w\<rparr>) })
       (pg_node_indices dapi (dag c)) c"

section \<open>The weight as a function of the edges\<close>

definition touching :: "(ThreadId \<times> ThreadId \<times> EdgeWeight) list \<Rightarrow> ThreadId \<Rightarrow> u64 list" where
  "touching E t = map (\<lambda>(s, d, ew). attributed_delay_ms ew) (filter (\<lambda>(s, d, ew). s = t \<or> d = t) E)"

definition heuristic_spec :: "(ThreadId \<times> ThreadId \<times> EdgeWeight) list \<Rightarrow> ThreadId list \<Rightarrow> u64" where
  "heuristic_spec E c =
     (if cross_delays E c c \<noteq> [] then Max (set (cross_delays E c c))
      else if length c = 1 then max_or_zero (touching E (hd c)) else 0)"

lemma set_touching:
  "x \<in> set (touching E t) \<longleftrightarrow>
   (\<exists>d ew. (t, d, ew) \<in> set E \<and> x = attributed_delay_ms ew) \<or>
   (\<exists>s ew. (s, t, ew) \<in> set E \<and> x = attributed_delay_ms ew)"
  by (force simp: touching_def)

lemma max_or_zero_set: "set xs = set ys \<Longrightarrow> max_or_zero xs = max_or_zero ys"
  by (auto simp: max_or_zero_Max)

lemma max_or_zero_union: "max (max_or_zero xs) (max_or_zero ys) = max_or_zero (xs @ ys)"
  by (auto simp: max_or_zero_Max Max_Un simp flip: set_empty2)

text \<open>The same of a set of threads: the largest attributed delay inside it, or, for a single
  thread without one, the largest around it.\<close>

definition class_weight :: "(ThreadId \<times> ThreadId \<times> EdgeWeight) list \<Rightarrow> ThreadId set \<Rightarrow> u64" where
  "class_weight E K =
     (let inside = {attributed_delay_ms ew | s d ew. (s, d, ew) \<in> set E \<and> s \<in> K \<and> d \<in> K};
          around = {attributed_delay_ms ew | s d ew. (s, d, ew) \<in> set E \<and> (s \<in> K \<or> d \<in> K)}
      in if inside \<noteq> {} then Max inside else if card K = 1 \<and> around \<noteq> {} then Max around else 0)"

lemma heuristic_spec_class:
  assumes "distinct c"
  shows "heuristic_spec E c = class_weight E (set c)"
proof -
  define inside where "inside = {attributed_delay_ms ew | s d ew. (s, d, ew) \<in> set E \<and> s \<in> set c \<and> d \<in> set c}"
  define around where "around = {attributed_delay_ms ew | s d ew. (s, d, ew) \<in> set E \<and> (s \<in> set c \<or> d \<in> set c)}"
  have ins: "inside = set (cross_delays E c c)"
    unfolding inside_def set_eq_iff set_cross_delays mem_Collect_eq by metis
  have one: "card (set c) = 1 \<longleftrightarrow> length c = 1"
    using assms by (simp add: distinct_card)
  have "heuristic_spec E c = (if inside \<noteq> {} then Max inside else if card (set c) = 1 \<and> around \<noteq> {} then Max around else 0)"
  proof (cases "length c = 1")
    case True
    then obtain t where "c = [t]" by (cases c) auto
    then have "around = set (touching E (hd c))"
      unfolding around_def set_eq_iff set_touching mem_Collect_eq by simp blast
    then show ?thesis
      using True one [THEN iffD2, OF True] by (simp add: heuristic_spec_def ins max_or_zero_Max)
  qed (simp add: heuristic_spec_def ins one [unfolded One_nat_def])
  then show ?thesis
    by (simp only: class_weight_def inside_def around_def Let_def)
qed

context wfg_graph
begin

lemma internal_edges_set:
  assumes "wfg_inv api g" "set c \<subseteq> wfg_threads g" "sorted c"
  shows "\<exists>es. internal_edges api g \<lparr>members = c\<rparr> = Some es \<and>
    set es = {(s, d, ew) \<in> set (wfg_edges api g). s \<in> set c \<and> d \<in> set c}"
proof -
  define f where "f = (\<lambda>s. the (node_index g s))"
  define out where "out = (\<lambda>s. map (\<lambda>(_, d, ew). (s, d, ew)) (filter (\<lambda>(_, d, _). binary_search_is_ok c d)
    (map (edge_ref_out api g)
      (pg_edges_directed api (graph g) (f s) Outgoing))))"
  have some: "node_index g s = Some (f s)" if "s \<in> set c" for s
    using that assms(2) by (auto simp: f_def node_index_def in_wfg_threads)
  have "internal_edges api g \<lparr>members = c\<rparr> = Some (concat (map out c))"
    unfolding internal_edges_def
    by (subst those_map_Some [where g = out])
      (simp_all add: out_def outgoing_edges_eq [OF assms(1)] bind_eq_Some_conv some)
  moreover have "set (out s) = {(s', d, ew) \<in> set (wfg_edges api g). s' = s \<and> d \<in> set c}"
    if "s \<in> set c" for s
  proof -
    let ?xs = "map (edge_ref_out api g) (pg_edges_directed api (graph g) (f s) Outgoing)"
    have "(s', d, ew) \<in> set (out s) \<longleftrightarrow> s' = s \<and> d \<in> set c \<and> (\<exists>e. (e, d, ew) \<in> set ?xs)" for s' d ew
      unfolding out_def by (force simp: binary_search_is_ok_iff [OF assms(3)])
    then have "(s', d, ew) \<in> set (out s) \<longleftrightarrow> (s', d, ew) \<in> set (wfg_edges api g) \<and> s' = s \<and> d \<in> set c" for s' d ew
      unfolding outgoing_set [OF assms(1) some [OF that]] by (metis in_set_conv_nth)
    then show ?thesis by auto
  qed
  ultimately show ?thesis by fastforce
qed

lemma max_heuristic_weight_eq:
  assumes "wfg_inv api g" "set c \<subseteq> wfg_threads g" "sorted c"
  shows "max_heuristic_weight api g \<lparr>members = c\<rparr> = Some (heuristic_spec (wfg_edges api g) c)"
proof -
  let ?E = "wfg_edges api g"
  obtain es where es: "internal_edges api g \<lparr>members = c\<rparr> = Some es"
    "set es = {(s, d, ew) \<in> set ?E. s \<in> set c \<and> d \<in> set c}"
    using internal_edges_set [OF assms] by blast
  have cross: "set (map (\<lambda>(_, _, ew). attributed_delay_ms ew) es) = set (cross_delays ?E c c)"
    by (force simp: es(2) set_cross_delays)
  then have nonempty: "es \<noteq> [] \<longleftrightarrow> cross_delays ?E c c \<noteq> []"
    by (metis map_is_Nil_conv set_empty)
  show ?thesis
  proof (cases "es = [] \<and> length c = 1")
    case False
    then show ?thesis
      using es(1) nonempty max_or_zero_set [OF cross]
      by (auto simp: max_heuristic_weight_def heuristic_spec_def max_or_zero_Max [of "cross_delays ?E c c"])
  next
    case True
    then obtain t where t: "c = [t]"
      by (cases c) auto
    with assms(2) obtain i where i: "node_index g t = Some i"
      by (auto simp: node_index_def in_wfg_threads)
    let ?out = "map (edge_ref_out api g) (pg_edges_directed api (graph g) i Outgoing)"
    let ?in = "map (edge_ref_in api g) (pg_edges_directed api (graph g) i Incoming)"
    have "(\<exists>e. e < length ?E \<and> ?E ! e = x) \<longleftrightarrow> x \<in> set ?E" for x
      by (metis in_set_conv_nth)
    then have "x \<in> set (map (\<lambda>(_, _, ew). attributed_delay_ms ew) ?out) \<longleftrightarrow>
        (\<exists>d ew. (t, d, ew) \<in> set ?E \<and> x = attributed_delay_ms ew)"
      "x \<in> set (map (\<lambda>(_, _, ew). attributed_delay_ms ew) ?in) \<longleftrightarrow>
        (\<exists>s ew. (s, t, ew) \<in> set ?E \<and> x = attributed_delay_ms ew)" for x
      unfolding set_map [of "\<lambda>(_, _, ew). attributed_delay_ms ew"] image_iff Bex_def split_paired_Ex
        outgoing_set [OF assms(1) i] incoming_set [OF assms(1) i] prod.case by metis+
    then have "set (map (\<lambda>(_, _, ew). attributed_delay_ms ew) ?out @
        map (\<lambda>(_, _, ew). attributed_delay_ms ew) ?in) = set (touching ?E t)"
      unfolding set_append set_eq_iff Un_iff set_touching by blast
    note max_or_zero_set [OF this]
    then show ?thesis
      using True es(1) nonempty
      by (simp add: max_heuristic_weight_def heuristic_spec_def t i outgoing_edges_eq [OF assms(1)]
          incoming_edges_eq [OF assms(1)] max_or_zero_union Let_def)
  qed
qed

end

context scc_graph
begin

lemma super_node_mut_ok:
  assumes "i < pg_node_count dapi (dag c)"
  obtains c' where "super_node_mut dapi c i f = Some c'" "scc_node_map c' = scc_node_map c"
    "pg_nodes dapi (dag c') = (pg_nodes dapi (dag c))[i := f (pg_nodes dapi (dag c) ! i)]"
    "pg_edges dapi (dag c') = pg_edges dapi (dag c)"
proof -
  obtain d where "pg_set_node_weight dapi (dag c) i (f (pg_nodes dapi (dag c) ! i)) = Some d"
    "pg_nodes dapi d = (pg_nodes dapi (dag c))[i := f (pg_nodes dapi (dag c) ! i)]"
    "pg_edges dapi d = pg_edges dapi (dag c)"
    using dg.set_node_weight_ok [OF assms] by blast
  then show thesis
    using that [of "c\<lparr>dag := d\<rparr>"] assms by (simp add: super_node_mut_def dg.node_weight_eq)
qed

lemma apply_loop:
  assumes "\<And>sn. sn \<in> set (pg_nodes dapi (dag c)) \<Longrightarrow>
      max_heuristic_weight api g \<lparr>members = sn_members sn\<rparr> = Some (h (sn_members sn))"
    "k \<le> pg_node_count dapi (dag c)"
  shows "\<exists>c'. foldM (\<lambda>idx c. do {
         sn \<leftarrow> super_node dapi c idx;
         w \<leftarrow> max_heuristic_weight api g \<lparr>members = sn_members sn\<rparr>;
         super_node_mut dapi c idx (\<lambda>sn. sn\<lparr>weight := w\<rparr>) }) [0..<k] c = Some c' \<and>
    scc_node_map c' = scc_node_map c \<and> pg_edges dapi (dag c') = pg_edges dapi (dag c) \<and>
    pg_nodes dapi (dag c') = map (\<lambda>(i, sn). if i < k then sn\<lparr>weight := h (sn_members sn)\<rparr> else sn)
      (enumerate 0 (pg_nodes dapi (dag c)))"
  using assms(2)
proof (induction k)
  case 0
  show ?case by (simp add: split_beta')
next
  case (Suc k)
  let ?nodes = "pg_nodes dapi (dag c)"
  from Suc obtain c1 where c1: "foldM (\<lambda>idx c. do {
         sn \<leftarrow> super_node dapi c idx;
         w \<leftarrow> max_heuristic_weight api g \<lparr>members = sn_members sn\<rparr>;
         super_node_mut dapi c idx (\<lambda>sn. sn\<lparr>weight := w\<rparr>) }) [0..<k] c = Some c1"
    "scc_node_map c1 = scc_node_map c" "pg_edges dapi (dag c1) = pg_edges dapi (dag c)"
    "pg_nodes dapi (dag c1) = map (\<lambda>(i, sn). if i < k then sn\<lparr>weight := h (sn_members sn)\<rparr> else sn) (enumerate 0 ?nodes)"
    by auto
  have n: "pg_node_count dapi (dag c1) = pg_node_count dapi (dag c)"
    using arg_cong [OF c1(4), of length] by simp
  have k: "k < pg_node_count dapi (dag c1)"
    using Suc.prems n by simp
  have nth: "pg_nodes dapi (dag c1) ! k = ?nodes ! k"
    using Suc.prems by (simp add: c1(4) nth_enumerate_eq)
  obtain c2 where c2: "super_node_mut dapi c1 k (\<lambda>sn. sn\<lparr>weight := h (sn_members (?nodes ! k))\<rparr>) = Some c2"
    "scc_node_map c2 = scc_node_map c1" "pg_edges dapi (dag c2) = pg_edges dapi (dag c1)"
    "pg_nodes dapi (dag c2) = (pg_nodes dapi (dag c1))[k := (?nodes ! k)\<lparr>weight := h (sn_members (?nodes ! k))\<rparr>]"
    using super_node_mut_ok [OF k, of "\<lambda>sn. sn\<lparr>weight := h (sn_members (?nodes ! k))\<rparr>"] nth by metis
  have "pg_nodes dapi (dag c2) = map (\<lambda>(i, sn). if i < Suc k then sn\<lparr>weight := h (sn_members sn)\<rparr> else sn)
      (enumerate 0 ?nodes)"
    unfolding c2(4) c1(4) by (rule nth_equalityI) (auto simp: nth_list_update nth_enumerate_eq less_Suc_eq)
  moreover have "max_heuristic_weight api g \<lparr>members = sn_members (?nodes ! k)\<rparr> = Some (h (sn_members (?nodes ! k)))"
    using Suc.prems by (intro assms(1)) simp
  ultimately show ?case
    using c1 c2 k nth by (simp add: foldM_append super_node_def dg.node_weight_eq)
qed

lemma apply_max_heuristic_eq:
  assumes "wfg_inv api g" "sccs_ok R (wfg_threads g) cs" "condensed dapi E cs c"
  obtains c' where "apply_max_heuristic api dapi g c = Some c'" "scc_node_map c' = scc_node_map c"
    "pg_edges dapi (dag c') = pg_edges dapi (dag c)"
    "pg_nodes dapi (dag c') = map (\<lambda>(i, ms). \<lparr>scc_index = i, sn_members = ms,
       weight = heuristic_spec (wfg_edges api g) ms\<rparr>) (enumerate 0 cs)"
proof -
  let ?h = "heuristic_spec (wfg_edges api g)"
  have nodes: "pg_nodes dapi (dag c) = super_nodes cs"
    using assms(3) by (simp add: condensed_def)
  have n: "pg_node_count dapi (dag c) = length cs"
    using arg_cong [OF nodes, of length] by simp
  have "max_heuristic_weight api g \<lparr>members = sn_members sn\<rparr> = Some (?h (sn_members sn))"
    if "sn \<in> set (pg_nodes dapi (dag c))" for sn
  proof (rule max_heuristic_weight_eq [OF assms(1)])
    have "sn_members sn \<in> set cs"
      using that by (auto simp: nodes super_nodes_def in_set_enumerate_eq)
    then show "set (sn_members sn) \<subseteq> wfg_threads g" "sorted (sn_members sn)"
      using assms(2) by (auto simp: sccs_ok_def)
  qed
  from apply_loop [where k = "length cs" and c = c, OF this] obtain c' where
    "apply_max_heuristic api dapi g c = Some c'" "scc_node_map c' = scc_node_map c"
    "pg_edges dapi (dag c') = pg_edges dapi (dag c)" and c': "pg_nodes dapi (dag c') =
      map (\<lambda>(i, sn). if i < length cs then sn\<lparr>weight := ?h (sn_members sn)\<rparr> else sn) (enumerate 0 (super_nodes cs))"
    by (auto simp: apply_max_heuristic_def dg.node_indices n nodes)
  moreover have "pg_nodes dapi (dag c') = map (\<lambda>(i, ms). \<lparr>scc_index = i, sn_members = ms, weight = ?h ms\<rparr>) (enumerate 0 cs)"
    unfolding c' by (rule nth_equalityI) (auto simp: nth_enumerate_eq nth_super_nodes)
  ultimately show thesis using that by blast
qed

end

section \<open>Properties\<close>

text \<open>Weighing the condensation never panics and changes nothing but the weights:
  each super-node gets the largest attributed delay of an edge inside its component, or, for
  a single thread without one, of an edge that touches it (0 when there is none).\<close>

theorem heuristic_weights:
  assumes "petgraph api" "petgraph dapi" "wfg_inv api g" "tarjan_ok api (graph g) (tarjan (graph g))"
    "build_condensation api dapi tarjan g = Some c"
  shows "\<exists>c'. apply_max_heuristic api dapi g c = Some c' \<and> scc_node_map c' = scc_node_map c \<and>
    pg_edges dapi (dag c') = pg_edges dapi (dag c) \<and>
    map sn_members (pg_nodes dapi (dag c')) = map sn_members (pg_nodes dapi (dag c)) \<and>
    (\<forall>sn \<in> set (pg_nodes dapi (dag c')).
      (let K = set (sn_members sn);
           inside = {attributed_delay_ms ew | s d ew. (s, d, ew) \<in> set (wfg_edges api g) \<and> s \<in> K \<and> d \<in> K};
           around = {attributed_delay_ms ew | s d ew. (s, d, ew) \<in> set (wfg_edges api g) \<and> (s \<in> K \<or> d \<in> K)}
       in weight sn = (if inside \<noteq> {} then Max inside
            else if card K = 1 \<and> around \<noteq> {} then Max around else 0)))"
proof -
  note sg = scc_graph.intro [OF wfg_graph.intro [OF assms(1)] assms(2)]
  let ?E = "wfg_edges api g"
  obtain cs where cs: "sccs_ok (wait_rel api g) (wfg_threads g) cs" "condensed dapi ?E cs c"
    using scc_graph.build_condensation_ok [where tarjan = tarjan, OF sg assms(3,4)] assms(5)
    by (metis option.inject)
  obtain c' where c': "apply_max_heuristic api dapi g c = Some c'" "scc_node_map c' = scc_node_map c"
    "pg_edges dapi (dag c') = pg_edges dapi (dag c)"
    "pg_nodes dapi (dag c') = map (\<lambda>(i, ms). \<lparr>scc_index = i, sn_members = ms, weight = heuristic_spec ?E ms\<rparr>)
       (enumerate 0 cs)"
    by (rule scc_graph.apply_max_heuristic_eq [OF sg assms(3) cs])
  have "map sn_members (pg_nodes dapi (dag c')) = map sn_members (pg_nodes dapi (dag c))"
    using cs(2) by (simp add: c'(4) condensed_def super_nodes_def split_beta')
  moreover have "weight sn = class_weight ?E (set (sn_members sn))" if sn: "sn \<in> set (pg_nodes dapi (dag c'))" for sn
  proof -
    obtain ms where "ms \<in> set cs" "sn_members sn = ms" "weight sn = heuristic_spec ?E ms"
      using sn by (auto simp: c'(4) in_set_enumerate_eq) (metis nth_mem)
    then show ?thesis
      using sccs_okD(5) [OF cs(1)] by (simp add: heuristic_spec_class)
  qed
  ultimately show ?thesis
    using c'(1-3) by (auto simp only: class_weight_def Let_def intro!: exI [of _ c'])
qed

lemma heuristic_weights_witness:
  "\<exists>c c'. build_condensation adj_api adj_api deadlock_sccs deadlock = Some c \<and>
    apply_max_heuristic adj_api adj_api deadlock c = Some c' \<and> pg_edges adj_api (dag c') = pg_edges adj_api (dag c)"
proof -
  obtain c where c: "build_condensation adj_api adj_api deadlock_sccs deadlock = Some c"
    using adj_scc.build_condensation_ok [where tarjan = deadlock_sccs, OF deadlock_ok(1) deadlock_tarjan]
    by blast
  with heuristic_weights [where tarjan = deadlock_sccs,
      OF adj.petgraph_axioms adj.petgraph_axioms deadlock_ok(1) deadlock_tarjan c]
  show ?thesis by blast
qed

end
