(* ===== verification/Knot.thy ===== *)
theory Knot
  imports Heuristic
begin

text \<open>
  Knot detection (\<open>src/scc/knot.rs\<close>): the sinks of the condensation that pass the business
  rules. The property states the detected knots on the wait-for graph itself, without the
  condensation: closed classes of mutually waiting threads that are not trivial and not made
  of kernel threads only.
\<close>

section \<open>Operations\<close>

record Knot =
  dag_index :: nat
  kn_members :: "ThreadId list"

definition has_self_loop :: "'g wfg_api \<Rightarrow> 'g WaitForGraph \<Rightarrow> ThreadId \<Rightarrow> bool option" where
  "has_self_loop api g t =
     (case node_index g t of
        None \<Rightarrow> Some False
      | Some idx \<Rightarrow> do {
          es \<leftarrow> outgoing_edges api g idx;
          Some (list_ex (\<lambda>(_, dst, _). dst = t) es) })"

definition is_pure_kernel_scc :: "'g wfg_api \<Rightarrow> 'g WaitForGraph \<Rightarrow> ThreadId list \<Rightarrow> bool option" where
  "is_pure_kernel_scc api g ms =
     allM (\<lambda>t. do {
         idx \<leftarrow> node_index g t;
         nw \<leftarrow> node_weight api g idx;
         Some (nw_kind nw = KernelThread) }) ms"

text \<open>The filter of \<open>detect_knots\<close>: rule 1 (trivial singletons) returns before rule 2 is tested.\<close>

definition keep_sink ::
    "'g wfg_api \<Rightarrow> 'd dag_api \<Rightarrow> 'd CondensationDag \<Rightarrow> 'g WaitForGraph \<Rightarrow> nat \<Rightarrow> bool option" where
  "keep_sink api dapi c g idx = do {
     sn \<leftarrow> super_node dapi c idx;
     trivial \<leftarrow> (if length (sn_members sn) = 1
                 then map_option Not (has_self_loop api g (sn_members sn ! 0)) else Some False);
     if trivial then Some False
     else do {
       kernel \<leftarrow> is_pure_kernel_scc api g (sn_members sn);
       Some (\<not> kernel) }
   }"

definition detect_knots ::
    "'g wfg_api \<Rightarrow> 'd dag_api \<Rightarrow> 'd CondensationDag \<Rightarrow> 'g WaitForGraph \<Rightarrow> Knot list option" where
  "detect_knots api dapi c g = do {
     kept \<leftarrow> filterM (keep_sink api dapi c g) (sinks dapi c);
     those (map (\<lambda>idx. do {
         sn \<leftarrow> super_node dapi c idx;
         Some \<lparr>dag_index = idx, kn_members = sn_members sn\<rparr> }) kept)
   }"

section \<open>The rules on the edge list\<close>

context wfg_graph
begin

lemma has_self_loop_eq:
  assumes "wfg_inv api g" "t \<in> wfg_threads g"
  shows "has_self_loop api g t = Some (\<exists>ew. (t, t, ew) \<in> set (wfg_edges api g))"
proof -
  obtain i where i: "node_index g t = Some i"
    using assms(2) by (auto simp: node_index_def in_wfg_threads)
  let ?xs = "map (edge_ref_out api g) (pg_edges_directed api (graph g) i Outgoing)"
  have "list_ex (\<lambda>(_, dst, _). dst = t) ?xs \<longleftrightarrow> (\<exists>x ew. (x, t, ew) \<in> set ?xs)"
    unfolding list_ex_iff by blast
  also have "\<dots> \<longleftrightarrow> (\<exists>ew. (t, t, ew) \<in> set (wfg_edges api g))"
    unfolding outgoing_set [OF assms(1) i] by (metis in_set_conv_nth)
  finally show ?thesis
    by (simp only: has_self_loop_def i option.case outgoing_edges_eq [OF assms(1)] Option.bind.simps)
qed

lemma is_pure_kernel_scc_eq:
  assumes "wfg_inv api g" "set ms \<subseteq> wfg_threads g"
  shows "is_pure_kernel_scc api g ms = Some (\<forall>t \<in> set ms. wfg_kind api g t = Some KernelThread)"
proof -
  have "do { idx \<leftarrow> node_index g t; nw \<leftarrow> node_weight api g idx; Some (nw_kind nw = KernelThread) } =
      Some (wfg_kind api g t = Some KernelThread)" if "t \<in> set ms" for t
  proof -
    have "t \<in> wfg_threads g"
      using assms(2) that by blast
    then obtain i where i: "Mapping.lookup (node_map g) t = Some i"
      by (auto simp: in_wfg_threads)
    then have "i < pg_node_count api (graph g)"
      using assms(1) by (simp add: inv_node)
    with i show ?thesis
      by (simp add: node_index_def node_weight_def node_weight_eq wfg_kind_def)
  qed
  note allM_Some [of ms, OF this]
  then show ?thesis
    by (simp add: is_pure_kernel_scc_def list_all_iff)
qed

end

text \<open>The rules a sink has to pass to be a knot, on the contents of the graph.\<close>

definition knot_rules :: "'g wfg_api \<Rightarrow> 'g WaitForGraph \<Rightarrow> ThreadId set \<Rightarrow> bool" where
  "knot_rules api g K \<longleftrightarrow>
     (card K = 1 \<longrightarrow> (\<exists>t \<in> K. \<exists>ew. (t, t, ew) \<in> set (wfg_edges api g))) \<and>
     (\<exists>t \<in> K. wfg_kind api g t \<noteq> Some KernelThread)"

context scc_graph
begin

lemma sinks_eq:
  assumes "wfg_inv api g" "sccs_ok (wait_rel api g) (wfg_threads g) cs"
    "condensed dapi (wfg_edges api g) cs c0" "pg_edges dapi (dag c) = pg_edges dapi (dag c0)"
    "pg_node_count dapi (dag c) = length cs"
  shows "i \<in> set (sinks dapi c) \<longleftrightarrow> i < length cs \<and>
    (\<forall>(s, d, ew) \<in> set (wfg_edges api g). s \<in> set (cs ! i) \<longrightarrow> d \<in> set (cs ! i))"
proof -
  have "out_degree dapi c i = 0 \<longleftrightarrow> (\<forall>j w. (i, j, w) \<notin> set (pg_edges dapi (dag c)))" if "i < length cs"
  proof -
    have "out_degree dapi c i = 0 \<longleftrightarrow>
        {e. e < length (pg_edges dapi (dag c)) \<and> end_of Outgoing (pg_edges dapi (dag c) ! e) = i} = {}"
      by (simp add: out_degree_def flip: dg.edges_directed_set)
    also have "\<dots> \<longleftrightarrow> (\<forall>x \<in> set (pg_edges dapi (dag c)). fst x \<noteq> i)"
      unfolding all_set_conv_all_nth end_of_def by auto
    finally show ?thesis by force
  qed
  moreover have "(\<exists>j w. (i, j, w) \<in> set (pg_edges dapi (dag c))) \<longleftrightarrow>
      (\<exists>(s, d, ew) \<in> set (wfg_edges api g). s \<in> set (cs ! i) \<and> d \<notin> set (cs ! i))" if i: "i < length cs"
  proof -
    have "(\<exists>j w. (i, j, w) \<in> set (pg_edges dapi (dag c))) \<longleftrightarrow>
        (\<exists>j < length cs. i \<noteq> j \<and> cross_delays (wfg_edges api g) (cs ! i) (cs ! j) \<noteq> [])"
      using assms(3) i unfolding assms(4) condensed_def by blast
    also have "\<dots> \<longleftrightarrow> (\<exists>j < length cs. i \<noteq> j \<and>
        (\<exists>s d ew. (s, d, ew) \<in> set (wfg_edges api g) \<and> s \<in> set (cs ! i) \<and> d \<in> set (cs ! j)))"
      unfolding set_empty [symmetric] ex_in_conv [symmetric] set_cross_delays by blast
    also have "\<dots> \<longleftrightarrow> (\<exists>(s, d, ew) \<in> set (wfg_edges api g). s \<in> set (cs ! i) \<and> d \<notin> set (cs ! i))"
    proof -
      have "distinct (concat cs)"
        using assms(2) by (simp add: sccs_ok_def)
      then have "d \<in> set (cs ! j) \<Longrightarrow> j < length cs \<Longrightarrow> i \<noteq> j \<Longrightarrow> d \<notin> set (cs ! i)" for d j
        using distinct_concat_index [of cs i j d] i by blast
      moreover have "\<exists>j < length cs. d \<in> set (cs ! j)" if "(s, d, ew) \<in> set (wfg_edges api g)" for s d ew
        using edges_in_threads(2) [OF assms(1) that] assms(2) in_component_index [of d cs]
        by (simp add: sccs_ok_def)
      ultimately show ?thesis
        unfolding Bex_def split_paired_Ex prod.case by blast
    qed
    finally show ?thesis .
  qed
  ultimately show ?thesis
    unfolding sinks_def by (auto simp: dg.node_indices assms(5))
qed

lemma keep_sink_eq:
  assumes "wfg_inv api g" "sccs_ok (wait_rel api g) (wfg_threads g) cs"
    "pg_nodes dapi (dag c) = map (\<lambda>(i, ms). \<lparr>scc_index = i, sn_members = ms, weight = w ms\<rparr>) (enumerate 0 cs)"
    "i < length cs"
  shows "super_node dapi c i = Some \<lparr>scc_index = i, sn_members = cs ! i, weight = w (cs ! i)\<rparr>"
    "keep_sink api dapi c g i = Some (knot_rules api g (set (cs ! i)))"
proof -
  have "pg_node_count dapi (dag c) = length cs"
    using arg_cong [OF assms(3), of length] by simp
  with assms(3,4) show sn: "super_node dapi c i = Some \<lparr>scc_index = i, sn_members = cs ! i, weight = w (cs ! i)\<rparr>"
    by (simp add: super_node_def dg.node_weight_eq nth_enumerate_eq)
  have mem: "cs ! i \<in> set cs"
    using assms(4) by simp
  have sub: "set (cs ! i) \<subseteq> wfg_threads g"
    using mem assms(2) by (auto simp: sccs_ok_def)
  have "distinct (cs ! i)"
    using mem assms(2) by (auto simp: sccs_ok_def distinct_concat_iff)
  then have card: "card (set (cs ! i)) = length (cs ! i)"
    by (rule distinct_card)
  show "keep_sink api dapi c g i = Some (knot_rules api g (set (cs ! i)))"
  proof (cases "length (cs ! i) = 1")
    case True
    then obtain t where t: "cs ! i = [t]"
      by (cases "cs ! i") auto
    with sub have "t \<in> wfg_threads g" by simp
    with t show ?thesis
      by (simp add: keep_sink_def sn has_self_loop_eq [OF assms(1)] is_pure_kernel_scc_eq [OF assms(1)] knot_rules_def)
  next
    case False
    with card show ?thesis
      by (simp add: keep_sink_def sn is_pure_kernel_scc_eq [OF assms(1) sub] knot_rules_def)
  qed
qed

lemma detect_knots_eq:
  assumes "wfg_inv api g" "sccs_ok (wait_rel api g) (wfg_threads g) cs"
    "condensed dapi (wfg_edges api g) cs c0" "pg_edges dapi (dag c) = pg_edges dapi (dag c0)"
    "pg_nodes dapi (dag c) = map (\<lambda>(i, ms). \<lparr>scc_index = i, sn_members = ms, weight = w ms\<rparr>) (enumerate 0 cs)"
  shows "detect_knots api dapi c g = Some (map (\<lambda>i. \<lparr>dag_index = i, kn_members = cs ! i\<rparr>)
    (filter (\<lambda>i. knot_rules api g (set (cs ! i))) (sinks dapi c)))"
proof -
  have n: "pg_node_count dapi (dag c) = length cs"
    using arg_cong [OF assms(5), of length] by simp
  have sink: "i < length cs" if "i \<in> set (sinks dapi c)" for i
    using that by (simp add: sinks_eq [OF assms(1-4) n])
  have "filterM (keep_sink api dapi c g) (sinks dapi c) =
      Some (filter (\<lambda>i. knot_rules api g (set (cs ! i))) (sinks dapi c))"
    using keep_sink_eq(2) [OF assms(1,2,5)] sink by (intro filterM_Some) blast
  moreover have "those (map (\<lambda>idx. do {
         sn \<leftarrow> super_node dapi c idx;
         Some \<lparr>dag_index = idx, kn_members = sn_members sn\<rparr> })
       (filter (\<lambda>i. knot_rules api g (set (cs ! i))) (sinks dapi c))) =
      Some (map (\<lambda>i. \<lparr>dag_index = i, kn_members = cs ! i\<rparr>)
        (filter (\<lambda>i. knot_rules api g (set (cs ! i))) (sinks dapi c)))"
  proof (rule those_map_Some)
    fix i assume "i \<in> set (filter (\<lambda>i. knot_rules api g (set (cs ! i))) (sinks dapi c))"
    then have "i < length cs"
      by (intro sink) simp
    from keep_sink_eq(1) [OF assms(1,2,5) this]
    show "do { sn \<leftarrow> super_node dapi c i; Some \<lparr>dag_index = i, kn_members = sn_members sn\<rparr> } =
        Some \<lparr>dag_index = i, kn_members = cs ! i\<rparr>"
      by simp
  qed
  ultimately show ?thesis
    by (simp add: detect_knots_def)
qed

end

text \<open>The detected knots as classes of threads.\<close>

lemma detect_knots_classes:
  assumes "petgraph api" "petgraph dapi" "wfg_inv api g" "tarjan_ok api (graph g) (tarjan (graph g))"
    "build_condensation api dapi tarjan g = Some c0" "apply_max_heuristic api dapi g c0 = Some c"
  shows "\<exists>ks. detect_knots api dapi c g = Some ks \<and>
    (\<forall>K. (\<exists>k \<in> set ks. set (kn_members k) = K) \<longleftrightarrow>
       (\<exists>t \<in> wfg_threads g. K = {u \<in> wfg_threads g. (t, u) \<in> (wait_rel api g)\<^sup>* \<and> (u, t) \<in> (wait_rel api g)\<^sup>*}) \<and>
       (\<forall>(s, d, ew) \<in> set (wfg_edges api g). s \<in> K \<longrightarrow> d \<in> K) \<and>
       (card K = 1 \<longrightarrow> (\<exists>t \<in> K. \<exists>ew. (t, t, ew) \<in> set (wfg_edges api g))) \<and>
       (\<exists>t \<in> K. wfg_kind api g t \<noteq> Some KernelThread))"
proof -
  note sg = scc_graph.intro [OF wfg_graph.intro [OF assms(1)] assms(2)]
  let ?E = "wfg_edges api g"
  obtain cs where cs: "sccs_ok (wait_rel api g) (wfg_threads g) cs" "condensed dapi ?E cs c0"
    using scc_graph.build_condensation_ok [where tarjan = tarjan, OF sg assms(3,4)] assms(5)
    by (metis option.inject)
  obtain c' where c': "apply_max_heuristic api dapi g c0 = Some c'"
    "pg_edges dapi (dag c') = pg_edges dapi (dag c0)"
    "pg_nodes dapi (dag c') = map (\<lambda>(i, ms). \<lparr>scc_index = i, sn_members = ms, weight = heuristic_spec ?E ms\<rparr>)
       (enumerate 0 cs)"
    by (rule scc_graph.apply_max_heuristic_eq [OF sg assms(3) cs])
  then have "c' = c"
    using assms(6) by simp
  note c = c'(2,3) [unfolded this]
  have n: "pg_node_count dapi (dag c) = length cs"
    using arg_cong [OF c(2), of length] by (simp add: petgraph.length_pg_nodes [OF assms(2)])
  let ?ks = "map (\<lambda>i. \<lparr>dag_index = i, kn_members = cs ! i\<rparr>)
    (filter (\<lambda>i. knot_rules api g (set (cs ! i))) (sinks dapi c))"
  have ks: "detect_knots api dapi c g = Some ?ks"
    by (rule scc_graph.detect_knots_eq [OF sg assms(3) cs c])
  have classes: "(\<exists>i < length cs. set (cs ! i) = K) \<longleftrightarrow>
      (\<exists>t \<in> wfg_threads g. K = {u \<in> wfg_threads g. (t, u) \<in> (wait_rel api g)\<^sup>* \<and> (u, t) \<in> (wait_rel api g)\<^sup>*})" for K
    by (rule sccs_classes [OF cs(1)])
  have found: "(\<exists>k \<in> set ?ks. set (kn_members k) = K) \<longleftrightarrow>
      (\<exists>i < length cs. set (cs ! i) = K) \<and> (\<forall>(s, d, ew) \<in> set ?E. s \<in> K \<longrightarrow> d \<in> K) \<and> knot_rules api g K" for K
  proof -
    define closed where "closed = (\<lambda>K. \<forall>(s, d, ew) \<in> set ?E. s \<in> K \<longrightarrow> d \<in> K)"
    have sink: "i \<in> set (sinks dapi c) \<longleftrightarrow> i < length cs \<and> closed (set (cs ! i))" for i
      unfolding closed_def by (rule scc_graph.sinks_eq [OF sg assms(3) cs c(1) n])
    have "(\<exists>k \<in> set ?ks. set (kn_members k) = K) \<longleftrightarrow>
        (\<exists>i. i < length cs \<and> closed (set (cs ! i)) \<and> knot_rules api g (set (cs ! i)) \<and> set (cs ! i) = K)"
      by (auto simp: sink)
    also have "\<dots> \<longleftrightarrow> (\<exists>i < length cs. set (cs ! i) = K) \<and> closed K \<and> knot_rules api g K"
      by metis
    finally show ?thesis
      unfolding closed_def .
  qed
  show ?thesis
    by (intro exI [of _ ?ks] conjI ks allI) (unfold found classes, simp only: knot_rules_def)
qed

section \<open>Properties\<close>

text \<open>Property C14. Knot detection on the weighted condensation never panics, and its knots are
  exactly the classes of mutually waiting threads that no edge leaves, that are more than one
  thread or a thread waiting for itself, and that hold at least one thread that is not a
  kernel thread.\<close>

theorem knots_exact:
  assumes "petgraph api" "petgraph dapi" "wfg_inv api g" "tarjan_ok api (graph g) (tarjan (graph g))"
    "build_condensation api dapi tarjan g = Some c0" "apply_max_heuristic api dapi g c0 = Some c"
  shows "\<exists>ks. detect_knots api dapi c g = Some ks \<and>
    (\<forall>K. (\<exists>k \<in> set ks. set (kn_members k) = K) \<longleftrightarrow>
       (\<exists>t \<in> wfg_threads g. K = {u \<in> wfg_threads g. (t, u) \<in> (wait_rel api g)\<^sup>* \<and> (u, t) \<in> (wait_rel api g)\<^sup>*}) \<and>
       (\<forall>(s, d, ew) \<in> set (wfg_edges api g). s \<in> K \<longrightarrow> d \<in> K) \<and>
       (card K = 1 \<longrightarrow> (\<exists>t \<in> K. \<exists>ew. (t, t, ew) \<in> set (wfg_edges api g))) \<and>
       (\<exists>t \<in> K. wfg_kind api g t \<noteq> Some KernelThread))"
  using assms by (rule detect_knots_classes)

lemma knots_exact_witness:
  "\<exists>c0 c ks. build_condensation adj_api adj_api deadlock_sccs deadlock = Some c0 \<and>
    apply_max_heuristic adj_api adj_api deadlock c0 = Some c \<and>
    detect_knots adj_api adj_api c deadlock = Some ks"
proof -
  obtain c0 cs where c0: "build_condensation adj_api adj_api deadlock_sccs deadlock = Some c0"
    "sccs_ok (wait_rel adj_api deadlock) (wfg_threads deadlock) cs"
    "condensed adj_api (wfg_edges adj_api deadlock) cs c0"
    using adj_scc.build_condensation_ok [where tarjan = deadlock_sccs, OF deadlock_ok(1) deadlock_tarjan]
    by blast
  obtain c where c: "apply_max_heuristic adj_api adj_api deadlock c0 = Some c"
    by (rule adj_scc.apply_max_heuristic_eq [OF deadlock_ok(1) c0(2,3)])
  from knots_exact [where tarjan = deadlock_sccs, OF adj.petgraph_axioms adj.petgraph_axioms
      deadlock_ok(1) deadlock_tarjan c0(1) c]
  obtain ks where "detect_knots adj_api adj_api c deadlock = Some ks"
    by (elim exE conjE) (rule that)
  with c0(1) c show ?thesis by blast
qed

end
