(* ===== verification/Critical_Path.thy ===== *)
theory Critical_Path
  imports Heuristic
begin

text \<open>
  The critical path (\<open>src/critical_path/mod.rs\<close>): longest path of the condensation by dynamic
  programming along a topological order. \<open>petgraph::algo::toposort\<close> is the argument
  \<open>toposort\<close>. The trace back over the predecessors is a partial function, so that its
  termination is proved and not built in. The lemmas show the invariant of the relaxation,
  and that the result is a longest path.
\<close>

section \<open>Operations\<close>

record CriticalPathNode =
  cp_members :: "ThreadId list"
  cp_weight :: u64

record CriticalPath =
  chain :: "CriticalPathNode list"
  total_weight :: u64

text \<open>Indexing a vector, which panics out of range.\<close>

definition index :: "'a list \<Rightarrow> nat \<Rightarrow> 'a option" where
  "index xs i = (if i < length xs then Some (xs ! i) else None)"

text \<open>The body of the inner loop, for one outgoing edge of \<open>v\<close>.\<close>

definition relax ::
    "'d dag_api \<Rightarrow> 'd CondensationDag \<Rightarrow> nat \<Rightarrow> u64 \<Rightarrow> nat \<Rightarrow> u64 list \<times> nat option list \<Rightarrow>
     (u64 list \<times> nat option list) option" where
  "relax dapi c v v_dist e st = (case st of (dist, pred) \<Rightarrow> do {
     (_, u) \<leftarrow> pg_edge_endpoints dapi (dag c) e;
     edge_w \<leftarrow> pg_edge_weight dapi (dag c) e;
     sn \<leftarrow> super_node dapi c u;
     let candidate = v_dist + edge_w + weight sn;
     d \<leftarrow> index dist u;
     _ \<leftarrow> index pred u;
     Some (if d < candidate then (dist[u := candidate], pred[u := Some v]) else (dist, pred)) })"

definition relax_node ::
    "'d dag_api \<Rightarrow> 'd CondensationDag \<Rightarrow> nat \<Rightarrow> u64 list \<times> nat option list \<Rightarrow>
     (u64 list \<times> nat option list) option" where
  "relax_node dapi c v st = do {
     v_dist \<leftarrow> index (fst st) v;
     foldM (relax dapi c v v_dist) (pg_edges_directed dapi (dag c) v Outgoing) st }"

definition init_dist :: "'d dag_api \<Rightarrow> 'd CondensationDag \<Rightarrow> nat \<Rightarrow> u64 list \<Rightarrow> u64 list option" where
  "init_dist dapi c v dist = do {
     sn \<leftarrow> super_node dapi c v;
     _ \<leftarrow> index dist v;
     Some (dist[v := weight sn]) }"

text \<open>\<open>max_by_key\<close>: the last of the largest.\<close>

definition max_by_dist :: "(nat \<times> u64) list \<Rightarrow> (nat \<times> u64) option" where
  "max_by_dist xs =
     fold (\<lambda>x best. case best of None \<Rightarrow> Some x | Some y \<Rightarrow> if snd y \<le> snd x then Some x else Some y) xs None"

text \<open>The \<open>while let\<close> loop: the nodes pushed after the current one.\<close>

partial_function (option) trace_back :: "nat option list \<Rightarrow> nat \<Rightarrow> nat list \<Rightarrow> nat list option" where
  "trace_back pred current path_indices =
     Option.bind (index pred current) (\<lambda>o'. case o' of
       None \<Rightarrow> Some path_indices
     | Some p \<Rightarrow> trace_back pred p (path_indices @ [p]))"

definition critical_path_dp ::
    "'d dag_api \<Rightarrow> ('d \<Rightarrow> nat list option) \<Rightarrow> 'd CondensationDag \<Rightarrow> CriticalPath option option" where
  "critical_path_dp dapi toposort c =
     (if dag_node_count dapi c = 0 then Some None
      else do {
        topo \<leftarrow> toposort (dag c);
        let n = pg_node_count dapi (dag c);
        dist \<leftarrow> foldM (init_dist dapi c) topo (replicate n 0);
        (dist, pred) \<leftarrow> foldM (relax_node dapi c) topo (dist, replicate n None);
        (end_idx, max_dist) \<leftarrow> max_by_dist (enumerate 0 dist);
        path_indices \<leftarrow> trace_back pred end_idx [end_idx];
        chain \<leftarrow> those (map (\<lambda>idx. do {
            sn \<leftarrow> super_node dapi c idx;
            Some \<lparr>cp_members = sn_members sn, cp_weight = weight sn\<rparr> }) (rev path_indices));
        Some (Some \<lparr>chain = chain, total_weight = max_dist\<rparr>)
      })"

lemma critical_path_dp_empty: "pg_node_count dapi (dag c) = 0 \<Longrightarrow> critical_path_dp dapi toposort c = Some None"
  by (simp add: critical_path_dp_def dag_node_count_def)

section \<open>Paths\<close>

text \<open>The paths of a weighted graph, last node first, with their weight: the weights of the
  nodes and of the edges on the way.\<close>

inductive dag_path :: "u64 list \<Rightarrow> (nat \<times> nat \<times> u64) list \<Rightarrow> nat list \<Rightarrow> nat \<Rightarrow> bool"
  for W :: "u64 list" and E :: "(nat \<times> nat \<times> u64) list" where
  single: "u < length W \<Longrightarrow> dag_path W E [u] (unat (W ! u))"
| step: "dag_path W E (v # r) w \<Longrightarrow> (v, u, e) \<in> set E \<Longrightarrow> u < length W \<Longrightarrow>
    dag_path W E (u # v # r) (w + unat e + unat (W ! u))"

inductive_cases dag_path_NilE: "dag_path W E [] w"

lemma dag_path_nodes: "dag_path W E p w \<Longrightarrow> p \<noteq> [] \<and> (\<forall>u \<in> set p. u < length W)"
  by (induction rule: dag_path.induct) auto

text \<open>The chain of predecessors from a node, and the trace along it.\<close>

fun back_chain :: "nat option list \<Rightarrow> nat list \<Rightarrow> bool" where
  "back_chain pred [] = False"
| "back_chain pred [u] = (u < length pred \<and> pred ! u = None)"
| "back_chain pred (u # v # r) = (u < length pred \<and> pred ! u = Some v \<and> back_chain pred (v # r))"

lemma trace_back_chain:
  "back_chain pred (u # r) \<Longrightarrow> trace_back pred u acc = Some (acc @ r)"
proof (induction r arbitrary: u acc)
  case Nil
  then show ?case by (subst trace_back.simps) (simp add: index_def)
next
  case (Cons v r)
  then show ?case by (subst trace_back.simps) (simp add: index_def)
qed

lemma back_chain_update:
  "back_chain pred p \<Longrightarrow> u \<notin> set p \<Longrightarrow> back_chain (pred[u := x]) p"
  by (induction pred p rule: back_chain.induct) auto

text \<open>Predecessors that lower a rank lead the trace back to an end, along a chain of related
  nodes.\<close>

lemma trace_back_total:
  assumes "\<And>u v. u < length pred \<Longrightarrow> pred ! u = Some v \<Longrightarrow> v < length pred \<and> rank v < (rank u :: nat) \<and> R v u"
    "u < length pred"
  shows "\<exists>r. trace_back pred u acc = Some (acc @ r) \<and> set r \<subseteq> {..<length pred} \<and> successively (\<lambda>a b. R b a) (u # r)"
  using assms(2)
proof (induction "rank u" arbitrary: u acc rule: less_induct)
  case less
  show ?case
  proof (cases "pred ! u")
    case None
    then show ?thesis
      using less.prems by (subst trace_back.simps) (simp add: index_def)
  next
    case (Some v)
    note v = assms(1) [OF less.prems Some]
    obtain r where "trace_back pred v (acc @ [v]) = Some ((acc @ [v]) @ r)" "set r \<subseteq> {..<length pred}"
      "successively (\<lambda>a b. R b a) (v # r)"
      using less.hyps [of v] v by blast
    then show ?thesis
      using less.prems Some v by (subst trace_back.simps) (auto simp: index_def intro!: exI [of _ "v # r"])
  qed
qed

section \<open>The relaxation invariant\<close>

text \<open>Of the graph with node weights \<open>W\<close> and edges \<open>E\<close>: \<open>R\<close> are the edges relaxed so far, and
  the distances of the nodes of \<open>F\<close> change no more.\<close>

definition dp_inv ::
    "u64 list \<Rightarrow> (nat \<times> nat \<times> u64) list \<Rightarrow> (nat \<times> nat \<times> u64) set \<Rightarrow> nat set \<Rightarrow>
     u64 list \<times> nat option list \<Rightarrow> bool" where
  "dp_inv W E R F st \<longleftrightarrow> (case st of (dist, pred) \<Rightarrow>
     length dist = length W \<and> length pred = length W \<and>
     (\<forall>u < length W. unat (W ! u) \<le> unat (dist ! u)) \<and>
     (\<forall>(v, u, e) \<in> R. unat (dist ! v) + unat e + unat (W ! u) \<le> unat (dist ! u)) \<and>
     (\<forall>u < length W. \<exists>r. back_chain pred (u # r) \<and> dag_path W E (u # r) (unat (dist ! u)) \<and> set r \<subseteq> F))"

lemma dp_inv_init: "dp_inv W E {} F (W, replicate (length W) None)"
  unfolding dp_inv_def prod.case
  by (intro conjI allI impI; (rule exI [of _ "[]"])?) (auto intro: dag_path.single)

text \<open>One relaxation, in words and without the graph operations.\<close>

definition relax_edge ::
    "u64 list \<Rightarrow> nat \<Rightarrow> u64 \<Rightarrow> nat \<times> u64 \<Rightarrow> u64 list \<times> nat option list \<Rightarrow> u64 list \<times> nat option list" where
  "relax_edge W v v_dist ue st = (case (ue, st) of ((u, e), (dist, pred)) \<Rightarrow>
     (if dist ! u < v_dist + e + W ! u
      then (dist[u := v_dist + e + W ! u], pred[u := Some v]) else (dist, pred)))"

lemma dp_inv_relax:
  assumes inv: "dp_inv W E R F (dist, pred)" and v: "v \<in> F" "v < length W"
    and e: "(v, u, e) \<in> set E" and u: "u < length W" "u \<notin> F"
    and bound: "\<And>p w. dag_path W E p w \<Longrightarrow> w < 2 ^ 64"
    and R: "\<forall>(a, b, x) \<in> R. a \<in> F"
  shows "dp_inv W E (insert (v, u, e) R) F (relax_edge W v (dist ! v) (u, e) (dist, pred))"
    and "fst (relax_edge W v (dist ! v) (u, e) (dist, pred)) ! v = dist ! v"
proof -
  let ?c = "dist ! v + e + W ! u"
  note i = inv [unfolded dp_inv_def prod.case]
  obtain r where r: "back_chain pred (v # r)" "dag_path W E (v # r) (unat (dist ! v))" "set r \<subseteq> F"
    using i v(2) by blast
  have path: "dag_path W E (u # v # r) (unat (dist ! v) + unat e + unat (W ! u))"
    using r(2) e u(1) by (rule dag_path.step)
  from bound [OF path] have c: "unat ?c = unat (dist ! v) + unat e + unat (W ! u)"
    by (subst unat_plus_no_wrap; (subst unat_plus_no_wrap)?) simp_all
  have vu: "v \<noteq> u"
    using v(1) u(2) by blast
  then show "fst (relax_edge W v (dist ! v) (u, e) (dist, pred)) ! v = dist ! v"
    by (simp add: relax_edge_def)
  show "dp_inv W E (insert (v, u, e) R) F (relax_edge W v (dist ! v) (u, e) (dist, pred))"
  proof (cases "dist ! u < ?c")
    case False
    then have "unat (dist ! v) + unat e + unat (W ! u) \<le> unat (dist ! u)"
      using c by (simp add: word_less_nat_alt)
    with False show ?thesis
      using i by (simp add: relax_edge_def dp_inv_def)
  next
    case True
    let ?dist = "dist[u := ?c]" and ?pred = "pred[u := Some v]"
    have len: "length dist = length W" "length pred = length W"
      using i by auto
    have grow: "unat (dist ! u) \<le> unat ?c"
      using True by (simp add: word_less_nat_alt)
    have "\<exists>r'. back_chain ?pred (x # r') \<and> dag_path W E (x # r') (unat (?dist ! x)) \<and> set r' \<subseteq> F"
      if x: "x < length W" for x
    proof (cases "x = u")
      case True
      have "back_chain ?pred (v # r)"
        using r(1,3) u(2) vu by (intro back_chain_update) auto
      then have "back_chain ?pred (u # v # r)"
        using u(1) len by simp
      then show ?thesis
        using path c u(1) len r(3) v(1) True by (intro exI [of _ "v # r"]) simp
    next
      case False
      obtain r' where r': "back_chain pred (x # r')" "dag_path W E (x # r') (unat (dist ! x))" "set r' \<subseteq> F"
        using i x by blast
      then have "back_chain ?pred (x # r')"
        using u(2) False by (intro back_chain_update) auto
      then show ?thesis
        using r' False by auto
    qed
    moreover have "unat (W ! x) \<le> unat (?dist ! x)" if "x < length W" for x
      using i that c u(1) len by (cases "x = u") auto
    moreover have "unat (?dist ! a) + unat x + unat (W ! b) \<le> unat (?dist ! b)"
      if "(a, b, x) \<in> insert (v, u, e) R" for a b x
    proof (cases "(a, b, x) = (v, u, e)")
      case True
      then show ?thesis
        using c vu u(1) len by simp
    next
      case False
      then have ab: "(a, b, x) \<in> R" "a \<noteq> u"
        using that R u(2) by auto
      then have "unat (dist ! a) + unat x + unat (W ! b) \<le> unat (dist ! b)"
        using i by blast
      moreover have "unat (dist ! b) \<le> unat (?dist ! b)"
        using grow u(1) len by (cases "b = u") auto
      ultimately show ?thesis
        using ab(2) by simp
    qed
    ultimately show ?thesis
      using True len by (auto simp: relax_edge_def dp_inv_def)
  qed
qed

lemma dp_inv_fold:
  assumes "dp_inv W E R F (dist, pred)" "v \<in> F" "v < length W"
    "\<forall>(u, e) \<in> set ues. (v, u, e) \<in> set E \<and> u < length W \<and> u \<notin> F"
    "\<And>p w. dag_path W E p w \<Longrightarrow> w < 2 ^ 64" "\<forall>(a, b, x) \<in> R. a \<in> F"
  shows "dp_inv W E ((\<lambda>(u, e). (v, u, e)) ` set ues \<union> R) F (fold (relax_edge W v (dist ! v)) ues (dist, pred))"
  using assms(1,4,6)
proof (induction ues arbitrary: R dist pred)
  case (Cons ue ues)
  obtain u e where ue: "ue = (u, e)" by fastforce
  obtain dist' pred' where st: "relax_edge W v (dist ! v) (u, e) (dist, pred) = (dist', pred')"
    by fastforce
  have pre: "(v, u, e) \<in> set E" "u < length W" "u \<notin> F"
    using Cons.prems(2) by (auto simp: ue)
  note step = dp_inv_relax [OF Cons.prems(1) assms(2,3) pre assms(5) Cons.prems(3), unfolded st fst_conv]
  have "dp_inv W E ((\<lambda>(u, e). (v, u, e)) ` set ues \<union> insert (v, u, e) R) F
      (fold (relax_edge W v (dist' ! v)) ues (dist', pred'))"
    using step(1) Cons.prems(2,3) assms(2) by (intro Cons.IH) auto
  then show ?case
    using step(2) st by (simp add: ue Un_commute)
qed simp

text \<open>At the end no path is longer than the distance of its last node.\<close>

lemma dp_inv_optimal:
  assumes "dp_inv W E R F (dist, pred)" "set E \<subseteq> R" "dag_path W E (u # r) w"
  shows "w \<le> unat (dist ! u)"
  using assms(3)
proof (induction "u # r" w arbitrary: u r rule: dag_path.induct)
  case (single u)
  then show ?case using assms(1) by (simp add: dp_inv_def)
next
  case (step v r w u e)
  have "unat (dist ! v) + unat e + unat (W ! u) \<le> unat (dist ! u)"
    using assms(1,2) step.hyps(3) by (auto simp: dp_inv_def)
  with step.hyps(2) show ?case by simp
qed

lemma max_by_dist_some:
  assumes "xs \<noteq> []"
  shows "\<exists>x \<in> set xs. max_by_dist xs = Some x \<and> (\<forall>y \<in> set xs. snd y \<le> snd x)"
  using assms
proof (induction xs rule: rev_nonempty_induct)
  case (single x)
  then show ?case by (simp add: max_by_dist_def)
next
  case (snoc x xs)
  then obtain y where "y \<in> set xs" "max_by_dist xs = Some y" "\<forall>z \<in> set xs. snd z \<le> snd y"
    by blast
  then show ?case
    by (auto simp: max_by_dist_def)
qed

lemma dp_inv_mono: "dp_inv W E R F st \<Longrightarrow> F \<subseteq> F' \<Longrightarrow> dp_inv W E R F' st"
  unfolding dp_inv_def by (cases st) (simp, meson order_trans)

lemma relax_edge_lengths:
  "length (fst (relax_edge W v d ue st)) = length (fst st)"
  "length (snd (relax_edge W v d ue st)) = length (snd st)"
  by (cases ue; cases st; simp add: relax_edge_def)+

text \<open>What holds of the state whatever the weights: the lengths, and that a predecessor pointer
  follows an edge.\<close>

definition pred_ok :: "nat \<Rightarrow> (nat \<times> nat) set \<Rightarrow> u64 list \<times> nat option list \<Rightarrow> bool" where
  "pred_ok n R st \<longleftrightarrow> length (fst st) = n \<and> length (snd st) = n \<and>
     (\<forall>u v. u < n \<longrightarrow> snd st ! u = Some v \<longrightarrow> (v, u) \<in> R)"

section \<open>The loops on the graph\<close>

definition dag_weights :: "'d dag_api \<Rightarrow> 'd CondensationDag \<Rightarrow> u64 list" where
  "dag_weights dapi c = map weight (pg_nodes dapi (dag c))"

locale dag_graph = petgraph dapi for dapi :: "('d, SuperNode, u64) petgraph_api"
begin

lemma length_dag_weights [simp]: "length (dag_weights dapi c) = pg_node_count dapi (dag c)"
  by (simp add: dag_weights_def)

lemma super_node_eq:
  "v < pg_node_count dapi (dag c) \<Longrightarrow> super_node dapi c v = Some (pg_nodes dapi (dag c) ! v)"
  by (simp add: super_node_def node_weight_eq)

lemma init_loop:
  assumes "set vs \<subseteq> {..<pg_node_count dapi (dag c)}" "length dist = pg_node_count dapi (dag c)"
  shows "\<exists>dist'. foldM (init_dist dapi c) vs dist = Some dist' \<and> length dist' = pg_node_count dapi (dag c) \<and>
    (\<forall>i < pg_node_count dapi (dag c). dist' ! i = (if i \<in> set vs then dag_weights dapi c ! i else dist ! i))"
  using assms
proof (induction vs arbitrary: dist)
  case (Cons v vs)
  let ?d = "dist[v := dag_weights dapi c ! v]"
  have "init_dist dapi c v dist = Some ?d"
    using Cons.prems by (simp add: init_dist_def super_node_eq index_def dag_weights_def)
  moreover obtain d' where "foldM (init_dist dapi c) vs ?d = Some d'" "length d' = pg_node_count dapi (dag c)"
    "\<forall>i < pg_node_count dapi (dag c). d' ! i = (if i \<in> set vs then dag_weights dapi c ! i else ?d ! i)"
    using Cons.IH [of ?d] Cons.prems by auto
  ultimately show ?case
    using Cons.prems by (auto simp: nth_list_update)
qed simp

lemma relax_eq:
  assumes "e < pg_edge_count dapi (dag c)" "pg_edges dapi (dag c) ! e = (v, u, w)"
    "u < pg_node_count dapi (dag c)" "length (fst st) = pg_node_count dapi (dag c)"
    "length (snd st) = pg_node_count dapi (dag c)"
  shows "relax dapi c v' d e st = Some (relax_edge (dag_weights dapi c) v' d (u, w) st)"
  using assms by (cases st) (simp add: relax_def relax_edge_def endpoints_eq edge_weight_eq super_node_eq
      index_def dag_weights_def Let_def)

lemma relax_loop:
  assumes "\<forall>e \<in> set es. e < pg_edge_count dapi (dag c)"
    "\<forall>(v, u, w) \<in> set (pg_edges dapi (dag c)). u < pg_node_count dapi (dag c)"
    "length (fst st) = pg_node_count dapi (dag c)" "length (snd st) = pg_node_count dapi (dag c)"
  shows "foldM (relax dapi c v d) es st =
    Some (fold (relax_edge (dag_weights dapi c) v d) (map (\<lambda>e. snd (pg_edges dapi (dag c) ! e)) es) st)"
  using assms
proof (induction es arbitrary: st)
  case (Cons e es)
  obtain a u w where e: "pg_edges dapi (dag c) ! e = (a, u, w)" by (metis surj_pair)
  then have "(a, u, w) \<in> set (pg_edges dapi (dag c))"
    using Cons.prems(1) by (metis length_pg_edges list.set_intros(1) nth_mem)
  then have "u < pg_node_count dapi (dag c)"
    using Cons.prems(2) by auto
  with Cons e show ?case
    by (simp add: relax_eq [of e c a u w] relax_edge_lengths)
qed simp

text \<open>The loop over the topological order.\<close>

lemma topo_loop:
  assumes edges: "\<forall>(v, u, w) \<in> set (pg_edges dapi (dag c)).
      v < pg_node_count dapi (dag c) \<and> u < pg_node_count dapi (dag c)"
    and topo: "toposort_ok dapi (dag c) (Some order)"
    and bound: "\<forall>p w. dag_path (dag_weights dapi c) (pg_edges dapi (dag c)) p w \<longrightarrow> w < 2 ^ 64"
    and k: "k \<le> length order"
  shows "\<exists>st. foldM (relax_node dapi c) (take k order)
      (dag_weights dapi c, replicate (pg_node_count dapi (dag c)) None) = Some st \<and>
    dp_inv (dag_weights dapi c) (pg_edges dapi (dag c))
      {x \<in> set (pg_edges dapi (dag c)). fst x \<in> set (take k order)} (set (take k order)) st"
  using k
proof (induction k)
  case 0
  then show ?case
    using dp_inv_init [of "dag_weights dapi c"] by simp
next
  case (Suc k)
  let ?W = "dag_weights dapi c" and ?E = "pg_edges dapi (dag c)" and ?n = "pg_node_count dapi (dag c)"
  let ?F = "set (take k order)" and ?F' = "set (take (Suc k) order)" and ?v = "order ! k"
  obtain dist pred where IH: "foldM (relax_node dapi c) (take k order) (?W, replicate ?n None) = Some (dist, pred)"
    "dp_inv ?W ?E {x \<in> set ?E. fst x \<in> ?F} ?F (dist, pred)"
    using Suc by fastforce
  have order: "distinct order" "set order = {..<?n}"
    "\<And>i j. i < length order \<Longrightarrow> j < length order \<Longrightarrow> (order ! i, order ! j) \<in> pg_rel dapi (dag c) \<Longrightarrow> i < j"
    using topo by (auto simp: toposort_ok_def)
  have F': "?F' = insert ?v ?F"
    using Suc.prems by (simp add: take_Suc_conv_app_nth)
  have v: "?v < ?n"
    using order(2) Suc.prems by (metis Suc_le_lessD lessThan_iff nth_mem)
  have len: "length dist = ?n" "length pred = ?n"
    using IH(2) by (auto simp: dp_inv_def)
  let ?es = "pg_edges_directed dapi (dag c) ?v Outgoing"
  let ?ues = "map (\<lambda>e. snd (?E ! e)) ?es"
  have ues: "(u, e) \<in> set ?ues \<longleftrightarrow> (?v, u, e) \<in> set ?E" for u e
  proof -
    have "(u, e) \<in> set ?ues \<longleftrightarrow> (\<exists>x < length ?E. fst (?E ! x) = ?v \<and> snd (?E ! x) = (u, e))"
      unfolding set_map image_iff edges_directed_set end_of_def by auto
    moreover have "fst x = ?v \<and> snd x = (u, e) \<longleftrightarrow> x = (?v, u, e)" for x
      by (cases x) auto
    ultimately show ?thesis by (simp only: in_set_conv_nth)
  qed
  have "foldM (relax dapi c ?v (dist ! ?v)) ?es (dist, pred) = Some (fold (relax_edge ?W ?v (dist ! ?v)) ?ues (dist, pred))"
    using edges len by (intro relax_loop) (auto simp: edges_directed_set)
  then have node: "relax_node dapi c ?v (dist, pred) = Some (fold (relax_edge ?W ?v (dist ! ?v)) ?ues (dist, pred))"
    using v len by (simp add: relax_node_def index_def)
  have fresh: "u \<notin> ?F'" if "(?v, u, e) \<in> set ?E" for u e
  proof
    assume "u \<in> ?F'"
    then obtain j where j: "j < Suc k" "j < length order" "order ! j = u"
      by (auto simp: in_set_conv_nth)
    have "(?v, u) \<in> pg_rel dapi (dag c)"
      using that by (force simp: pg_rel_def)
    then show False
      using order(3) [of k j] j Suc.prems by simp
  qed
  have "dp_inv ?W ?E ((\<lambda>(u, e). (?v, u, e)) ` set ?ues \<union> {x \<in> set ?E. fst x \<in> ?F}) ?F'
      (fold (relax_edge ?W ?v (dist ! ?v)) ?ues (dist, pred))"
  proof (rule dp_inv_fold)
    show "dp_inv ?W ?E {x \<in> set ?E. fst x \<in> ?F} ?F' (dist, pred)"
      using IH(2) by (rule dp_inv_mono) (auto simp: F')
    show "\<forall>(u, e) \<in> set ?ues. (?v, u, e) \<in> set ?E \<and> u < length ?W \<and> u \<notin> ?F'"
    proof (clarify)
      fix u e assume "(u, e) \<in> set ?ues"
      then have "(?v, u, e) \<in> set ?E" by (simp only: ues)
      then show "(?v, u, e) \<in> set ?E \<and> u < length ?W \<and> u \<notin> ?F'"
        using edges fresh by auto
    qed
  qed (use v bound F' in auto)
  moreover have "(\<lambda>(u, e). (?v, u, e)) ` set ?ues \<union> {x \<in> set ?E. fst x \<in> ?F} =
      {x \<in> set ?E. fst x \<in> ?F'}"
    unfolding F' using ues by (auto simp del: set_map)
  moreover have "take (Suc k) order = take k order @ [?v]"
    using Suc.prems by (simp add: take_Suc_conv_app_nth)
  ultimately show ?case
    using IH(1) node by (simp add: foldM_append)
qed

lemma critical_path_ok:
  assumes edges: "\<forall>(v, u, w) \<in> set (pg_edges dapi (dag c)).
      v < pg_node_count dapi (dag c) \<and> u < pg_node_count dapi (dag c)"
    and topo: "toposort_ok dapi (dag c) (toposort (dag c))" and acyclic: "acyclic (pg_rel dapi (dag c))"
    and bound: "\<forall>p w. dag_path (dag_weights dapi c) (pg_edges dapi (dag c)) p w \<longrightarrow> w < 2 ^ 64"
    and nonempty: "0 < pg_node_count dapi (dag c)"
  shows "\<exists>cp p. critical_path_dp dapi toposort c = Some (Some cp) \<and>
    dag_path (dag_weights dapi c) (pg_edges dapi (dag c)) (rev p) (unat (total_weight cp)) \<and>
    chain cp = map (\<lambda>i. \<lparr>cp_members = sn_members (pg_nodes dapi (dag c) ! i),
      cp_weight = weight (pg_nodes dapi (dag c) ! i)\<rparr>) p \<and>
    (\<forall>q w. dag_path (dag_weights dapi c) (pg_edges dapi (dag c)) q w \<longrightarrow> w \<le> unat (total_weight cp))"
proof -
  let ?W = "dag_weights dapi c" and ?E = "pg_edges dapi (dag c)" and ?n = "pg_node_count dapi (dag c)"
  obtain order where order: "toposort (dag c) = Some order"
    using topo acyclic by (auto simp: toposort_ok_def split: option.splits)
  note ok = topo [unfolded order]
  then have set_order: "set order = {..<?n}"
    by (simp add: toposort_ok_def)
  obtain W' where W': "foldM (init_dist dapi c) order (replicate ?n 0) = Some W'" "length W' = ?n"
    "\<forall>i < ?n. W' ! i = ?W ! i"
    using init_loop [of order c "replicate ?n 0"] by (auto simp: set_order)
  then have "W' = ?W"
    by (intro nth_equalityI) auto
  obtain dist pred where st: "foldM (relax_node dapi c) order (?W, replicate ?n None) = Some (dist, pred)"
    "dp_inv ?W ?E {x \<in> set ?E. fst x \<in> {..<?n}} {..<?n} (dist, pred)"
    using topo_loop [where k = "length order", OF edges ok bound] by (auto simp: set_order)
  have len: "length dist = ?n"
    using st(2) by (simp add: dp_inv_def)
  obtain u d where u: "max_by_dist (enumerate 0 dist) = Some (u, d)" "(u, d) \<in> set (enumerate 0 dist)"
    "\<forall>y \<in> set (enumerate 0 dist). snd y \<le> d"
  proof -
    have "length (enumerate 0 dist) \<noteq> 0"
      using nonempty len by simp
    then have "enumerate 0 dist \<noteq> []"
      by (simp only: length_0_conv not_False_eq_True)
    from max_by_dist_some [OF this] show thesis
      using that by (metis surj_pair snd_conv)
  qed
  then have ud: "u < ?n" "dist ! u = d"
    using len by (force simp: in_set_enumerate_eq)+
  have max: "dist ! x \<le> d" if "x < ?n" for x
  proof -
    have "(x, dist ! x) \<in> set (enumerate 0 dist)"
      using that len by (simp add: in_set_enumerate_eq)
    with u(3) show ?thesis by force
  qed
  obtain r where r: "back_chain pred (u # r)" "dag_path ?W ?E (u # r) (unat d)"
    using st(2) ud by (auto simp: dp_inv_def)
  have trace: "trace_back pred u [u] = Some (u # r)"
    using trace_back_chain [OF r(1), of "[u]"] by simp
  have nodes: "\<forall>i \<in> set (rev (u # r)). i < ?n"
    using dag_path_nodes [OF r(2)] by auto
  let ?node = "\<lambda>i. \<lparr>cp_members = sn_members (pg_nodes dapi (dag c) ! i), cp_weight = weight (pg_nodes dapi (dag c) ! i)\<rparr>"
  have "those (map (\<lambda>idx. do {
      sn \<leftarrow> super_node dapi c idx;
      Some \<lparr>cp_members = sn_members sn, cp_weight = weight sn\<rparr> }) (rev (u # r))) = Some (map ?node (rev (u # r)))"
    using nodes by (intro those_map_Some) (auto simp: super_node_eq)
  then have "critical_path_dp dapi toposort c = Some (Some \<lparr>chain = map ?node (rev (u # r)), total_weight = d\<rparr>)"
    using nonempty order W'(1) \<open>W' = ?W\<close> st(1) u(1) trace
    by (simp add: critical_path_dp_def dag_node_count_def)
  moreover have "w \<le> unat d" if path: "dag_path ?W ?E q w" for q w
  proof -
    obtain x q' where q: "q = x # q'" "x < ?n"
      using dag_path_nodes [OF path] by (cases q) auto
    have "set ?E \<subseteq> {x \<in> set ?E. fst x \<in> {..<?n}}"
      using edges by auto
    from dp_inv_optimal [OF st(2) this path [unfolded q(1)]] have "w \<le> unat (dist ! x)" .
    also have "\<dots> \<le> unat d"
      using max [OF q(2)] by (simp add: word_le_nat_alt)
    finally show ?thesis .
  qed
  ultimately show ?thesis
    using r(2) by (intro exI [of _ "\<lparr>chain = map ?node (rev (u # r)), total_weight = d\<rparr>"] exI [of _ "rev (u # r)"]) auto
qed

subsection \<open>Without a bound on the weights\<close>

lemma pred_ok_relax:
  assumes "pred_ok (pg_node_count dapi (dag c)) (pg_rel dapi (dag c)) st" "(v, u, e) \<in> set (pg_edges dapi (dag c))"
  shows "pred_ok (pg_node_count dapi (dag c)) (pg_rel dapi (dag c)) (relax_edge W v d (u, e) st)"
proof -
  have "(v, u) \<in> pg_rel dapi (dag c)"
    using assms(2) by (force simp: pg_rel_def)
  then show ?thesis
    using assms(1) by (cases st; cases "u < pg_node_count dapi (dag c)")
      (auto simp: pred_ok_def relax_edge_def nth_list_update split: if_splits)
qed

lemma relax_node_total:
  assumes edges: "\<forall>(v, u, w) \<in> set (pg_edges dapi (dag c)).
      v < pg_node_count dapi (dag c) \<and> u < pg_node_count dapi (dag c)"
    and st: "pred_ok (pg_node_count dapi (dag c)) (pg_rel dapi (dag c)) st" and v: "v < pg_node_count dapi (dag c)"
  shows "\<exists>st'. relax_node dapi c v st = Some st' \<and> pred_ok (pg_node_count dapi (dag c)) (pg_rel dapi (dag c)) st'"
proof -
  let ?E = "pg_edges dapi (dag c)" and ?ok = "pred_ok (pg_node_count dapi (dag c)) (pg_rel dapi (dag c))"
  let ?es = "pg_edges_directed dapi (dag c) v Outgoing"
  let ?ues = "map (\<lambda>e. snd (?E ! e)) ?es"
  have len: "length (fst st) = pg_node_count dapi (dag c)" "length (snd st) = pg_node_count dapi (dag c)"
    using st by (auto simp: pred_ok_def)
  have "foldM (relax dapi c v (fst st ! v)) ?es st =
      Some (fold (relax_edge (dag_weights dapi c) v (fst st ! v)) ?ues st)"
    using edges len by (intro relax_loop) (auto simp: edges_directed_set)
  moreover have "\<forall>(u, e) \<in> set ?ues. (v, u, e) \<in> set ?E"
    by (auto simp: edges_directed_set end_of_def)
  then have "?ok (fold (relax_edge W v d) ues st)" if "set ues \<subseteq> set ?ues" for W d ues
    using st that
  proof (induction ues arbitrary: st)
    case (Cons ue ues)
    obtain u e where ue: "ue = (u, e)" by fastforce
    with Cons.prems have "?ok (relax_edge W v d (u, e) st)"
      by (intro pred_ok_relax) auto
    with Cons ue show ?case by simp
  qed simp
  ultimately show ?thesis
    using v len by (simp add: relax_node_def index_def)
qed

lemma critical_path_total:
  assumes edges: "\<forall>(v, u, w) \<in> set (pg_edges dapi (dag c)).
      v < pg_node_count dapi (dag c) \<and> u < pg_node_count dapi (dag c)"
    and topo: "toposort_ok dapi (dag c) (toposort (dag c))" and acyclic: "acyclic (pg_rel dapi (dag c))"
    and nonempty: "0 < pg_node_count dapi (dag c)"
  shows "\<exists>cp p. critical_path_dp dapi toposort c = Some (Some cp) \<and>
    chain cp = map (\<lambda>i. \<lparr>cp_members = sn_members (pg_nodes dapi (dag c) ! i),
      cp_weight = weight (pg_nodes dapi (dag c) ! i)\<rparr>) p \<and>
    p \<noteq> [] \<and> set p \<subseteq> {..<pg_node_count dapi (dag c)} \<and> successively (\<lambda>a b. (a, b) \<in> pg_rel dapi (dag c)) p"
proof -
  let ?n = "pg_node_count dapi (dag c)" and ?R = "pg_rel dapi (dag c)"
  obtain order where order: "toposort (dag c) = Some order"
    using topo acyclic by (auto simp: toposort_ok_def split: option.splits)
  have ord: "distinct order" "set order = {..<?n}"
    "\<And>i j. i < length order \<Longrightarrow> j < length order \<Longrightarrow> (order ! i, order ! j) \<in> ?R \<Longrightarrow> i < j"
    using topo order by (auto simp: toposort_ok_def)
  obtain W where W: "foldM (init_dist dapi c) order (replicate ?n 0) = Some W" "length W = ?n"
    using init_loop [of order c "replicate ?n 0"] by (auto simp: ord(2))
  have loop: "\<exists>st. foldM (relax_node dapi c) vs st0 = Some st \<and> pred_ok ?n ?R st"
    if "pred_ok ?n ?R st0" "set vs \<subseteq> {..<?n}" for vs st0
    using that
  proof (induction vs arbitrary: st0)
    case (Cons v vs)
    from Cons.prems have "v < ?n" "set vs \<subseteq> {..<?n}" by auto
    from relax_node_total [OF edges Cons.prems(1) this(1)] obtain st1
      where "relax_node dapi c v st0 = Some st1" "pred_ok ?n ?R st1"
      by blast
    with Cons.IH [of st1] \<open>set vs \<subseteq> {..<?n}\<close> show ?case by simp
  qed simp
  have "pred_ok ?n ?R (W, replicate ?n None)"
    using W(2) by (simp add: pred_ok_def)
  from loop [OF this, of order] obtain st where st': "foldM (relax_node dapi c) order (W, replicate ?n None) = Some st" "pred_ok ?n ?R st"
    using ord(2) by blast
  obtain dist pred where "st = (dist, pred)" by fastforce
  with st' have st: "foldM (relax_node dapi c) order (W, replicate ?n None) = Some (dist, pred)"
    "length dist = ?n" "length pred = ?n" "\<And>u v. u < ?n \<Longrightarrow> pred ! u = Some v \<Longrightarrow> (v, u) \<in> ?R"
    by (simp_all add: pred_ok_def)
  have "length (enumerate 0 dist) \<noteq> 0"
    using nonempty st(2) by simp
  then have "enumerate 0 dist \<noteq> []"
    by (simp only: length_0_conv not_False_eq_True)
  from max_by_dist_some [OF this] obtain u d where u: "max_by_dist (enumerate 0 dist) = Some (u, d)" "u < ?n"
    using st(2) by (auto simp: in_set_enumerate_eq)
  define rank where "rank v = (THE i. i < length order \<and> order ! i = v)" for v
  have rank: "rank (order ! i) = i" if "i < length order" for i
    unfolding rank_def using that ord(1) by (intro the_equality) (auto simp: nth_eq_iff_index_eq)
  have down: "v < length pred \<and> rank v < rank w \<and> (v, w) \<in> ?R" if w: "w < length pred" "pred ! w = Some v" for v w
  proof -
    have R: "(v, w) \<in> ?R"
      using st(3,4) w by simp
    then have "v < ?n" "w < ?n"
      using edges by (auto simp: pg_rel_def)
    then obtain i j where "i < length order" "order ! i = v" "j < length order" "order ! j = w"
      using ord(2) by (metis in_set_conv_nth lessThan_iff)
    then show ?thesis
      using ord(3) [of i j] R rank \<open>v < ?n\<close> st(3) by auto
  qed
  obtain r where r: "trace_back pred u [u] = Some ([u] @ r)" "set r \<subseteq> {..<length pred}"
    "successively (\<lambda>a b. (b, a) \<in> ?R) (u # r)"
    using trace_back_total [where R = "\<lambda>a b. (a, b) \<in> ?R" and rank = rank, OF down, of u "[u]"] u(2) st(3) by auto
  let ?node = "\<lambda>i. \<lparr>cp_members = sn_members (pg_nodes dapi (dag c) ! i), cp_weight = weight (pg_nodes dapi (dag c) ! i)\<rparr>"
  have nodes: "set (u # r) \<subseteq> {..<?n}"
    using r(2) u(2) st(3) by auto
  then have "those (map (\<lambda>idx. do {
      sn \<leftarrow> super_node dapi c idx;
      Some \<lparr>cp_members = sn_members sn, cp_weight = weight sn\<rparr> }) (rev (u # r))) = Some (map ?node (rev (u # r)))"
    by (intro those_map_Some) (auto simp: super_node_eq)
  then have "critical_path_dp dapi toposort c = Some (Some \<lparr>chain = map ?node (rev (u # r)), total_weight = d\<rparr>)"
    using nonempty order W(1) st(1) u(1) r(1) by (simp add: critical_path_dp_def dag_node_count_def)
  moreover have "successively (\<lambda>a b. (a, b) \<in> ?R) (rev (u # r))"
    using r(3) unfolding successively_rev .
  ultimately show ?thesis
    using nodes by (intro exI [of _ "\<lparr>chain = map ?node (rev (u # r)), total_weight = d\<rparr>"] exI [of _ "rev (u # r)"]) auto
qed

end

interpretation adj_dag: dag_graph adj_api
  by unfold_locales

context scc_graph
begin

text \<open>The weighted condensation as the critical path sees it.\<close>

lemma weighted_dag:
  assumes "wfg_inv api g" "tarjan_ok api (graph g) (tarjan (graph g))"
  obtains c0 c where "build_condensation api dapi tarjan g = Some c0" "apply_max_heuristic api dapi g c0 = Some c"
    "\<forall>(v, u, w) \<in> set (pg_edges dapi (dag c)). v < pg_node_count dapi (dag c) \<and> u < pg_node_count dapi (dag c)"
    "acyclic (pg_rel dapi (dag c))" "pg_node_count dapi (dag c) = 0 \<longleftrightarrow> wfg_threads g = {}"
proof -
  let ?E = "wfg_edges api g"
  obtain c0 cs where c0: "build_condensation api dapi tarjan g = Some c0"
    and cs: "sccs_ok (wait_rel api g) (wfg_threads g) cs" "condensed dapi ?E cs c0"
    using build_condensation_ok [where tarjan = tarjan, OF assms] by blast
  obtain c where c: "apply_max_heuristic api dapi g c0 = Some c" "pg_edges dapi (dag c) = pg_edges dapi (dag c0)"
    "pg_nodes dapi (dag c) = map (\<lambda>(i, ms). \<lparr>scc_index = i, sn_members = ms, weight = heuristic_spec ?E ms\<rparr>)
       (enumerate 0 cs)"
    by (rule apply_max_heuristic_eq [OF assms(1) cs])
  have n: "pg_node_count dapi (dag c) = length cs"
    using arg_cong [OF c(3), of length] by simp
  have "pg_node_count dapi (dag c) = 0 \<longleftrightarrow> wfg_threads g = {}"
    using sccs_okD(2,3) [OF cs(1)] by (cases cs) (auto simp: n)
  moreover have "\<forall>(v, u, w) \<in> set (pg_edges dapi (dag c)).
      v < pg_node_count dapi (dag c) \<and> u < pg_node_count dapi (dag c)"
    using cs(2) unfolding c(2) n condensed_def by blast
  moreover have "pg_rel dapi (dag c) \<subseteq> {(i, j). j < i}"
    using condensed_edge_less [OF cs] by (auto simp: pg_rel_def c(2))
  then have "acyclic (pg_rel dapi (dag c))"
    by (rule acyclic_descending)
  ultimately show thesis
    using that [OF c0 c(1)] by simp
qed

end

section \<open>Properties\<close>

text \<open>Property C12. On a weighted condensation whose path weights fit into 64 bits, the critical
  path never panics and its trace back ends; there is none exactly for the empty graph, and
  otherwise the chain is a real path of the condensation whose weight is \<open>total_weight\<close>, and
  no path of the condensation weighs more.\<close>

theorem critical_path_optimal:
  assumes "petgraph api" "petgraph dapi" "wfg_inv api g" "tarjan_ok api (graph g) (tarjan (graph g))"
    "build_condensation api dapi tarjan g = Some c0" "apply_max_heuristic api dapi g c0 = Some c"
    "toposort_ok dapi (dag c) (toposort (dag c))"
    "\<forall>p w. dag_path (dag_weights dapi c) (pg_edges dapi (dag c)) p w \<longrightarrow> w < 2 ^ 64"
  shows "if wfg_threads g = {} then critical_path_dp dapi toposort c = Some None
    else \<exists>cp p. critical_path_dp dapi toposort c = Some (Some cp) \<and>
      dag_path (dag_weights dapi c) (pg_edges dapi (dag c)) (rev p) (unat (total_weight cp)) \<and>
      chain cp = map (\<lambda>i. \<lparr>cp_members = sn_members (pg_nodes dapi (dag c) ! i),
        cp_weight = weight (pg_nodes dapi (dag c) ! i)\<rparr>) p \<and>
      (\<forall>q w. dag_path (dag_weights dapi c) (pg_edges dapi (dag c)) q w \<longrightarrow> w \<le> unat (total_weight cp))"
proof -
  note sg = scc_graph.intro [OF wfg_graph.intro [OF assms(1)] assms(2)]
  obtain c0' c' where c: "build_condensation api dapi tarjan g = Some c0'" "apply_max_heuristic api dapi g c0' = Some c'"
    "\<forall>(v, u, w) \<in> set (pg_edges dapi (dag c')). v < pg_node_count dapi (dag c') \<and> u < pg_node_count dapi (dag c')"
    "acyclic (pg_rel dapi (dag c'))" "pg_node_count dapi (dag c') = 0 \<longleftrightarrow> wfg_threads g = {}"
    by (rule scc_graph.weighted_dag [where tarjan = tarjan, OF sg assms(3,4)])
  then have "c' = c"
    using assms(5,6) by simp
  note c = c(3-5) [unfolded this]
  show ?thesis
  proof (cases "wfg_threads g = {}")
    case True
    then show ?thesis
      using c(3) by (simp add: critical_path_dp_empty)
  next
    case False
    then have "0 < pg_node_count dapi (dag c)"
      using c(3) by blast
    from dag_graph.critical_path_ok [where toposort = toposort,
        OF dag_graph.intro [OF assms(2)] c(1) assms(7) c(2) assms(8) this] False
    show ?thesis by simp
  qed
qed

text \<open>Property C13. Whatever the weights, also where their sums wrap around in 64 bits, the
  critical path never panics and its trace back ends, in a chain of super-nodes each joined
  to the next by an edge of the condensation.\<close>

theorem critical_path_returns:
  assumes "petgraph api" "petgraph dapi" "wfg_inv api g" "tarjan_ok api (graph g) (tarjan (graph g))"
    "build_condensation api dapi tarjan g = Some c0" "apply_max_heuristic api dapi g c0 = Some c"
    "toposort_ok dapi (dag c) (toposort (dag c))" "wfg_threads g \<noteq> {}"
  shows "\<exists>cp p. critical_path_dp dapi toposort c = Some (Some cp) \<and>
    chain cp = map (\<lambda>i. \<lparr>cp_members = sn_members (pg_nodes dapi (dag c) ! i),
      cp_weight = weight (pg_nodes dapi (dag c) ! i)\<rparr>) p \<and>
    p \<noteq> [] \<and> set p \<subseteq> {..<pg_node_count dapi (dag c)} \<and> successively (\<lambda>a b. (a, b) \<in> pg_rel dapi (dag c)) p"
proof -
  note sg = scc_graph.intro [OF wfg_graph.intro [OF assms(1)] assms(2)]
  obtain c0' c' where c: "build_condensation api dapi tarjan g = Some c0'" "apply_max_heuristic api dapi g c0' = Some c'"
    "\<forall>(v, u, w) \<in> set (pg_edges dapi (dag c')). v < pg_node_count dapi (dag c') \<and> u < pg_node_count dapi (dag c')"
    "acyclic (pg_rel dapi (dag c'))" "pg_node_count dapi (dag c') = 0 \<longleftrightarrow> wfg_threads g = {}"
    by (rule scc_graph.weighted_dag [where tarjan = tarjan, OF sg assms(3,4)])
  then have "c' = c"
    using assms(5,6) by simp
  note c = c(3-5) [unfolded this]
  show ?thesis
    using dag_graph.critical_path_total [where toposort = toposort, OF dag_graph.intro [OF assms(2)] c(1) assms(7) c(2)]
      c(3) assms(8) by simp
qed

text \<open>The condensation of the deadlock example: the knot weighs 100, the third thread 50, and
  an edge of weight 50 joins them.\<close>

definition deadlock_dag0 :: "(SuperNode, u64) adj CondensationDag" where
  "deadlock_dag0 = the (build_condensation adj_api adj_api deadlock_sccs deadlock)"

definition deadlock_dag :: "(SuperNode, u64) adj CondensationDag" where
  "deadlock_dag = the (apply_max_heuristic adj_api adj_api deadlock deadlock_dag0)"

lemma deadlock_dag_ok:
  "build_condensation adj_api adj_api deadlock_sccs deadlock = Some deadlock_dag0"
  "apply_max_heuristic adj_api adj_api deadlock deadlock_dag0 = Some deadlock_dag"
proof -
  obtain c0 cs where c0: "build_condensation adj_api adj_api deadlock_sccs deadlock = Some c0"
    "sccs_ok (wait_rel adj_api deadlock) (wfg_threads deadlock) cs"
    "condensed adj_api (wfg_edges adj_api deadlock) cs c0"
    using adj_scc.build_condensation_ok [where tarjan = deadlock_sccs, OF deadlock_ok(1) deadlock_tarjan]
    by blast
  obtain c where "apply_max_heuristic adj_api adj_api deadlock c0 = Some c"
    by (rule adj_scc.apply_max_heuristic_eq [OF deadlock_ok(1) c0(2,3)])
  with c0(1) show "build_condensation adj_api adj_api deadlock_sccs deadlock = Some deadlock_dag0"
    "apply_max_heuristic adj_api adj_api deadlock deadlock_dag0 = Some deadlock_dag"
    by (simp_all add: deadlock_dag0_def deadlock_dag_def)
qed

lemma deadlock_dag_graph:
  "map weight (fst (dag deadlock_dag)) = [100, 50]" "snd (dag deadlock_dag) = [(1, 0, 50)]"
  by code_simp+

lemma deadlock_toposort: "toposort_ok adj_api (dag deadlock_dag) (Some [1, 0])"
  using arg_cong [OF deadlock_dag_graph(1), of length]
  by (auto simp: toposort_ok_def adj_rel deadlock_dag_graph(2) less_Suc_eq)

lemma deadlock_paths:
  "dag_path [100, 50] [(1, 0, 50)] p w \<Longrightarrow>
   (p = [0] \<and> w = 100) \<or> (p = [1] \<and> w = 50) \<or> (p = [0, 1] \<and> w = 200)"
  by (induction rule: dag_path.induct) (auto simp: less_Suc_eq)

lemma critical_path_optimal_witness:
  "\<exists>cp. critical_path_dp adj_api (\<lambda>_. Some [1, 0]) deadlock_dag = Some (Some cp) \<and>
    unat (total_weight cp) = 200"
proof -
  have "\<forall>p w. dag_path (dag_weights adj_api deadlock_dag) (pg_edges adj_api (dag deadlock_dag)) p w \<longrightarrow> w < 2 ^ 64"
    using deadlock_paths by (fastforce simp: dag_weights_def deadlock_dag_graph)
  from critical_path_optimal [where tarjan = deadlock_sccs and toposort = "\<lambda>_. Some [1, 0]",
      OF adj.petgraph_axioms adj.petgraph_axioms deadlock_ok(1) deadlock_tarjan
      deadlock_dag_ok deadlock_toposort this]
  obtain cp p where cp: "critical_path_dp adj_api (\<lambda>_. Some [1, 0]) deadlock_dag = Some (Some cp)"
    "dag_path [100, 50] [(1, 0, 50)] (rev p) (unat (total_weight cp))"
    "\<And>q w. dag_path [100, 50] [(1, 0, 50)] q w \<Longrightarrow> w \<le> unat (total_weight cp)"
    by (auto simp: deadlock_ok(3) dag_weights_def deadlock_dag_graph)
  have "dag_path [100, 50 :: u64] [(1, 0, 50)] [1] (unat ([100, 50 :: u64] ! 1))"
    by (rule dag_path.single) simp
  from dag_path.step [OF this, of 0 50] have "200 \<le> unat (total_weight cp)"
    by (intro cp(3)) simp
  with deadlock_paths [OF cp(2)] cp(1) show ?thesis by auto
qed

lemma critical_path_returns_witness:
  "\<exists>cp. critical_path_dp adj_api (\<lambda>_. Some [1, 0]) deadlock_dag = Some (Some cp)"
  using critical_path_returns [where tarjan = deadlock_sccs and toposort = "\<lambda>_. Some [1, 0]",
      OF adj.petgraph_axioms adj.petgraph_axioms deadlock_ok(1) deadlock_tarjan
      deadlock_dag_ok deadlock_toposort] by (auto simp: deadlock_ok(3))

end
