(* ===== verification/Scc_Reference.thy ===== *)
theory Scc_Reference
  imports Petgraph
begin

text \<open>
  Reference implementations, on the adjacency-list graphs, of the two graph algorithms of
  petgraph that the program calls. They order nodes by the number of nodes they reach. The
  lemmas show that they have the documented properties on every graph, so that these can be
  assumed of the library together.
\<close>

definition reachable :: "('n, 'e) adj \<Rightarrow> nat \<Rightarrow> nat set" where
  "reachable g u = (pg_rel adj_api g)\<^sup>* `` {u}"

definition reach_rank :: "('n, 'e) adj \<Rightarrow> nat \<Rightarrow> nat" where
  "reach_rank g u = card (reachable g u)"

definition mutual :: "('n, 'e) adj \<Rightarrow> nat \<Rightarrow> nat \<Rightarrow> bool" where
  "mutual g u v \<longleftrightarrow> v \<in> reachable g u \<and> u \<in> reachable g v"

text \<open>One component per least member, in the order of what they reach.\<close>

definition adj_sccs :: "('n, 'e) adj \<Rightarrow> nat list list" where
  "adj_sccs g = map (\<lambda>u. filter (mutual g u) [0..<length (fst g)])
     (sort_key (reach_rank g) (filter (\<lambda>u. \<forall>v < u. \<not> mutual g u v) [0..<length (fst g)]))"

definition adj_toposort :: "('n, 'e) adj \<Rightarrow> nat list option" where
  "adj_toposort g = (if acyclic (pg_rel adj_api g) then Some (rev (sort_key (reach_rank g) [0..<length (fst g)])) else None)"

lemma reachable_iff: "v \<in> reachable g u \<longleftrightarrow> (u, v) \<in> (pg_rel adj_api g)\<^sup>*"
  by (simp add: reachable_def)

lemma finite_reachable: "finite (reachable g u)"
  by (simp add: reachable_def adj_rel)

lemma mutual_iff: "mutual g u v \<longleftrightarrow> (u, v) \<in> (pg_rel adj_api g)\<^sup>* \<and> (v, u) \<in> (pg_rel adj_api g)\<^sup>*"
  by (simp add: mutual_def reachable_iff)

lemma mutual_equiv [intro]: "mutual g u u" "mutual g u v \<Longrightarrow> mutual g v u" "mutual g u v \<Longrightarrow> mutual g v w \<Longrightarrow> mutual g u w"
  by (auto simp: mutual_iff intro: rtrancl_trans)

lemma mutual_rank: "mutual g u v \<Longrightarrow> reach_rank g u = reach_rank g v"
  unfolding reach_rank_def by (rule arg_cong [where f = card]) (auto simp: mutual_iff reachable_iff intro: rtrancl_trans)

lemma rank_less:
  assumes "(u, v) \<in> (pg_rel adj_api g)\<^sup>*" "(v, u) \<notin> (pg_rel adj_api g)\<^sup>*"
  shows "reach_rank g v < reach_rank g u"
proof -
  have "reachable g v \<subseteq> reachable g u" "u \<in> reachable g u" "u \<notin> reachable g v"
    using assms by (auto simp: reachable_iff intro: rtrancl_trans)
  then show ?thesis
    unfolding reach_rank_def by (intro psubset_card_mono finite_reachable) blast
qed

lemma least_mutual:
  obtains w where "w \<le> u" "mutual g u w" "\<forall>v < w. \<not> mutual g w v"
proof -
  define w where "w = (LEAST v. mutual g u v)"
  have "mutual g u w" "w \<le> u"
    unfolding w_def by (auto intro: LeastI Least_le)
  moreover have "\<not> mutual g w v" if "v < w" for v
    using not_less_Least [of v "mutual g u"] that \<open>mutual g u w\<close> unfolding w_def by blast
  ultimately show thesis using that by blast
qed

lemma adj_sccs_ok: "tarjan_ok adj_api g (adj_sccs g)"
proof -
  let ?n = "length (fst g)"
  define us where "us = sort_key (reach_rank g) (filter (\<lambda>u. \<forall>v < u. \<not> mutual g u v) [0..<?n])"
  define cls where "cls = (\<lambda>u. filter (mutual g u) [0..<?n])"
  have cs: "adj_sccs g = map cls us"
    by (simp add: adj_sccs_def us_def cls_def)
  have us: "distinct us" "\<And>u. u \<in> set us \<longleftrightarrow> u < ?n \<and> (\<forall>v < u. \<not> mutual g u v)" "sorted (map (reach_rank g) us)"
    by (auto simp: us_def)
  have cls: "v \<in> set (cls u) \<longleftrightarrow> v < ?n \<and> mutual g u v" for u v
    by (auto simp: cls_def)
  have same: "u = w" if "u \<in> set us" "w \<in> set us" "v \<in> set (cls u)" "v \<in> set (cls w)" for u w v
  proof -
    have "mutual g u w" "mutual g w u"
      using that(3,4) unfolding cls by blast+
    then show ?thesis
      using us(2) [of u] us(2) [of w] that(1,2) by (metis linorder_neqE_nat)
  qed
  have self: "u \<in> set (cls u)" if "u \<in> set us" for u
    using that us(2) cls by blast
  have "distinct (concat (map cls us))"
    using us(1) same
  proof (induction us)
    case (Cons u us)
    have "distinct (concat (map cls us))"
      using Cons.prems by (intro Cons.IH) (simp, meson list.set_intros(2))
    moreover have "set (cls u) \<inter> set (concat (map cls us)) = {}"
    proof (rule equals0I)
      fix v assume "v \<in> set (cls u) \<inter> set (concat (map cls us))"
      then obtain w where w: "w \<in> set us" "v \<in> set (cls u)" "v \<in> set (cls w)" by auto
      then have "u = w"
        using Cons.prems(2) [of u w v] by simp
      with w(1) Cons.prems(1) show False by simp
    qed
    moreover have "distinct (cls u)"
      by (simp add: cls_def)
    ultimately show ?case by simp
  qed simp
  moreover have "[] \<notin> set (map cls us)"
    using self by fastforce
  moreover have "set (concat (map cls us)) = {..<?n}"
  proof (intro equalityI subsetI)
    fix v assume "v \<in> {..<?n}"
    obtain w where "w \<le> v" "mutual g v w" "\<forall>x < w. \<not> mutual g w x"
      by (rule least_mutual)
    then have "w \<in> set us" "v \<in> set (cls w)"
      using \<open>v \<in> {..<?n}\<close> us(2) cls by auto
    then show "v \<in> set (concat (map cls us))" by auto
  qed (auto simp: cls)
  moreover have "\<forall>c \<in> set (map cls us). \<forall>u \<in> set c. \<forall>v < ?n. v \<in> set c \<longleftrightarrow> mutual g u v"
    by (auto simp: cls intro: mutual_equiv(3) [OF mutual_equiv(2)] mutual_equiv(3))
  moreover have "j \<le> i" if ij: "i < length us" "j < length us" "u \<in> set (cls (us ! i))" "v \<in> set (cls (us ! j))"
    "(u, v) \<in> pg_rel adj_api g" for i j u v
  proof (cases "mutual g u v")
    case True
    then have "v \<in> set (cls (us ! i))"
      using ij(3,4) unfolding cls by blast
    then have "us ! i = us ! j"
      using same ij by simp
    then show ?thesis
      using us(1) ij(1,2) by (simp add: nth_eq_iff_index_eq)
  next
    case False
    then have "reach_rank g v < reach_rank g u"
      using ij(5) by (intro rank_less) (auto simp: mutual_iff)
    moreover have "reach_rank g u = reach_rank g (us ! i)" "reach_rank g v = reach_rank g (us ! j)"
      using ij(3,4) mutual_rank unfolding cls by metis+
    ultimately have "\<not> map (reach_rank g) us ! i \<le> map (reach_rank g) us ! j"
      using ij(1,2) by simp
    then show ?thesis
      using us(3) ij(1,2) sorted_nth_mono [of "map (reach_rank g) us" i j] by (cases "i \<le> j") simp_all
  qed
  ultimately show ?thesis
    unfolding tarjan_ok_def cs mutual_iff by (auto simp: cls)
qed

lemma adj_toposort_ok: "toposort_ok adj_api g (adj_toposort g)"
proof (cases "acyclic (pg_rel adj_api g)")
  case True
  define us where "us = sort_key (reach_rank g) [0..<length (fst g)]"
  have less: "reach_rank g v < reach_rank g u" if "(u, v) \<in> pg_rel adj_api g" for u v
  proof (rule rank_less)
    show "(v, u) \<notin> (pg_rel adj_api g)\<^sup>*"
      using that True by (metis acyclic_def rtrancl_into_trancl2)
  qed (use that in auto)
  have "i < j" if "i < length us" "j < length us" "(rev us ! i, rev us ! j) \<in> pg_rel adj_api g" for i j
  proof (rule ccontr)
    assume "\<not> i < j"
    have "sorted (map (reach_rank g) us)"
      by (simp add: us_def)
    then have "reach_rank g (us ! (length us - Suc i)) \<le> reach_rank g (us ! (length us - Suc j))"
      using that(1,2) \<open>\<not> i < j\<close> sorted_nth_mono [of "map (reach_rank g) us" "length us - Suc i" "length us - Suc j"] by simp
    then show False
      using less [OF that(3)] that(1,2) by (simp add: rev_nth)
  qed
  then show ?thesis
    using True by (auto simp: toposort_ok_def adj_toposort_def us_def)
qed (simp add: toposort_ok_def adj_toposort_def)

end
