(* ===== verification/Report.thy ===== *)
theory Report
  imports Cli Dot Knot Critical_Path Scc_Reference "HOL-Library.Char_ord" "HOL-Library.List_Lexorder"
begin

text \<open>
  The report command (\<open>src/report.rs\<close>): the whole offline analysis, from an open trace to the
  report, the attribution ratio of the IO pseudo-threads, and the dispatch on the output
  format. The functions of the libraries are the fields of a record; \<open>libs_ok\<close> collects what
  is known of them. The lemmas show that the analysis never panics and never fails with an
  invariant error, and what the report says of the trace.
\<close>

section \<open>The libraries\<close>

text \<open>The two instances of petgraph, the drain order of the hash map, \<open>tarjan_scc\<close>, \<open>toposort\<close>
  and the quotient of two u64 as f64.\<close>

record ('g, 'd, 'f) Libs =
  l_api :: "'g wfg_api"
  l_dapi :: "'d dag_api"
  l_drain :: "(u32, PendingEdge) mapping \<Rightarrow> (u32 \<times> PendingEdge) list"
  l_tarjan :: "'g \<Rightarrow> nat list list"
  l_toposort :: "'d \<Rightarrow> nat list option"
  l_ratio :: "u64 \<Rightarrow> u64 \<Rightarrow> 'f"

definition libs_ok :: "('g, 'd, 'f) Libs \<Rightarrow> bool" where
  "libs_ok L \<longleftrightarrow> petgraph (l_api L) \<and> petgraph (l_dapi L) \<and> drain_ok (l_drain L) \<and>
     (\<forall>g. tarjan_ok (l_api L) g (l_tarjan L g)) \<and> (\<forall>d. toposort_ok (l_dapi L) d (l_toposort L d))"

section \<open>The attribution ratio\<close>

definition io_label :: "NodeKind \<Rightarrow> string option" where
  "io_label k = (case k of PseudoDisk \<Rightarrow> Some ''disk'' | PseudoNic \<Rightarrow> Some ''nic''
     | PseudoSoftirq \<Rightarrow> Some ''softirq'' | _ \<Rightarrow> None)"

text \<open>\<open>*map.entry(k).or_insert(0) += w\<close>\<close>

definition entry_add :: "string \<Rightarrow> u64 \<Rightarrow> (string, u64) mapping \<Rightarrow> (string, u64) mapping" where
  "entry_add k w m = Mapping.update k (unwrap_or 0 (Mapping.lookup m k) + w) m"

definition accumulate_io ::
    "'g wfg_api \<Rightarrow> 'g WaitForGraph \<Rightarrow> full_edge_ref \<Rightarrow> (string, u64) mapping \<times> (string, u64) mapping \<Rightarrow>
     ((string, u64) mapping \<times> (string, u64) mapping) option" where
  "accumulate_io api g r st =
     (case (r, st) of ((_, _, dst_tid, ew), (per_p_raw, per_p_attr)) \<Rightarrow>
        (case node_index g dst_tid of
           None \<Rightarrow> Some st
         | Some idx \<Rightarrow> do {
             nw \<leftarrow> node_weight api g idx;
             Some (case io_label (nw_kind nw) of
                 None \<Rightarrow> st
               | Some label \<Rightarrow>
                   if edge_kind ew = SyntheticClosureReturn then st
                   else (entry_add label (raw_wait_ms ew) per_p_raw,
                         entry_add label (attributed_delay_ms ew) per_p_attr)) }))"

definition compute_io_attributed_delay_ratio ::
    "'g wfg_api \<Rightarrow> (u64 \<Rightarrow> u64 \<Rightarrow> 'f) \<Rightarrow> 'g WaitForGraph \<Rightarrow> (string, 'f) mapping option option" where
  "compute_io_attributed_delay_ratio api ratio cascaded = do {
     es \<leftarrow> all_edges api cascaded;
     (per_p_raw, per_p_attr) \<leftarrow> foldM (accumulate_io api cascaded) es (Mapping.empty, Mapping.empty);
     let result = fold (\<lambda>(label, raw_sum) m.
         if raw_sum = 0 then m
         else (let attr_sum = unwrap_or 0 (Mapping.lookup per_p_attr label)
               in Mapping.update label (ratio attr_sum raw_sum) m))
       (mapping_entries per_p_raw) Mapping.empty;
     Some (if Mapping.is_empty result then None else Some result)
   }"

section \<open>The report\<close>

record 'f HealthMetrics =
  hm_invariants_ok :: bool
  hm_drop_count :: "u64 option"
  hm_unmatched_wakeup_count :: u64
  partial_stack_count :: "u64 option"
  cascade_depth_truncation_count :: "u64 option"
  hm_false_wakeup_filtered_count :: "u64 option"
  hm_io_orphan_complete_count :: "u64 option"
  hm_io_pending_at_end_count :: "u64 option"
  hm_io_userspace_pair_collision_count :: "u64 option"
  attributed_delay_ratio :: "(string, 'f) mapping option"

record 'f ReportOutput =
  cascade :: CascadeResult
  critical_path :: "CriticalPath option"
  knots :: "Knot list"
  ro_stats :: PipelineStats
  health :: "'f HealthMetrics"

text \<open>Steps 4 to 7 of \<open>build_report\<close>, from the wait-for graph on.\<close>

definition analyse_graph ::
    "('g, 'd, 'f) Libs \<Rightarrow> 'g WaitForGraph \<Rightarrow> PipelineStats \<Rightarrow> Metadata \<Rightarrow> (ReportError + 'f ReportOutput) option" where
  "analyse_graph L wfg st metadata = do {
     engine \<leftarrow> cascade_engine (l_api L) wfg None;
     (case engine of
        Inl e \<Rightarrow> Some (Inl (ReportCascade e))
      | Inr cascaded \<Rightarrow> do {
          casc \<leftarrow> CascadeResult_from_graph (l_api L) wfg cascaded;
          cdag \<leftarrow> build_condensation (l_api L) (l_dapi L) (l_tarjan L) cascaded;
          cdag \<leftarrow> apply_max_heuristic (l_api L) (l_dapi L) cascaded cdag;
          path \<leftarrow> critical_path_dp (l_dapi L) (l_toposort L) cdag;
          ks \<leftarrow> detect_knots (l_api L) (l_dapi L) cdag cascaded;
          ratios \<leftarrow> compute_io_attributed_delay_ratio (l_api L) (l_ratio L) cascaded;
          let c = correlation st;
          Some (Inr \<lparr>cascade = casc, critical_path = path, knots = ks, ro_stats = st,
            health = \<lparr>hm_invariants_ok = gm_invariants_ok (graph_metrics casc),
              hm_drop_count = md_drop_count metadata,
              hm_unmatched_wakeup_count = unmatched_wakeup_count c,
              partial_stack_count = None, cascade_depth_truncation_count = None,
              hm_false_wakeup_filtered_count = Some (false_wakeup_filtered_count c),
              hm_io_orphan_complete_count = Some (io_orphan_complete_count c),
              hm_io_pending_at_end_count = Some (io_pending_at_end_count c),
              hm_io_userspace_pair_collision_count = Some (io_userspace_pair_collision_count c),
              attributed_delay_ratio = ratios\<rparr>\<rparr>)
        })
   }"

definition build_report ::
    "('g, 'd, 'f) Libs \<Rightarrow> u64 \<Rightarrow> WperfReader \<Rightarrow> ((ReportError + 'f ReportOutput) \<times> WperfReader) option" where
  "build_report L spurious_threshold_ns reader = do {
     (r, reader) \<leftarrow> build_wait_for_graph (l_api L) (l_drain L) spurious_threshold_ns reader;
     (case r of
        Inl e \<Rightarrow> Some (Inl (ReportPipeline e), reader)
      | Inr (wfg, st) \<Rightarrow>
          (case read_metadata reader of
             (Inl e, reader) \<Rightarrow> Some (Inl (ReportPipeline (PipelineReader e)), reader)
           | (Inr metadata, reader) \<Rightarrow>
               map_option (\<lambda>out. (out, reader)) (analyse_graph L wfg st metadata)))
   }"

text \<open>The environment of the command: the file system, the JSON serialiser and \<open>dot\<close>.\<close>

record 'f ReportEnv =
  open_file :: "string \<Rightarrow> IoError + Device"
  to_json :: "'f ReportOutput \<Rightarrow> u8 list"
  dot_env :: DotEnv

definition open_error :: "ReaderError \<Rightarrow> ReportError" where
  "open_error e = (case e of ReaderIo io \<Rightarrow> ReportIo io | other \<Rightarrow> ReportPipeline (PipelineReader other))"

definition write_stdout :: "u8 list \<Rightarrow> (Device, ReportError, unit) comp" where
  "write_stdout bytes = io_map_err ReportIo (write_all bytes)"

definition report_run ::
    "('g, 'd, 'f) Libs \<Rightarrow> 'f ReportEnv \<Rightarrow> ReportArgs \<Rightarrow> Device \<Rightarrow> ((ReportError + unit) \<times> Device) option" where
  "report_run L env args stdout =
     (case open_file env (rp_input args) of
        Inl e \<Rightarrow> Some (Inl (ReportIo e), stdout)
      | Inr file \<Rightarrow>
          (case WperfReader_open file of
             (Inl e, _) \<Rightarrow> Some (Inl (open_error e), stdout)
           | (Inr reader, _) \<Rightarrow>
               let threshold_ns = ucast (rp_spurious_threshold_us args) * 1000
               in do {
                 (r, _) \<leftarrow> build_report L threshold_ns reader;
                 Some (case r of
                     Inl e \<Rightarrow> (Inl e, stdout)
                   | Inr report \<Rightarrow>
                       (case rp_format args of
                          Json \<Rightarrow> write_stdout (to_json env report) stdout
                        | Dot \<Rightarrow> write_stdout (ascii (render_dot (cascade report))) stdout
                        | Svg \<Rightarrow>
                            (case render_svg (dot_env env) (cascade report) of
                               Inl e \<Rightarrow> (Inl e, stdout)
                             | Inr svg \<Rightarrow> write_stdout svg stdout)))
               }))"

section \<open>The ratio as a function of the edges\<close>

definition io_kind :: "'g wfg_api \<Rightarrow> 'g WaitForGraph \<Rightarrow> ThreadId \<Rightarrow> string option" where
  "io_kind api g t = Option.bind (wfg_kind api g t) io_label"

text \<open>The edges that count for a pseudo-thread, and the u64 sum of a weight over them.\<close>

definition io_sum ::
    "'g wfg_api \<Rightarrow> 'g WaitForGraph \<Rightarrow> string \<Rightarrow> (EdgeWeight \<Rightarrow> u64) \<Rightarrow> (ThreadId \<times> ThreadId \<times> EdgeWeight) list \<Rightarrow> u64" where
  "io_sum api g l f E =
     sum_list (map (\<lambda>(s, d, ew). f ew) (filter (\<lambda>(s, d, ew). io_kind api g d = Some l \<and> edge_kind ew = Normal) E))"

lemma unwrap_entry_add:
  "unwrap_or 0 (Mapping.lookup (entry_add k w m) l) = unwrap_or 0 (Mapping.lookup m l) + (if l = k then w else 0)"
  by (simp add: entry_add_def lookup_update' unwrap_or_def)

lemma fold_update_lookup:
  assumes "distinct (map fst xs)"
  shows "Mapping.lookup (fold (\<lambda>(k, v) m. if P v then m else Mapping.update k (f k v) m) xs m0) l =
    (case map_of xs l of None \<Rightarrow> Mapping.lookup m0 l
      | Some v \<Rightarrow> if P v then Mapping.lookup m0 l else Some (f l v))"
  using assms
proof (induction xs arbitrary: m0)
  case (Cons x xs)
  obtain k v where x: "x = (k, v)" by fastforce
  with Cons.prems have "map_of xs k = None"
    by (auto simp: map_of_eq_None_iff)
  then show ?case
    using Cons by (auto simp: x lookup_update' split: option.splits)
qed simp

lemma map_of_entries: "finite (Mapping.keys m) \<Longrightarrow> map_of (mapping_entries m) k = Mapping.lookup m k"
  by (cases "Mapping.lookup m k")
    (auto simp: map_of_eq_None_iff set_mapping_entries distinct_mapping_entries intro!: map_of_is_SomeI)

context wfg_graph
begin

lemma accumulate_io_eq:
  assumes "wfg_inv api g" "d \<in> wfg_threads g"
  shows "accumulate_io api g (e, s, d, ew) (R, A) = Some (case io_kind api g d of
      None \<Rightarrow> (R, A)
    | Some label \<Rightarrow> if edge_kind ew = SyntheticClosureReturn then (R, A)
        else (entry_add label (raw_wait_ms ew) R, entry_add label (attributed_delay_ms ew) A))"
proof -
  obtain i where i: "Mapping.lookup (node_map g) d = Some i"
    using assms(2) by (auto simp: in_wfg_threads)
  then have "i < pg_node_count api (graph g)"
    using assms(1) by (simp add: inv_node)
  with i show ?thesis
    by (simp add: accumulate_io_def node_index_def node_weight_def node_weight_eq io_kind_def wfg_kind_def)
qed

lemma accumulate_loop:
  assumes "wfg_inv api g" "\<forall>x \<in> set es. fst (snd (snd x)) \<in> wfg_threads g"
    "finite (Mapping.keys R)" "finite (Mapping.keys A)"
  shows "\<exists>R' A'. foldM (accumulate_io api g) es (R, A) = Some (R', A') \<and> finite (Mapping.keys R') \<and>
    (\<forall>l. unwrap_or 0 (Mapping.lookup R' l) = unwrap_or 0 (Mapping.lookup R l) + io_sum api g l raw_wait_ms (map snd es)) \<and>
    (\<forall>l. unwrap_or 0 (Mapping.lookup A' l) = unwrap_or 0 (Mapping.lookup A l) + io_sum api g l attributed_delay_ms (map snd es))"
  using assms(2-)
proof (induction es arbitrary: R A)
  case (Cons x es)
  obtain e s d ew where x: "x = (e, s, d, ew)" by (cases x) auto
  define R1 A1 where "R1 = (case io_kind api g d of Some label \<Rightarrow>
      if edge_kind ew = SyntheticClosureReturn then R else entry_add label (raw_wait_ms ew) R | None \<Rightarrow> R)"
    and "A1 = (case io_kind api g d of Some label \<Rightarrow>
      if edge_kind ew = SyntheticClosureReturn then A else entry_add label (attributed_delay_ms ew) A | None \<Rightarrow> A)"
  have step: "accumulate_io api g x (R, A) = Some (R1, A1)"
    using Cons.prems(1) unfolding x by (subst accumulate_io_eq [OF assms(1)]) (auto simp: R1_def A1_def split: option.splits)
  have fin: "finite (Mapping.keys R1)" "finite (Mapping.keys A1)"
    using Cons.prems(2,3) by (auto simp: R1_def A1_def entry_add_def split: option.splits)
  have sums: "unwrap_or 0 (Mapping.lookup R1 l) = unwrap_or 0 (Mapping.lookup R l) + io_sum api g l raw_wait_ms [(s, d, ew)]"
    "unwrap_or 0 (Mapping.lookup A1 l) = unwrap_or 0 (Mapping.lookup A l) + io_sum api g l attributed_delay_ms [(s, d, ew)]" for l
    by (auto simp: R1_def A1_def io_sum_def unwrap_entry_add split: option.splits)
  have split: "io_sum api g l f ((s, d, ew) # E) = io_sum api g l f [(s, d, ew)] + io_sum api g l f E" for l f E
    by (simp add: io_sum_def)
  obtain R' A' where "foldM (accumulate_io api g) es (R1, A1) = Some (R', A')" "finite (Mapping.keys R')"
    "\<forall>l. unwrap_or 0 (Mapping.lookup R' l) = unwrap_or 0 (Mapping.lookup R1 l) + io_sum api g l raw_wait_ms (map snd es)"
    "\<forall>l. unwrap_or 0 (Mapping.lookup A' l) = unwrap_or 0 (Mapping.lookup A1 l) + io_sum api g l attributed_delay_ms (map snd es)"
    using Cons.IH [OF _ fin] Cons.prems(1) by auto
  then show ?case
    using step by (simp add: x sums split [of _ _ "map snd es"] add.assoc)
qed (simp add: io_sum_def)

lemma io_ratio_eq:
  assumes "wfg_inv api g"
  shows "\<exists>r. compute_io_attributed_delay_ratio api ratio g = Some r \<and>
    (\<forall>l. Option.bind r (\<lambda>m. Mapping.lookup m l) =
       (if io_sum api g l raw_wait_ms (wfg_edges api g) = 0 then None
        else Some (ratio (io_sum api g l attributed_delay_ms (wfg_edges api g)) (io_sum api g l raw_wait_ms (wfg_edges api g))))) \<and>
    (r = None \<longleftrightarrow> (\<forall>l. io_sum api g l raw_wait_ms (wfg_edges api g) = 0))"
proof -
  let ?E = "wfg_edges api g" and ?es = "sort_key edge_key (indexed (wfg_edges api g))"
  have "snd x \<in> set ?E" if "x \<in> set ?es" for x
    using that arg_cong [OF indexed_weights [of ?E], of set] by auto
  then have "\<forall>x \<in> set ?es. fst (snd (snd x)) \<in> wfg_threads g"
    using edges_in_threads(2) [OF assms] by (metis prod.collapse)
  from accumulate_loop [OF assms this, of Mapping.empty Mapping.empty] obtain R A where
    loop: "foldM (accumulate_io api g) ?es (Mapping.empty, Mapping.empty) = Some (R, A)" "finite (Mapping.keys R)"
    "\<And>l. unwrap_or 0 (Mapping.lookup R l) = io_sum api g l raw_wait_ms (map snd ?es)"
    "\<And>l. unwrap_or 0 (Mapping.lookup A l) = io_sum api g l attributed_delay_ms (map snd ?es)"
    by (auto simp: unwrap_or_def)
  have perm: "io_sum api g l f (map snd ?es) = io_sum api g l f ?E" for l f
  proof -
    have "sum_mset (image_mset (\<lambda>(s, d, ew). f ew) (filter_mset (\<lambda>(s, d, ew). io_kind api g d = Some l \<and> edge_kind ew = Normal)
        (mset (map snd ?es)))) = sum_mset (image_mset (\<lambda>(s, d, ew). f ew)
          (filter_mset (\<lambda>(s, d, ew). io_kind api g d = Some l \<and> edge_kind ew = Normal) (mset ?E)))"
      by (simp only: sorted_edges_mset)
    then show ?thesis
      unfolding io_sum_def mset_filter [symmetric] mset_map [symmetric] sum_mset_sum_list .
  qed
  define m where "m = fold (\<lambda>(label, raw_sum) m.
      if raw_sum = 0 then m else Mapping.update label (ratio (unwrap_or 0 (Mapping.lookup A label)) raw_sum) m)
    (mapping_entries R) Mapping.empty"
  have m: "Mapping.lookup m l = (if io_sum api g l raw_wait_ms ?E = 0 then None
      else Some (ratio (io_sum api g l attributed_delay_ms ?E) (io_sum api g l raw_wait_ms ?E)))" for l
    using loop(3,4) [of l, unfolded perm]
    unfolding m_def fold_update_lookup [OF distinct_mapping_entries] map_of_entries [OF loop(2)]
    by (auto simp: unwrap_or_def split: option.splits)
  have "compute_io_attributed_delay_ratio api ratio g = Some (if Mapping.is_empty m then None else Some m)"
    unfolding compute_io_attributed_delay_ratio_def Let_def m_def by (simp add: all_edges_eq [OF assms] loop(1))
  moreover have "Mapping.is_empty m \<longleftrightarrow> (\<forall>l. Mapping.lookup m l = None)"
    by (auto simp: Mapping.is_empty_def in_keys_lookup)
  ultimately show ?thesis
    using m by auto
qed

end

section \<open>The analysis\<close>

text \<open>The knots of a wait-for graph: classes of mutually waiting threads that no edge leaves,
  not trivial, and not made of kernel threads only.\<close>

definition knot_class :: "'g wfg_api \<Rightarrow> 'g WaitForGraph \<Rightarrow> ThreadId set \<Rightarrow> bool" where
  "knot_class api g K \<longleftrightarrow>
     (\<exists>t \<in> wfg_threads g. K = {u \<in> wfg_threads g. (t, u) \<in> (wait_rel api g)\<^sup>* \<and> (u, t) \<in> (wait_rel api g)\<^sup>*}) \<and>
     (\<forall>(s, d, ew) \<in> set (wfg_edges api g). s \<in> K \<longrightarrow> d \<in> K) \<and>
     (card K = 1 \<longrightarrow> (\<exists>t \<in> K. \<exists>ew. (t, t, ew) \<in> set (wfg_edges api g))) \<and>
     (\<exists>t \<in> K. wfg_kind api g t \<noteq> Some KernelThread)"

lemma knot_class_attributed:
  assumes "wfg_edges api r = map (attribute E m) (wfg_edges api g)" "wfg_threads r = wfg_threads g"
    "wfg_kind api r = wfg_kind api g"
  shows "knot_class api r = knot_class api g"
proof -
  have ends: "(\<exists>ew. (s, d, ew) \<in> set (wfg_edges api r)) \<longleftrightarrow> (\<exists>ew. (s, d, ew) \<in> set (wfg_edges api g))" for s d
    unfolding assms(1) set_map image_iff by (force simp: attribute_def)
  have "wait_rel api r = wait_rel api g"
    using ends by (auto simp: wait_rel_def) (metis (no_types, lifting) case_prod_conv image_eqI)+
  moreover have "(\<forall>(s, d, ew) \<in> set (wfg_edges api r). s \<in> K \<longrightarrow> d \<in> K) \<longleftrightarrow>
      (\<forall>(s, d, ew) \<in> set (wfg_edges api g). s \<in> K \<longrightarrow> d \<in> K)" for K
    using ends by blast
  moreover have "(\<exists>t \<in> K. \<exists>ew. (t, t, ew) \<in> set (wfg_edges api r)) \<longleftrightarrow> (\<exists>t \<in> K. \<exists>ew. (t, t, ew) \<in> set (wfg_edges api g))" for K
    using ends by blast
  ultimately show ?thesis
    by (intro ext) (simp only: knot_class_def assms(2,3))
qed

lemma analyse_graph_ok:
  assumes "libs_ok L" "wfg_inv (l_api L) g"
  shows "\<exists>out r. analyse_graph L g st metadata = Some (Inr out) \<and>
    cascade_engine (l_api L) g None = Some (Inr r) \<and>
    CascadeResult_from_graph (l_api L) g r = Some (cascade out) \<and> hm_invariants_ok (health out) \<and>
    hm_drop_count (health out) = md_drop_count metadata \<and> ro_stats out = st \<and>
    compute_io_attributed_delay_ratio (l_api L) (l_ratio L) r = Some (attributed_delay_ratio (health out)) \<and>
    (critical_path out = None \<longleftrightarrow> wfg_threads g = {}) \<and>
    (\<forall>K. (\<exists>k \<in> set (knots out). set (kn_members k) = K) \<longleftrightarrow> knot_class (l_api L) g K)"
proof -
  let ?api = "l_api L" and ?dapi = "l_dapi L"
  have lib: "petgraph ?api" "petgraph ?dapi" "\<And>x. tarjan_ok ?api x (l_tarjan L x)" "\<And>d. toposort_ok ?dapi d (l_toposort L d)"
    using assms(1) by (simp_all add: libs_ok_def)
  note wg = wfg_graph.intro [OF lib(1)]
  note sg = scc_graph.intro [OF wg lib(2)]
  obtain r where r: "cascade_engine ?api g None = Some (Inr r)" "wfg_inv ?api r"
    "wfg_edges ?api r = map (attribute (wfg_edges ?api g) (effective_depth None)) (wfg_edges ?api g)"
    "wfg_threads r = wfg_threads g" "wfg_kind ?api r = wfg_kind ?api g"
    "check_non_amplification ?api r = Some True" "check_locality ?api g r = Some True"
    by (rule wfg_graph.cascade_engine_eq [OF wg assms(2)])
  have ok: "invariants_ok ?api g r = Some True"
    using r(6,7) by (simp add: invariants_ok_def)
  obtain casc where casc: "CascadeResult_from_graph ?api g r = Some casc" "gm_invariants_ok (graph_metrics casc)"
    using wfg_graph.from_graph_eq [OF wg r(2) ok] by simp
  obtain c0 c where c: "build_condensation ?api ?dapi (l_tarjan L) r = Some c0" "apply_max_heuristic ?api ?dapi r c0 = Some c"
    "\<forall>(v, u, w) \<in> set (pg_edges ?dapi (dag c)). v < pg_node_count ?dapi (dag c) \<and> u < pg_node_count ?dapi (dag c)"
    "acyclic (pg_rel ?dapi (dag c))" "pg_node_count ?dapi (dag c) = 0 \<longleftrightarrow> wfg_threads r = {}"
    by (rule scc_graph.weighted_dag [where tarjan = "l_tarjan L", OF sg r(2) lib(3)])
  have "\<exists>path. critical_path_dp ?dapi (l_toposort L) c = Some path \<and> (path = None \<longleftrightarrow> wfg_threads g = {})"
  proof (cases "wfg_threads g = {}")
    case True
    then show ?thesis
      using c(5) r(4) by (simp add: critical_path_dp_empty)
  next
    case False
    then have "0 < pg_node_count ?dapi (dag c)"
      using c(5) r(4) by simp
    from dag_graph.critical_path_total [where toposort = "l_toposort L",
        OF dag_graph.intro [OF lib(2)] c(3) lib(4) c(4) this] False
    show ?thesis by blast
  qed
  then obtain path where path: "critical_path_dp ?dapi (l_toposort L) c = Some path" "path = None \<longleftrightarrow> wfg_threads g = {}"
    by blast
  obtain ks where ks: "detect_knots ?api ?dapi c r = Some ks"
    "\<And>K. (\<exists>k \<in> set ks. set (kn_members k) = K) \<longleftrightarrow> knot_class ?api r K"
    using detect_knots_classes [where tarjan = "l_tarjan L", OF lib(1,2) r(2) lib(3) c(1,2), folded knot_class_def]
    by (elim exE conjE) (rule that, assumption, erule spec)
  obtain ratios where ratios: "compute_io_attributed_delay_ratio ?api (l_ratio L) r = Some ratios"
    using wfg_graph.io_ratio_eq [OF wg r(2)] by blast
  have "knot_class ?api r = knot_class ?api g"
    by (rule knot_class_attributed [OF r(3-5)])
  with r(1) casc c(1,2) path ks ratios show ?thesis
    by (simp add: analyse_graph_def Let_def)
qed

section \<open>From a file to the report\<close>

definition trace_report :: "('g, 'd, 'f) Libs \<Rightarrow> u64 \<Rightarrow> u8 list \<Rightarrow> (ReportError + 'f ReportOutput) option" where
  "trace_report L thr bytes =
     (case WperfReader_open (file_of bytes) of
        (Inl e, _) \<Rightarrow> Some (Inl (open_error e))
      | (Inr r, _) \<Rightarrow> map_option fst (build_report L thr r))"

lemma trace_report_short:
  "length bytes < 64 \<Longrightarrow> trace_report L thr bytes = Some (Inl (open_error (Header (HeaderIo UnexpectedEof))))"
  using WperfReader_open_short [of bytes]
  by (cases "WperfReader_open (file_of bytes)") (simp add: trace_report_def)

lemma build_wait_for_graph_cases:
  assumes "petgraph api" "drain_ok drain"
  obtains e r' where "read_all_events r = (Inl e, r')"
      "build_wait_for_graph api drain thr r = Some (Inl (PipelineReader e), r')"
  | evs r' g st where "read_all_events r = (Inr evs, r')"
      "correlate_events api drain (sort_events evs) thr = Some (g, st)" "wfg_inv api g"
      "build_wait_for_graph api drain thr r =
        Some (Inr (g, \<lparr>events_read = of_nat (length evs), correlation = st\<rparr>), r')"
proof (cases "read_all_events r")
  case (Pair x r')
  show thesis
  proof (cases x)
    case (Inl e)
    with Pair show thesis
      using that(1) by (simp add: build_wait_for_graph_def)
  next
    case (Inr evs)
    obtain g st where g: "correlate_events api drain (sort_events evs) thr = Some (g, st)" "graph_ok api g"
      using wfg_graph.correlate_events_ok [OF wfg_graph.intro [OF assms(1)] assms(2), of "sort_events evs" thr] by blast
    with Pair Inr show thesis
      by (intro that(2)) (auto simp: build_wait_for_graph_def graph_ok_def)
  qed
qed

lemma build_report_total:
  assumes "libs_ok L"
  shows "\<exists>res r'. build_report L thr r = Some (res, r') \<and> (\<forall>e. res \<noteq> Inl (ReportCascade e)) \<and>
    (\<forall>out. res = Inr out \<longrightarrow> hm_invariants_ok (health out))"
proof -
  have lib: "petgraph (l_api L)" "drain_ok (l_drain L)"
    using assms by (simp_all add: libs_ok_def)
  show ?thesis
  proof (rule build_wait_for_graph_cases [OF lib, of r thr])
    fix evs r' g st
    assume g: "wfg_inv (l_api L) g" and b: "build_wait_for_graph (l_api L) (l_drain L) thr r =
      Some (Inr (g, \<lparr>events_read = of_nat (length evs), correlation = st\<rparr>), r')"
    obtain x r'' where m: "read_metadata r' = (x, r'')" by fastforce
    show ?thesis
    proof (cases x)
      case (Inr md)
      from analyse_graph_ok [OF assms g, of "\<lparr>events_read = of_nat (length evs), correlation = st\<rparr>" md]
      obtain out where "analyse_graph L g \<lparr>events_read = of_nat (length evs), correlation = st\<rparr> md = Some (Inr out)"
        "hm_invariants_ok (health out)"
        by (elim exE conjE) (rule that)
      then show ?thesis
        by (simp add: build_report_def b m Inr)
    qed (simp add: build_report_def b m)
  qed (simp add: build_report_def)
qed

text \<open>The report of a file in terms of what its events and its metadata read as.\<close>

lemma trace_report_eq:
  assumes "libs_ok L" "read_trace bytes = Inr evs"
  obtains g st where "correlate_events (l_api L) (l_drain L) (sort_events evs) thr = Some (g, st)" "wfg_inv (l_api L) g"
    "trace_report L thr bytes = (case read_trace_metadata bytes of
        Inl e \<Rightarrow> Some (Inl (ReportPipeline (PipelineReader e)))
      | Inr md \<Rightarrow> analyse_graph L g \<lparr>events_read = of_nat (length evs), correlation = st\<rparr> md)"
proof -
  have lib: "petgraph (l_api L)" "drain_ok (l_drain L)"
    using assms(1) by (simp_all add: libs_ok_def)
  obtain r d where open': "WperfReader_open (file_of bytes) = (Inr r, d)" and read: "fst (read_all_events r) = Inr evs"
    using assms(2) by (auto simp: read_trace_def split: prod.splits sum.splits)
  from read obtain r' where r': "read_all_events r = (Inr evs, r')"
    by (metis prod.collapse)
  obtain g st where g: "correlate_events (l_api L) (l_drain L) (sort_events evs) thr = Some (g, st)" "graph_ok (l_api L) g"
    using wfg_graph.correlate_events_ok [OF wfg_graph.intro [OF lib(1)] lib(2), of "sort_events evs" thr] by blast
  obtain x r'' where m: "read_metadata r' = (x, r'')" by fastforce
  then have "read_trace_metadata bytes = x"
    by (simp add: read_trace_metadata_def open' r')
  then have "trace_report L thr bytes = (case read_trace_metadata bytes of
        Inl e \<Rightarrow> Some (Inl (ReportPipeline (PipelineReader e)))
      | Inr md \<Rightarrow> analyse_graph L g \<lparr>events_read = of_nat (length evs), correlation = st\<rparr> md)"
    by (cases x)
      (simp_all add: trace_report_def open' build_report_def build_wait_for_graph_def r' g m option.map_comp comp_def option.map_ident)
  with g show thesis
    by (intro that) (simp_all add: graph_ok_def)
qed

lemma trace_report_unreadable:
  assumes "WperfReader_open (file_of bytes) = (Inr r, d)" "read_trace bytes = Inl e"
  shows "trace_report L thr bytes = Some (Inl (ReportPipeline (PipelineReader e)))"
    "read_trace_metadata bytes = Inl e"
proof -
  obtain r' where "read_all_events r = (Inl e, r')"
    using assms by (cases "read_all_events r") (auto simp: read_trace_def)
  then show "trace_report L thr bytes = Some (Inl (ReportPipeline (PipelineReader e)))"
    "read_trace_metadata bytes = Inl e"
    using assms(1) by (simp_all add: trace_report_def build_report_def build_wait_for_graph_def read_trace_metadata_def)
qed

text \<open>The libraries of the concrete runs; a quotient is kept as the pair of its terms.\<close>

definition demo_libs :: "((NodeWeight, EdgeWeight) adj, (SuperNode, u64) adj, u64 \<times> u64) Libs" where
  "demo_libs = \<lparr>l_api = adj_api, l_dapi = adj_api, l_drain = mapping_entries, l_tarjan = adj_sccs,
     l_toposort = adj_toposort, l_ratio = Pair\<rparr>"

lemma demo_libs_ok: "libs_ok demo_libs"
  by (simp add: libs_ok_def demo_libs_def adj.petgraph_axioms drain_ok_entries adj_sccs_ok adj_toposort_ok)

text \<open>The command as a whole.\<close>

lemma report_run_ok:
  assumes "libs_ok L" "at_end xs stdout"
  shows "\<exists>res stdout'. report_run L env args stdout = Some (res, stdout') \<and> (\<forall>e. res \<noteq> Inl (ReportCascade e)) \<and>
    (\<exists>out. dev_bytes stdout' = xs @ out \<and>
       (res = Inr () \<longrightarrow> (\<exists>file reader d report reader'. open_file env (rp_input args) = Inr file \<and>
          WperfReader_open file = (Inr reader, d) \<and>
          build_report L (ucast (rp_spurious_threshold_us args) * 1000) reader = Some (Inr report, reader') \<and>
          (case rp_format args of
             Json \<Rightarrow> out = to_json env report
           | Dot \<Rightarrow> out = ascii (render_dot (cascade report))
           | Svg \<Rightarrow> render_svg (dot_env env) (cascade report) = Inr out))))"
proof -
  have same: "dev_bytes stdout = xs @ []"
    using assms(2) by (simp add: at_end_def)
  have written: "\<exists>r d out. write_stdout bytes stdout = (r, d) \<and> dev_bytes d = xs @ out \<and> (r = Inr () \<longrightarrow> out = bytes) \<and>
      (\<forall>e. r \<noteq> Inl (ReportCascade e))" for bytes
    using write_all_append [OF assms(2), of bytes]
    by (auto simp: write_stdout_def io_map_err_def at_end_def split: prod.splits sum.splits)
  have svg: "render_svg (dot_env env) c \<noteq> Inl (ReportCascade e)" for c e
    by (auto simp: svg_outcome split: sum.splits IoError.splits if_splits)
  show ?thesis
  proof (cases "open_file env (rp_input args)")
    case (Inl e)
    then show ?thesis
      using same by (auto simp: report_run_def)
  next
    case opened: (Inr inp)
    obtain x d where open': "WperfReader_open inp = (x, d)" by fastforce
    show ?thesis
    proof (cases x)
      case (Inl e)
      then show ?thesis
        using same by (auto simp: report_run_def opened open' open_error_def split: ReaderError.splits)
    next
      case (Inr reader)
      let ?thr = "ucast (rp_spurious_threshold_us args) * 1000"
      obtain res reader' where b: "build_report L ?thr reader = Some (res, reader')" "\<forall>e. res \<noteq> Inl (ReportCascade e)"
        using build_report_total [OF assms(1)] by blast
      show ?thesis
      proof (cases res)
        case (Inl e)
        then show ?thesis
          using same b by (auto simp: report_run_def opened open' Inr Let_def)
      next
        case report: (Inr report)
        have run: "report_run L env args stdout = Some (case rp_format args of
              Json \<Rightarrow> write_stdout (to_json env report) stdout
            | Dot \<Rightarrow> write_stdout (ascii (render_dot (cascade report))) stdout
            | Svg \<Rightarrow> (case render_svg (dot_env env) (cascade report) of
                Inl e \<Rightarrow> (Inl e, stdout) | Inr svg \<Rightarrow> write_stdout svg stdout))"
          using b(1) by (simp add: report_run_def opened open' Inr Let_def report)
        have "\<exists>r d out. (case rp_format args of
              Json \<Rightarrow> write_stdout (to_json env report) stdout
            | Dot \<Rightarrow> write_stdout (ascii (render_dot (cascade report))) stdout
            | Svg \<Rightarrow> (case render_svg (dot_env env) (cascade report) of
                Inl e \<Rightarrow> (Inl e, stdout) | Inr svg \<Rightarrow> write_stdout svg stdout)) = (r, d) \<and>
            dev_bytes d = xs @ out \<and> (\<forall>e. r \<noteq> Inl (ReportCascade e)) \<and> (r = Inr () \<longrightarrow>
              (case rp_format args of
                 Json \<Rightarrow> out = to_json env report
               | Dot \<Rightarrow> out = ascii (render_dot (cascade report))
               | Svg \<Rightarrow> render_svg (dot_env env) (cascade report) = Inr out))"
        proof (cases "rp_format args")
          case Json
          then show ?thesis
            using written [of "to_json env report"] by fastforce
        next
          case Dot
          then show ?thesis
            using written [of "ascii (render_dot (cascade report))"] by fastforce
        next
          case Svg
          then show ?thesis
            using written [of "projr (render_svg (dot_env env) (cascade report))"] same svg
            by (cases "render_svg (dot_env env) (cascade report)") fastforce+
        qed
        then show ?thesis
          unfolding run using b(1) report opened open' Inr by blast
      qed
    qed
  qed
qed

section \<open>Properties\<close>

text \<open>Property C11. The report on any file never panics. A file whose header does not open, or
  whose records or metadata do not read, yields exactly that error; every other file yields a
  report, on all its events, with the drop count of its footer, with the invariant sentinel
  set, and with a critical path unless the graph is empty. The engine's invariant error never
  occurs.\<close>

theorem report_total:
  assumes "libs_ok L"
  shows "case WperfReader_open (file_of bytes) of
      (Inl e, _) \<Rightarrow> trace_report L thr bytes = Some (Inl (open_error e))
    | (Inr _, _) \<Rightarrow>
        (case read_trace_metadata bytes of
           Inl e \<Rightarrow> trace_report L thr bytes = Some (Inl (ReportPipeline (PipelineReader e)))
         | Inr md \<Rightarrow> \<exists>evs out. read_trace bytes = Inr evs \<and> trace_report L thr bytes = Some (Inr out) \<and>
             hm_invariants_ok (health out) \<and> hm_drop_count (health out) = md_drop_count md \<and>
             events_read (ro_stats out) = of_nat (length evs) \<and>
             (critical_path out = None \<longleftrightarrow> gm_node_count (graph_metrics (cascade out)) = 0))"
proof (cases "WperfReader_open (file_of bytes)")
  case (Pair x d)
  show ?thesis
  proof (cases x)
    case (Inl e)
    then show ?thesis
      by (simp add: Pair trace_report_def)
  next
    case (Inr r)
    note open' = Pair [unfolded Inr]
    show ?thesis
    proof (cases "read_trace bytes")
      case (Inl e)
      then show ?thesis
        using trace_report_unreadable [OF open' Inl] by (simp add: open')
    next
      case (Inr evs)
      obtain g st where g: "correlate_events (l_api L) (l_drain L) (sort_events evs) thr = Some (g, st)" "wfg_inv (l_api L) g"
        "trace_report L thr bytes = (case read_trace_metadata bytes of
            Inl e \<Rightarrow> Some (Inl (ReportPipeline (PipelineReader e)))
          | Inr md \<Rightarrow> analyse_graph L g \<lparr>events_read = of_nat (length evs), correlation = st\<rparr> md)"
        by (rule trace_report_eq [OF assms Inr])
      show ?thesis
      proof (cases "read_trace_metadata bytes")
        case (Inl e)
        then show ?thesis
          using g(3) by (simp add: open')
      next
        case md: (Inr md)
        from analyse_graph_ok [OF assms g(2), of "\<lparr>events_read = of_nat (length evs), correlation = st\<rparr>" md]
        obtain out q where
          out: "analyse_graph L g \<lparr>events_read = of_nat (length evs), correlation = st\<rparr> md = Some (Inr out)"
          "cascade_engine (l_api L) g None = Some (Inr q)" "CascadeResult_from_graph (l_api L) g q = Some (cascade out)"
          "hm_invariants_ok (health out)" "hm_drop_count (health out) = md_drop_count md"
          "ro_stats out = \<lparr>events_read = of_nat (length evs), correlation = st\<rparr>"
          "critical_path out = None \<longleftrightarrow> wfg_threads g = {}"
          by (elim exE conjE) (rule that)
        have "gm_node_count (graph_metrics (cascade out)) = card (wfg_threads g) \<and> finite (wfg_threads g)"
          using graph_metrics_nodes [OF _ g(2) out(2,3)] assms by (simp add: libs_ok_def)
        then show ?thesis
          using g(3) out by (simp add: open' md Inr)
      qed
    qed
  qed
qed

lemma report_total_witness:
  "\<exists>out. trace_report demo_libs 50000 demo_file = Some (Inr out) \<and> hm_drop_count (health out) = Some 0"
proof -
  have md: "read_trace_metadata demo_file = Inr \<lparr>md_event_count = Some 5, md_drop_count = Some 0\<rparr>"
    by (rule demo_file_metadata)
  obtain r d where "WperfReader_open (file_of demo_file) = (Inr r, d)"
    using demo_file_ok by (auto simp: read_trace_def split: prod.splits sum.splits)
  then show ?thesis
    using report_total [OF demo_libs_ok, where bytes = demo_file and thr = 50000] by (auto simp: md)
qed

text \<open>Property C30. The attribution ratio on the result of the engine never panics and is exact:
  for each IO pseudo-thread it is the quotient of the attributed delays and the raw waits of
  the normal edges into it, left out when the waits sum to zero, and the whole map is left
  out when nothing remains. While the waits fit 64 bits, no sum wraps around and the dividend
  never exceeds the divisor, so that the ratio lies between 0 and 1.\<close>

theorem io_ratio_exact:
  assumes "petgraph api" "wfg_inv api g" "cascade_engine api g mo = Some (Inr r)"
    and fits: "sum_list (map (\<lambda>(_, _, ew). unat (raw_wait_ms ew)) (wfg_edges api g)) < 2 ^ 64"
  shows "\<exists>res. compute_io_attributed_delay_ratio api ratio r = Some res \<and>
    (res = None \<longleftrightarrow> (\<forall>l. Option.bind res (\<lambda>m. Mapping.lookup m l) = None)) \<and>
    (\<forall>l. \<exists>raw attr. Option.bind res (\<lambda>m. Mapping.lookup m l) = (if raw = 0 then None else Some (ratio attr raw)) \<and>
       attr \<le> raw \<and>
       (let into = filter (\<lambda>(s, d, ew). Option.bind (wfg_kind api g d) io_label = Some l \<and> edge_kind ew = Normal) (wfg_edges api r)
        in unat raw = sum_list (map (\<lambda>(_, _, ew). unat (raw_wait_ms ew)) into) \<and>
           unat attr = sum_list (map (\<lambda>(_, _, ew). unat (attributed_delay_ms ew)) into)))"
proof -
  note wg = wfg_graph.intro [OF assms(1)]
  obtain r' where r': "cascade_engine api g mo = Some (Inr r')" "wfg_inv api r'"
    "wfg_edges api r' = map (attribute (wfg_edges api g) (effective_depth mo)) (wfg_edges api g)"
    "wfg_threads r' = wfg_threads g" "wfg_kind api r' = wfg_kind api g"
    "check_non_amplification api r' = Some True" "check_locality api g r' = Some True"
    by (rule wfg_graph.cascade_engine_eq [OF wg assms(2)])
  then have r: "wfg_inv api r" "wfg_kind api r = wfg_kind api g" "check_non_amplification api r = Some True"
    "wfg_edges api r = map (attribute (wfg_edges api g) (effective_depth mo)) (wfg_edges api g)"
    using assms(3) by simp_all
  let ?E = "wfg_edges api r"
  let ?raw = "\<lambda>(_, _, ew). unat (raw_wait_ms ew)" and ?attr = "\<lambda>(_, _, ew). unat (attributed_delay_ms ew)"
  define into where "into l = filter (\<lambda>(s, d, ew). Option.bind (wfg_kind api g d) io_label = Some l \<and> edge_kind ew = Normal) ?E" for l
  have "sum_list (map ?raw ?E) = sum_list (map ?raw (wfg_edges api g))"
    by (simp add: r(4) attribute_def set_attribution_def comp_def split_beta')
  then have raw_bound: "sum_list (map ?raw (into l)) < 2 ^ 64" for l
    unfolding into_def using fits by (metis (lifting) le_less_trans sum_list_filter_le_nat)
  have le: "sum_list (map ?attr (into l)) \<le> sum_list (map ?raw (into l))" for l
    using wfg_graph.check_non_amplification_eq [OF wg r(1)] r(3)
    by (intro sum_list_mono) (auto simp: into_def word_le_nat_alt)
  have sums: "io_sum api r l raw_wait_ms ?E = sum_list (map (\<lambda>(s, d, ew). raw_wait_ms ew) (into l))"
    "io_sum api r l attributed_delay_ms ?E = sum_list (map (\<lambda>(s, d, ew). attributed_delay_ms ew) (into l))" for l
    by (simp_all add: io_sum_def io_kind_def into_def r(2))
  have unat_sums: "unat (io_sum api r l raw_wait_ms ?E) = sum_list (map ?raw (into l))"
    "unat (io_sum api r l attributed_delay_ms ?E) = sum_list (map ?attr (into l))" for l
    unfolding sums using raw_bound [of l] le [of l] by (simp_all add: unat_sum_list comp_def split_beta')
  obtain res where res: "compute_io_attributed_delay_ratio api ratio r = Some res"
    "\<forall>l. Option.bind res (\<lambda>m. Mapping.lookup m l) =
       (if io_sum api r l raw_wait_ms ?E = 0 then None
        else Some (ratio (io_sum api r l attributed_delay_ms ?E) (io_sum api r l raw_wait_ms ?E)))"
    "res = None \<longleftrightarrow> (\<forall>l. io_sum api r l raw_wait_ms ?E = 0)"
    using wfg_graph.io_ratio_eq [OF wg r(1)] by blast
  have "io_sum api r l attributed_delay_ms ?E \<le> io_sum api r l raw_wait_ms ?E" for l
    using le unat_sums by (simp add: word_le_nat_alt)
  moreover have "res = None \<longleftrightarrow> (\<forall>l. Option.bind res (\<lambda>m. Mapping.lookup m l) = None)"
    using res(2,3) by auto
  ultimately show ?thesis
    using res(1,2) unat_sums unfolding Let_def into_def [symmetric] by blast
qed

lemma io_ratio_exact_witness:
  "\<exists>r res. cascade_engine adj_api figure4 None = Some (Inr r) \<and>
    compute_io_attributed_delay_ratio adj_api Pair r = Some res"
proof -
  obtain r where r: "cascade_engine adj_api figure4 None = Some (Inr r)"
    by (rule wfg_graph.cascade_engine_eq [OF adj_wfg.wfg_graph_axioms figure4_ok(1)])
  have "sum_list (map (\<lambda>(_, _, ew). unat (raw_wait_ms ew)) (wfg_edges adj_api figure4)) < 2 ^ 64"
    by (simp add: figure4_ok figure4_edges_def duration_def)
  from io_ratio_exact [OF adj.petgraph_axioms figure4_ok(1) r this, where ratio = Pair] r show ?thesis by blast
qed

text \<open>The report command never panics, whatever the file system, the file, the
  \<open>dot\<close> process and standard output do, and its success is truthful: it returns success only
  if the file could be opened and analysed and the whole output in the chosen format was
  written; on an error standard output has at most a part of an output. It never reports an
  invariant error.\<close>

theorem report_run_truthful:
  assumes "libs_ok L" "at_end xs stdout"
  shows "\<exists>res stdout'. report_run L env args stdout = Some (res, stdout') \<and> (\<forall>e. res \<noteq> Inl (ReportCascade e)) \<and>
    (\<exists>out. dev_bytes stdout' = xs @ out \<and>
       (res = Inr () \<longrightarrow> (\<exists>file reader d report reader'. open_file env (rp_input args) = Inr file \<and>
          WperfReader_open file = (Inr reader, d) \<and>
          build_report L (ucast (rp_spurious_threshold_us args) * 1000) reader = Some (Inr report, reader') \<and>
          (case rp_format args of
             Json \<Rightarrow> out = to_json env report
           | Dot \<Rightarrow> out = ascii (render_dot (cascade report))
           | Svg \<Rightarrow> render_svg (dot_env env) (cascade report) = Inr out))))"
  using assms by (rule report_run_ok)

text \<open>An environment that serves the demo file and accepts any output.\<close>

definition demo_env :: "(u64 \<times> u64) ReportEnv" where
  "demo_env = \<lparr>open_file = (\<lambda>path. if path = ''trace.wperf'' then Inr (file_of demo_file) else Inl NotFound),
     to_json = (\<lambda>out. ascii ''{}''), dot_env = \<lparr>spawn = (\<lambda>_ _ _. Inl NotFound), utf8_lossy = map (\<lambda>b. char_of (unat b))\<rparr>\<rparr>"

lemma report_run_truthful_witness:
  "\<exists>res stdout'. report_run demo_libs demo_env \<lparr>rp_input = ''trace.wperf'', rp_format = Dot, rp_spurious_threshold_us = 50\<rparr>
     (file_of []) = Some (res, stdout')"
proof -
  have "at_end [] (file_of [])"
    by (simp add: at_end_def file_of_def)
  from report_run_truthful [OF demo_libs_ok this] show ?thesis by blast
qed

end
