(* ===== verification/Probe.thy ===== *)
theory Probe
  imports Device
begin

text \<open>
  Feature probing (\<open>src/probe/features.rs\<close>). The kernel is a record: the file system, the
  system calls of libc and libbpf, and the types of the vmlinux BTF. The cargo feature
  \<open>bpf\<close>, which selects one of two variants of a probe, is the argument \<open>bpf\<close>. The
  diagnostics on standard error are not modelled. The lemmas show what each probe reports,
  the parsing of whole words and of the kernel release, and how failures degrade.
\<close>

section \<open>Data\<close>

datatype ProbeError = BtfRequired | ProbeIo IoError | Syscall string

fun ProbeError_fmt :: "(IoError \<Rightarrow> string) \<Rightarrow> ProbeError \<Rightarrow> string" where
  "ProbeError_fmt io_fmt BtfRequired =
     ''BTF not available: /sys/kernel/btf/vmlinux not found. '' @
     ''Minimum supported: RHEL 8.2+ / Rocky 8.4+ with CONFIG_DEBUG_INFO_BTF=y''"
| "ProbeError_fmt io_fmt (ProbeIo e) = ''I/O error during feature probing: '' @ io_fmt e"
| "ProbeError_fmt io_fmt (Syscall msg) = ''syscall probe failed: '' @ msg"

fun ProbeError_source :: "ProbeError \<Rightarrow> IoError option" where
  "ProbeError_source (ProbeIo e) = Some e"
| "ProbeError_source BtfRequired = None"
| "ProbeError_source (Syscall _) = None"

datatype TransportMode = RingBuf | PerfArray

datatype TracepointMode = TpBtf | RawTp

record FeatureMatrix =
  fm_transport :: TransportMode
  fm_tracepoint :: TracepointMode
  has_btf :: bool
  has_bpf_loop :: bool
  has_cgroupv2 :: bool
  has_fentry :: bool
  block_rq_issue_single_arg :: bool

record ProbePaths =
  btf_vmlinux :: string
  cgroup_controllers :: string
  tracing_events :: string
  kprobe_blacklist :: string
  available_filter_functions :: string

definition ProbePaths_default :: ProbePaths where
  "ProbePaths_default = \<lparr>btf_vmlinux = ''/sys/kernel/btf/vmlinux'',
     cgroup_controllers = ''/sys/fs/cgroup/cgroup.controllers'',
     tracing_events = ''/sys/kernel/tracing/events'',
     kprobe_blacklist = ''/sys/kernel/debug/kprobes/blacklist'',
     available_filter_functions = ''/sys/kernel/tracing/available_filter_functions''\<rparr>"

section \<open>The kernel\<close>

record BtfType =
  bt_info :: u32
  bt_type :: u32

record Btf =
  find_by_name_kind :: "string \<Rightarrow> u32 \<Rightarrow> int"
  type_by_id :: "u32 \<Rightarrow> BtfType option"

text \<open>Reading the lines of a file yields a line or an error each; \<open>uname\<close> fails (\<open>None\<close>), or
  yields a release that is no UTF-8 (\<open>Some None\<close>), or a release.\<close>

record Kernel =
  path_exists :: "string \<Rightarrow> bool"
  open_lines :: "string \<Rightarrow> IoError + (IoError + string) list"
  sysconf_pagesize :: int
  create_ringbuf :: "u32 \<Rightarrow> bool"
  probe_bpf_helper_loop :: int
  vmlinux_btf :: "Btf option"
  uname_release :: "string option option"

section \<open>Text\<close>

definition is_whitespace :: "char \<Rightarrow> bool" where
  "is_whitespace c \<longleftrightarrow> c = CHR 0x20 \<or> (9 \<le> (of_char c :: nat) \<and> (of_char c :: nat) \<le> 13)"

function split_whitespace :: "string \<Rightarrow> string list" where
  "split_whitespace s =
     (case dropWhile is_whitespace s of
        [] \<Rightarrow> []
      | c # cs \<Rightarrow> (c # takeWhile (\<lambda>x. \<not> is_whitespace x) cs) #
          split_whitespace (dropWhile (\<lambda>x. \<not> is_whitespace x) cs))"
  by pat_completeness auto
termination
proof (relation "measure length")
  fix s :: string and c cs
  assume "dropWhile is_whitespace s = c # cs"
  moreover have "length (dropWhile is_whitespace s) \<le> length s"
    by (rule length_dropWhile_le)
  ultimately have "length cs < length s" by simp
  then show "(dropWhile (\<lambda>x. \<not> is_whitespace x) cs, s) \<in> measure length"
    using length_dropWhile_le [of "\<lambda>x. \<not> is_whitespace x" cs] by simp
qed simp

declare split_whitespace.simps [simp del]

text \<open>\<open>str::split\<close> at any of a set of characters.\<close>

fun split_at :: "(char \<Rightarrow> bool) \<Rightarrow> string \<Rightarrow> string list" where
  "split_at P [] = [[]]"
| "split_at P (c # cs) =
     (if P c then [] # split_at P cs
      else case split_at P cs of p # ps \<Rightarrow> (c # p) # ps | [] \<Rightarrow> [[c]])"

definition is_digit :: "char \<Rightarrow> bool" where
  "is_digit c \<longleftrightarrow> 48 \<le> (of_char c :: nat) \<and> (of_char c :: nat) < 58"

text \<open>\<open>str::parse::<u32>\<close>\<close>

definition parse_u32 :: "string \<Rightarrow> u32 option" where
  "parse_u32 s =
     (let ds = (case s of c # cs \<Rightarrow> if c = CHR ''+'' then cs else s | [] \<Rightarrow> s)
      in if ds \<noteq> [] \<and> list_all is_digit ds \<and> read_nat ds < 2 ^ 32 then Some (of_nat (read_nat ds)) else None)"

definition path_join :: "string \<Rightarrow> string \<Rightarrow> string" where
  "path_join a b =
     (if b \<noteq> [] \<and> hd b = CHR ''/'' then b
      else if a = [] \<or> last a = CHR ''/'' then a @ b
      else a @ ''/'' @ b)"

section \<open>Tier 1\<close>

definition probe_btf :: "Kernel \<Rightarrow> ProbePaths \<Rightarrow> ProbeError + bool" where
  "probe_btf k paths = (if path_exists k (btf_vmlinux paths) then Inr True else Inl BtfRequired)"

definition probe_cgroupv2 :: "Kernel \<Rightarrow> ProbePaths \<Rightarrow> bool" where
  "probe_cgroupv2 k paths = path_exists k (cgroup_controllers paths)"

definition probe_tracepoint :: "Kernel \<Rightarrow> ProbePaths \<Rightarrow> string \<Rightarrow> string \<Rightarrow> bool" where
  "probe_tracepoint k paths category name = path_exists k (path_join (path_join (tracing_events paths) category) name)"

fun scan_lines :: "string \<Rightarrow> (IoError + string) list \<Rightarrow> ProbeError + bool" where
  "scan_lines needle [] = Inr False"
| "scan_lines needle (Inl e # _) = Inl (ProbeIo e)"
| "scan_lines needle (Inr line # rest) =
     (if list_ex (\<lambda>word. word = needle) (split_whitespace line) then Inr True else scan_lines needle rest)"

definition file_contains_line :: "Kernel \<Rightarrow> string \<Rightarrow> string \<Rightarrow> ProbeError + bool" where
  "file_contains_line k path needle =
     (case open_lines k path of
        Inl e \<Rightarrow> if e = NotFound then Inr False else Inl (ProbeIo e)
      | Inr ls \<Rightarrow> scan_lines needle ls)"

definition probe_kprobe :: "Kernel \<Rightarrow> ProbePaths \<Rightarrow> string \<Rightarrow> ProbeError + bool" where
  "probe_kprobe k paths f =
     (case file_contains_line k (kprobe_blacklist paths) f of
        Inl e \<Rightarrow> Inl e
      | Inr in_blacklist \<Rightarrow> if in_blacklist then Inr False else file_contains_line k (available_filter_functions paths) f)"

section \<open>Tier 2\<close>

definition probe_ringbuf :: "bool \<Rightarrow> Kernel \<Rightarrow> ProbeError + TransportMode" where
  "probe_ringbuf bpf k =
     (if bpf then
        (let raw = sysconf_pagesize k;
             page_size = (if 0 \<le> raw \<and> raw < 2 ^ 32 then of_int raw else 4096)
         in if create_ringbuf k page_size then Inr RingBuf else Inr PerfArray)
      else Inr PerfArray)"

definition probe_bpf_loop :: "bool \<Rightarrow> Kernel \<Rightarrow> ProbeError + bool" where
  "probe_bpf_loop bpf k =
     (if bpf then
        (let ret = probe_bpf_helper_loop k
         in if ret = 1 then Inr True else if ret = 0 then Inr False
            else Inl (Syscall (''libbpf_probe_bpf_helper returned '' @ show_int ret)))
      else Inr False)"

section \<open>Tier 3\<close>

definition BTF_KIND_PTR :: u32 where "BTF_KIND_PTR = 2"
definition BTF_KIND_TYPEDEF :: u32 where "BTF_KIND_TYPEDEF = 8"
definition BTF_KIND_FUNC_PROTO :: u32 where "BTF_KIND_FUNC_PROTO = 13"

definition btf_kind :: "u32 \<Rightarrow> u32" where
  "btf_kind info = drop_bit 24 info AND 0x1f"

definition btf_vlen :: "u32 \<Rightarrow> u16" where
  "btf_vlen info = ucast (info AND 0xffff)"

definition btf_typedef_func_proto_vlen :: "Kernel \<Rightarrow> string \<Rightarrow> u16 option" where
  "btf_typedef_func_proto_vlen k name =
     (case vmlinux_btf k of
        None \<Rightarrow> None
      | Some btf \<Rightarrow>
          let type_id = find_by_name_kind btf name BTF_KIND_TYPEDEF
          in if type_id < 0 then None
             else (case type_by_id btf (of_int type_id) of
                 None \<Rightarrow> None
               | Some t1 \<Rightarrow>
                   (case type_by_id btf (bt_type t1) of
                      None \<Rightarrow> None
                    | Some t2 \<Rightarrow>
                        if btf_kind (bt_info t2) \<noteq> BTF_KIND_PTR then None
                        else (case type_by_id btf (bt_type t2) of
                            None \<Rightarrow> None
                          | Some t3 \<Rightarrow>
                              if btf_kind (bt_info t3) \<noteq> BTF_KIND_FUNC_PROTO then None
                              else Some (btf_vlen (bt_info t3))))))"

definition kernel_version_ge :: "Kernel \<Rightarrow> u32 \<Rightarrow> u32 \<Rightarrow> bool" where
  "kernel_version_ge k major minor =
     (case uname_release k of
        None \<Rightarrow> True
      | Some None \<Rightarrow> True
      | Some (Some release) \<Rightarrow>
          let parts = split_at (\<lambda>c. c = CHR ''.'' \<or> c = CHR ''-'') release;
              maj = unwrap_or 0 (Option.bind (if 0 < length parts then Some (parts ! 0) else None) parse_u32);
              min = unwrap_or 0 (Option.bind (if 1 < length parts then Some (parts ! 1) else None) parse_u32)
          in (major, minor) \<le> (maj, min))"

definition probe_tp_btf :: "bool \<Rightarrow> Kernel \<Rightarrow> ProbeError + TracepointMode" where
  "probe_tp_btf bpf k =
     (if bpf then
        (if btf_typedef_func_proto_vlen k ''btf_trace_sched_switch'' \<noteq> None then Inr TpBtf else Inr RawTp)
      else Inr RawTp)"

definition probe_block_rq_issue_single_arg :: "bool \<Rightarrow> Kernel \<Rightarrow> ProbeError + bool" where
  "probe_block_rq_issue_single_arg bpf k =
     (if bpf then
        (case btf_typedef_func_proto_vlen k ''btf_trace_block_rq_issue'' of
           Some vlen \<Rightarrow> Inr (vlen = 2)
         | None \<Rightarrow> Inr (kernel_version_ge k 5 11))
      else Inr True)"

definition probe_fentry :: "bool \<Rightarrow> Kernel \<Rightarrow> ProbeError + bool" where
  "probe_fentry bpf k = (if bpf then Inr False else Inr False)"

section \<open>All probes\<close>

text \<open>\<open>Result::unwrap_or_else\<close> with a constant fallback\<close>

definition fallback :: "'a \<Rightarrow> ProbeError + 'a \<Rightarrow> 'a" where
  "fallback d r = (case r of Inl _ \<Rightarrow> d | Inr x \<Rightarrow> x)"

definition probe_all :: "bool \<Rightarrow> Kernel \<Rightarrow> ProbePaths \<Rightarrow> ProbeError + FeatureMatrix" where
  "probe_all bpf k paths =
     (case probe_btf k paths of
        Inl e \<Rightarrow> Inl e
      | Inr _ \<Rightarrow>
          let transport = fallback PerfArray (probe_ringbuf bpf k);
              tracepoint = fallback RawTp (probe_tp_btf bpf k);
              bpf_loop = fallback False (probe_bpf_loop bpf k);
              cgroupv2 = probe_cgroupv2 k paths;
              fentry = fallback False (probe_fentry bpf k);
              single_arg = fallback True (probe_block_rq_issue_single_arg bpf k)
          in Inr \<lparr>fm_transport = transport, fm_tracepoint = tracepoint, has_btf = True, has_bpf_loop = bpf_loop,
               has_cgroupv2 = cgroupv2, has_fentry = fentry, block_rq_issue_single_arg = single_arg\<rparr>)"

section \<open>Words\<close>

text \<open>A word of a text: not empty, without whitespace, and bounded by whitespace or the ends.\<close>

definition is_word_of :: "string \<Rightarrow> string \<Rightarrow> bool" where
  "is_word_of w s \<longleftrightarrow> w \<noteq> [] \<and> (\<forall>c \<in> set w. \<not> is_whitespace c) \<and>
     (\<exists>a b. s = a @ w @ b \<and> (a \<noteq> [] \<longrightarrow> is_whitespace (last a)) \<and> (b \<noteq> [] \<longrightarrow> is_whitespace (hd b)))"

lemma prefix_split:
  assumes "xs @ u = ys @ v" "length xs \<le> length ys"
  obtains t where "ys = xs @ t" "u = t @ v"
proof
  show "ys = xs @ drop (length xs) ys"
    using assms by (metis append_eq_append_conv_if append_take_drop_id)
  then show "u = drop (length xs) ys @ v"
    using assms(1) by (metis append.assoc same_append_eq)
qed

lemma word_of_blank:
  assumes "dropWhile is_whitespace s = []"
  shows "\<not> is_word_of w s"
proof
  assume "is_word_of w s"
  then obtain c a b where "s = a @ w @ b" "c \<in> set w" "\<not> is_whitespace c"
    by (cases w) (auto simp: is_word_of_def)
  with assms show False
    by (auto simp: dropWhile_eq_Nil_conv)
qed

text \<open>The words of a text that starts with blanks, then a word, then nothing or a blank.\<close>

lemma word_of_first:
  assumes s: "s = pre @ w0 @ s'" and pre: "\<forall>c \<in> set pre. is_whitespace c"
    and w0: "w0 \<noteq> []" "\<forall>c \<in> set w0. \<not> is_whitespace c" and s': "s' \<noteq> [] \<longrightarrow> is_whitespace (hd s')"
  shows "is_word_of w s \<longleftrightarrow> w = w0 \<or> is_word_of w s'"
proof
  assume "w = w0 \<or> is_word_of w s'"
  then show "is_word_of w s"
  proof
    assume "w = w0"
    then show ?thesis
      using s pre w0 s' unfolding is_word_of_def by (intro conjI exI [of _ pre] exI [of _ s']) auto
  next
    assume w: "is_word_of w s'"
    then obtain a b where ab: "s' = a @ w @ b" "a \<noteq> [] \<longrightarrow> is_whitespace (last a)" "b \<noteq> [] \<longrightarrow> is_whitespace (hd b)"
      by (auto simp: is_word_of_def)
    have "a \<noteq> []"
    proof
      assume "a = []"
      then have "hd s' \<in> set w" "s' \<noteq> []"
        using ab(1) w by (auto simp: is_word_of_def)
      with s' w show False
        by (auto simp: is_word_of_def)
    qed
    then show ?thesis
      using w ab s unfolding is_word_of_def by (intro conjI exI [of _ "pre @ w0 @ a"] exI [of _ b]) auto
  qed
next
  assume w: "is_word_of w s"
  then obtain a b where ab: "s = a @ w @ b" "a \<noteq> [] \<longrightarrow> is_whitespace (last a)" "b \<noteq> [] \<longrightarrow> is_whitespace (hd b)"
    and nw: "w \<noteq> []" "\<forall>c \<in> set w. \<not> is_whitespace c"
    by (auto simp: is_word_of_def)
  have "\<not> length a < length pre"
  proof
    assume less: "length a < length pre"
    have "s ! length a = pre ! length a"
      using less by (simp add: s nth_append)
    moreover have "s ! length a = hd w"
      using nw(1) by (simp add: ab(1) nth_append hd_conv_nth)
    ultimately show False
      using less pre nw by (metis hd_in_set nth_mem)
  qed
  then obtain a1 where a: "a = pre @ a1" "w0 @ s' = a1 @ w @ b"
    using ab(1) s prefix_split [of pre "w0 @ s'" a "w @ b"] by auto
  show "w = w0 \<or> is_word_of w s'"
  proof (cases "a1 = []")
    case True
    have "takeWhile (\<lambda>x. \<not> is_whitespace x) (w @ b) = w"
      using nw(2) ab(3) by (cases b) (auto simp: takeWhile_append takeWhile_eq_all_conv)
    moreover have "takeWhile (\<lambda>x. \<not> is_whitespace x) (w0 @ s') = w0"
      using w0(2) s' by (cases s') (auto simp: takeWhile_append takeWhile_eq_all_conv)
    ultimately show ?thesis
      using a(2) True by simp
  next
    case False
    then have last: "is_whitespace (last a1)"
      using ab(2) a(1) by simp
    have "\<not> length a1 \<le> length w0"
    proof
      assume "length a1 \<le> length w0"
      then have "a1 = take (length a1) w0"
        using arg_cong [OF a(2), of "take (length a1)"] by simp
      then have "last a1 \<in> set w0"
        using False by (metis in_set_takeD last_in_set)
      with last w0(2) show False by blast
    qed
    then obtain a2 where "a1 = w0 @ a2" "s' = a2 @ w @ b"
      using a(2) prefix_split [of w0 s' a1 "w @ b"] by auto
    then have "is_word_of w s'"
      using nw ab(3) last \<open>\<not> length a1 \<le> length w0\<close> unfolding is_word_of_def
      by (intro conjI exI [of _ a2] exI [of _ b]) auto
    then show ?thesis ..
  qed
qed

lemma split_whitespace_words: "w \<in> set (split_whitespace s) \<longleftrightarrow> is_word_of w s"
proof (induction s rule: split_whitespace.induct)
  case (1 s)
  show ?case
  proof (cases "dropWhile is_whitespace s")
    case Nil
    then show ?thesis
      by (subst split_whitespace.simps) (simp only: Nil list.case word_of_blank [OF Nil] list.set empty_iff)
  next
    case (Cons c cs)
    let ?nw = "\<lambda>x. \<not> is_whitespace x"
    have c: "\<not> is_whitespace c"
      using Cons by (metis hd_dropWhile list.discI list.sel(1))
    have tail: "dropWhile ?nw cs \<noteq> [] \<longrightarrow> is_whitespace (hd (dropWhile ?nw cs))"
      using hd_dropWhile [of ?nw cs] by blast
    have "s = takeWhile is_whitespace s @ (c # takeWhile ?nw cs) @ dropWhile ?nw cs"
      using Cons by (metis append_Cons takeWhile_dropWhile_id)
    then have "is_word_of w s \<longleftrightarrow> w = c # takeWhile ?nw cs \<or> is_word_of w (dropWhile ?nw cs)"
      using c by (intro word_of_first tail) (auto dest: set_takeWhileD)
    then show ?thesis
      using "1.IH" [OF Cons] by (subst split_whitespace.simps) (simp add: Cons)
  qed
qed

lemma scan_lines_ok:
  "scan_lines f (map Inr ls) = Inr (\<exists>l \<in> set ls. is_word_of f l)"
  by (induction ls) (auto simp: list_ex_iff split_whitespace_words)

text \<open>The lines of a file, where a missing file has none.\<close>

definition file_lines :: "Kernel \<Rightarrow> string \<Rightarrow> string list \<Rightarrow> bool" where
  "file_lines k path ls \<longleftrightarrow> open_lines k path = Inr (map Inr ls) \<or> open_lines k path = Inl NotFound \<and> ls = []"

section \<open>Numbers\<close>

lemma show_nat_list_all: "list_all is_digit (show_nat n)"
  using show_nat_digits [of _ n] by (auto simp: list_all_iff is_digit_def)

lemma parse_u32_show:
  assumes "n < 2 ^ 32"
  shows "parse_u32 (show_nat n) = Some (of_nat n)"
proof -
  obtain c cs where c: "show_nat n = c # cs"
    by (meson list.exhaust show_nat_not_Nil)
  have "c \<noteq> CHR ''+''"
    using show_nat_digits [of c n] c by auto
  then have "(case show_nat n of c # cs \<Rightarrow> if c = CHR ''+'' then cs else show_nat n | [] \<Rightarrow> show_nat n) = show_nat n"
    by (simp add: c)
  then show ?thesis
    using assms show_nat_list_all [of n] by (simp add: parse_u32_def read_show_nat del: read_nat.simps)
qed

lemma split_at_sep:
  "(\<forall>c \<in> set xs. \<not> P c) \<Longrightarrow> P x \<Longrightarrow> split_at P (xs @ x # ys) = xs # split_at P ys"
  by (induction xs) auto

lemma split_at_first: "\<exists>ps. split_at P xs = takeWhile (\<lambda>c. \<not> P c) xs # ps"
  by (induction xs) auto

lemma parse_u32_glued:
  assumes "\<not> list_all is_digit y"
  shows "parse_u32 (show_nat b @ y) = None"
proof -
  obtain c cs where c: "show_nat b = c # cs"
    by (meson list.exhaust show_nat_not_Nil)
  have "c \<noteq> CHR ''+''"
    using show_nat_digits [of c b] c by auto
  then show ?thesis
    using assms by (auto simp: parse_u32_def c)
qed

section \<open>Properties\<close>

text \<open>A function is reported as available for kprobes exactly when it is a whole
  word of a line of the filter list and of no line of the blacklist, where a missing file
  counts as an empty one; a name that only occurs inside a longer one does not count.\<close>

theorem probe_kprobe_exact:
  assumes "file_lines k (kprobe_blacklist paths) bl" "file_lines k (available_filter_functions paths) av"
  shows "probe_kprobe k paths f = Inr ((\<forall>l \<in> set bl. \<not> is_word_of f l) \<and> (\<exists>l \<in> set av. is_word_of f l))"
proof -
  have "file_contains_line k path f = Inr (\<exists>l \<in> set ls. is_word_of f l)" if "file_lines k path ls" for path ls
    using that by (auto simp: file_lines_def file_contains_line_def scan_lines_ok)
  from this [OF assms(1)] this [OF assms(2)] show ?thesis
    by (auto simp: probe_kprobe_def)
qed

definition demo_kernel :: Kernel where
  "demo_kernel = \<lparr>path_exists = (\<lambda>_. True),
     open_lines = (\<lambda>path. if path = kprobe_blacklist ProbePaths_default then Inl NotFound
        else Inr [Inr ''vfs_read_iter'', Inr ''vfs_read [kernel]'']),
     sysconf_pagesize = 4096, create_ringbuf = (\<lambda>_. False), probe_bpf_helper_loop = - 22,
     vmlinux_btf = None, uname_release = Some (Some (show_nat 5 @ ''.'' @ show_nat 10 @ ''.0-60-generic''))\<rparr>"

lemma probe_kprobe_exact_witness: "probe_kprobe demo_kernel ProbePaths_default ''vfs_read'' = Inr True"
proof -
  have "file_lines demo_kernel (kprobe_blacklist ProbePaths_default) []"
    "file_lines demo_kernel (available_filter_functions ProbePaths_default) [''vfs_read_iter'', ''vfs_read [kernel]'']"
    by (simp_all add: file_lines_def demo_kernel_def ProbePaths_default_def)
  moreover have "is_word_of ''vfs_read'' ''vfs_read [kernel]''"
    unfolding is_word_of_def by (intro conjI exI [of _ "[]"] exI [of _ "'' [kernel]''"]) (auto simp: is_whitespace_def)
  ultimately show ?thesis
    using probe_kprobe_exact [of demo_kernel ProbePaths_default] by auto
qed

text \<open>Property C38. The kernel version is compared numerically, component by component, and not as
  a text: for a release that starts with two numbers below 2^32 with a dot between them, the
  answer is the lexicographic comparison with these numbers if the second ends the release or
  is followed by a dot or a dash. If any other character that is no digit is glued to it, as
  in 5.12+, the second number counts as 0.\<close>

theorem kernel_version_numeric:
  assumes "uname_release k = Some (Some (show_nat a @ ''.'' @ show_nat b @ rest))"
    "rest = [] \<or> \<not> is_digit (hd rest)" "a < 2 ^ 32" "b < 2 ^ 32"
  shows "kernel_version_ge k major minor \<longleftrightarrow>
    unat major < a \<or> unat major = a \<and>
      unat minor \<le> (if rest = [] \<or> hd rest = CHR ''.'' \<or> hd rest = CHR ''-'' then b else 0)"
proof -
  let ?sep = "\<lambda>c. c = CHR ''.'' \<or> c = CHR ''-''"
  define y where "y = takeWhile (\<lambda>c. \<not> ?sep c) rest"
  have digits: "\<forall>c \<in> set (show_nat n). \<not> ?sep c" for n
    using show_nat_digits [of _ n] by fastforce
  obtain ps where "split_at ?sep (show_nat b @ rest) = (show_nat b @ y) # ps"
    using split_at_first [of ?sep "show_nat b @ rest"] digits [of b] by (auto simp: y_def takeWhile_append2)
  then have split: "split_at ?sep (show_nat a @ ''.'' @ show_nat b @ rest) = show_nat a # (show_nat b @ y) # ps"
    using split_at_sep [OF digits, of "CHR ''.''" a "show_nat b @ rest"] by simp
  have second: "unat (unwrap_or 0 (parse_u32 (show_nat b @ y)) :: u32) =
      (if rest = [] \<or> hd rest = CHR ''.'' \<or> hd rest = CHR ''-'' then b else 0)"
  proof (cases "rest = [] \<or> ?sep (hd rest)")
    case True
    then have "y = []"
      by (cases rest) (auto simp: y_def)
    then show ?thesis
      using True assms(4) by (simp add: parse_u32_show unwrap_or_def unat_of_nat_small)
  next
    case False
    then have "y \<noteq> []" "\<not> list_all is_digit y"
      using assms(2) by (cases rest; simp add: y_def)+
    then show ?thesis
      using False parse_u32_glued [of y b] by (simp add: unwrap_or_def)
  qed
  have "unat (of_nat a :: u32) = a"
    using assms(3) by (simp add: unat_of_nat_small)
  then have "kernel_version_ge k major minor \<longleftrightarrow> unat major < a \<or> unat major = a \<and>
      unat minor \<le> unat (unwrap_or 0 (parse_u32 (show_nat b @ y)) :: u32)"
    using assms(1,3) split
    by (auto simp: kernel_version_ge_def Let_def parse_u32_show unwrap_or_def less_eq_prod_def word_less_nat_alt
        word_le_nat_alt word_unat_eq_iff)
  then show ?thesis
    unfolding second .
qed

lemma kernel_version_numeric_witness:
  "\<not> kernel_version_ge demo_kernel 5 11 \<and>
    \<not> kernel_version_ge (demo_kernel\<lparr>uname_release := Some (Some (show_nat 5 @ ''.'' @ show_nat 12 @ ''+''))\<rparr>) 5 11"
  using kernel_version_numeric [of demo_kernel 5 10 "''.0-60-generic''" 5 11]
    kernel_version_numeric [of "demo_kernel\<lparr>uname_release := Some (Some (show_nat 5 @ ''.'' @ show_nat 12 @ ''+''))\<rparr>" 5 12 "''+''" 5 11]
  by (simp add: demo_kernel_def is_digit_def)

text \<open>Probing degrades gracefully and claims nothing it has not confirmed. It fails
  only on a missing BTF; otherwise it reports a ring buffer, the BTF tracepoints, the loop
  helper or cgroups only where the kernel offers them, no fentry ever, and the arity of the
  block tracepoint as the BTF declares it, by the kernel version where the BTF does not; a
  probe that fails unexpectedly counts as an absent feature.\<close>

theorem probe_all_sound:
  "case probe_all bpf k paths of
     Inl e \<Rightarrow> e = BtfRequired \<and> \<not> path_exists k (btf_vmlinux paths)
   | Inr m \<Rightarrow> path_exists k (btf_vmlinux paths) \<and> has_btf m \<and>
       (fm_transport m = RingBuf \<longleftrightarrow> bpf \<and> create_ringbuf k
          (if 0 \<le> sysconf_pagesize k \<and> sysconf_pagesize k < 2 ^ 32 then of_int (sysconf_pagesize k) else 4096)) \<and>
       (fm_tracepoint m = TpBtf \<longleftrightarrow> bpf \<and> btf_typedef_func_proto_vlen k ''btf_trace_sched_switch'' \<noteq> None) \<and>
       (has_bpf_loop m \<longleftrightarrow> bpf \<and> probe_bpf_helper_loop k = 1) \<and>
       (has_cgroupv2 m \<longleftrightarrow> path_exists k (cgroup_controllers paths)) \<and> \<not> has_fentry m \<and>
       (block_rq_issue_single_arg m \<longleftrightarrow> \<not> bpf \<or>
          (case btf_typedef_func_proto_vlen k ''btf_trace_block_rq_issue'' of
             Some vlen \<Rightarrow> vlen = 2 | None \<Rightarrow> kernel_version_ge k 5 11))"
  by (auto simp: probe_all_def probe_btf_def fallback_def probe_ringbuf_def probe_tp_btf_def probe_bpf_loop_def
      probe_cgroupv2_def probe_fentry_def probe_block_rq_issue_single_arg_def Let_def split: option.splits)

text \<open>A release whose first component is no number compares as version 0, although the function
  is documented to return true when it cannot tell.\<close>

lemma unparsable_release_is_old:
  assumes "uname_release k = Some (Some ''unknown'')"
  shows "\<not> kernel_version_ge k 5 11"
  using assms by (simp add: kernel_version_ge_def Let_def parse_u32_def is_digit_def unwrap_or_def less_eq_prod_def)

end
