(* ===== verification/Transport.thy ===== *)
theory Transport
  imports Probe
begin

text \<open>
  The transport layer (\<open>src/transport/mod.rs\<close>, \<open>src/transport/config.rs\<close>): its error type and
  its configuration, with the u32 arithmetic that turns a buffer size into a page count. The
  reorder buffer has a theory of its own, \<open>Reorder\<close>; the trait \<open>EventTransport\<close> has no
  implementation in the sources.
\<close>

section \<open>Errors\<close>

datatype TransportError = Poll string | TransportIo IoError

fun TransportError_fmt :: "(IoError \<Rightarrow> string) \<Rightarrow> TransportError \<Rightarrow> string" where
  "TransportError_fmt io_fmt (Poll msg) = ''transport poll error: '' @ msg"
| "TransportError_fmt io_fmt (TransportIo e) = ''transport I/O error: '' @ io_fmt e"

fun TransportError_source :: "TransportError \<Rightarrow> IoError option" where
  "TransportError_source (TransportIo e) = Some e"
| "TransportError_source (Poll _) = None"

section \<open>Configuration\<close>

definition DEFAULT_RINGBUF_SIZE :: u32 where "DEFAULT_RINGBUF_SIZE = 16 * 1024 * 1024"
definition DEFAULT_PERF_PAGES :: u32 where "DEFAULT_PERF_PAGES = 256"

record TransportConfig =
  tc_mode :: TransportMode
  ringbuf_size :: u32
  perf_pages :: u32

definition TransportConfig_ringbuf :: "u32 \<Rightarrow> TransportConfig" where
  "TransportConfig_ringbuf sz = \<lparr>tc_mode = RingBuf, ringbuf_size = sz, perf_pages = 0\<rparr>"

definition TransportConfig_perfarray :: "u32 \<Rightarrow> TransportConfig" where
  "TransportConfig_perfarray pages_per_cpu = \<lparr>tc_mode = PerfArray, ringbuf_size = 0, perf_pages = pages_per_cpu\<rparr>"

definition TransportConfig_from_mode :: "TransportMode \<Rightarrow> TransportConfig" where
  "TransportConfig_from_mode mode =
     (case mode of RingBuf \<Rightarrow> TransportConfig_ringbuf DEFAULT_RINGBUF_SIZE
      | PerfArray \<Rightarrow> TransportConfig_perfarray DEFAULT_PERF_PAGES)"

section \<open>u32 arithmetic\<close>

text \<open>\<open>u32::div_ceil\<close> and \<open>u32::next_power_of_two\<close>; the latter wraps to 0 above 2^31.\<close>

definition div_ceil :: "u32 \<Rightarrow> u32 \<Rightarrow> u32" where
  "div_ceil a b = (if a mod b > 0 then a div b + 1 else a div b)"

fun pow2_from :: "nat \<Rightarrow> nat \<Rightarrow> nat \<Rightarrow> nat" where
  "pow2_from 0 p n = p"
| "pow2_from (Suc k) p n = (if n \<le> p then p else pow2_from k (2 * p) n)"

definition next_power_of_two :: "u32 \<Rightarrow> u32" where
  "next_power_of_two x = of_nat (pow2_from 32 1 (unat x))"

lemma pow2_from_least:
  assumes "n \<le> 2 ^ k * p"
  shows "\<exists>j \<le> k. pow2_from k p n = 2 ^ j * p \<and> n \<le> 2 ^ j * p \<and> (j = 0 \<or> 2 ^ (j - 1) * p < n)"
  using assms
proof (induction k arbitrary: p)
  case 0
  then show ?case by simp
next
  case (Suc k)
  show ?case
  proof (cases "n \<le> p")
    case True
    then show ?thesis by (intro exI [of _ 0]) simp
  next
    case False
    obtain j where j: "j \<le> k" "pow2_from k (2 * p) n = 2 ^ j * (2 * p)" "n \<le> 2 ^ j * (2 * p)"
      "j = 0 \<or> 2 ^ (j - 1) * (2 * p) < n"
      using Suc.IH [of "2 * p"] Suc.prems by auto
    then have "2 ^ (Suc j - 1) * p < n"
      using False by (cases j) auto
    then show ?thesis
      using j False by (intro exI [of _ "Suc j"]) simp
  qed
qed

lemma unat_div_ceil:
  "unat (div_ceil a b) = unat a div unat b + (if unat a mod unat b = 0 then 0 else 1)"
proof (cases "a mod b = 0")
  case True
  then have "unat a mod unat b = 0"
    by (metis unat_mod_distrib unsigned_0)
  with True show ?thesis
    by (simp add: div_ceil_def unat_div_distrib)
next
  case False
  then have mod: "unat a mod unat b \<noteq> 0"
    by (metis unat_mod_distrib unsigned_0 word_unat_eq_iff)
  then have "unat b \<noteq> 1" by (metis mod_by_Suc_0 One_nat_def)
  have "unat a div unat b + 1 < 2 ^ 32"
  proof (cases "unat b = 0")
    case False
    with \<open>unat b \<noteq> 1\<close> have "unat a div unat b \<le> unat a div 2"
      by (intro div_le_mono2) linarith+
    then show ?thesis
      using unsigned_less [of a, where ?'a = nat] by simp
  qed simp
  then have "unat (a div b + 1) = unat a div unat b + 1"
    by (simp add: unat_word_ariths unat_div_distrib)
  with False mod show ?thesis
    by (simp add: div_ceil_def word_gt_0)
qed

lemma div_ceil_covers:
  assumes "b \<noteq> 0"
  shows "unat a \<le> unat (div_ceil a b) * unat b" and "j < unat (div_ceil a b) \<Longrightarrow> j * unat b < unat a"
proof -
  have b: "0 < unat b"
    using assms by (simp add: unat_gt_0)
  have a: "unat a = unat a div unat b * unat b + unat a mod unat b" by simp
  have m: "unat a mod unat b < unat b" using b by simp
  show "unat a \<le> unat (div_ceil a b) * unat b"
  proof (cases "unat a mod unat b = 0")
    case True
    then show ?thesis using a by (simp add: unat_div_ceil)
  next
    case False
    then have "unat (div_ceil a b) * unat b = unat a div unat b * unat b + unat b"
      by (simp add: unat_div_ceil)
    then show ?thesis using a m by linarith
  qed
  assume j: "j < unat (div_ceil a b)"
  show "j * unat b < unat a"
  proof (cases "unat a mod unat b = 0")
    case True
    then have "j < unat a div unat b"
      using j by (simp add: unat_div_ceil)
    then have "j * unat b < unat a div unat b * unat b"
      using b by (rule mult_less_mono1)
    then show ?thesis using a by linarith
  next
    case False
    then have "j \<le> unat a div unat b"
      using j by (simp add: unat_div_ceil)
    then have "j * unat b \<le> unat a div unat b * unat b"
      by (rule mult_le_mono1)
    then show ?thesis using a False by linarith
  qed
qed

text \<open>The pages of a perf buffer of the given size.\<close>

definition buffer_pages :: "u32 \<Rightarrow> u32 \<Rightarrow> u32" where
  "buffer_pages sz page_size = next_power_of_two (div_ceil sz page_size)"

section \<open>Properties\<close>

text \<open>The page count for a requested buffer size is the least power of two whose
  pages hold the requested bytes; no 32-bit operation on the way wraps around, for every size
  and every page size of at least two bytes.\<close>

theorem buffer_pages_least:
  assumes "2 \<le> unat page_size"
  shows "\<exists>k \<le> 31. unat (buffer_pages sz page_size) = 2 ^ k \<and> unat sz \<le> 2 ^ k * unat page_size \<and>
    (\<forall>i < k. 2 ^ i * unat page_size < unat sz)"
proof -
  let ?q = "unat (div_ceil sz page_size)"
  have nz: "page_size \<noteq> 0"
    using assms by auto
  have "unat sz div unat page_size \<le> unat sz div 2"
    using assms by (intro div_le_mono2) simp_all
  moreover have "unat sz < 4294967296"
    using unsigned_less [of sz, where ?'a = nat] by simp
  then have "unat sz div 2 \<le> 2147483647" by linarith
  ultimately have q: "?q \<le> 2 ^ 31"
    by (simp add: unat_div_ceil)
  then obtain k where k: "k \<le> 32" "pow2_from 32 1 ?q = 2 ^ k" "?q \<le> 2 ^ k" "k = 0 \<or> 2 ^ (k - 1) < ?q"
    using pow2_from_least [of ?q 32 1] by auto
  have "k \<le> 31"
  proof (rule ccontr)
    assume "\<not> k \<le> 31"
    with k(1) have "k = 32" by simp
    with k(4) q show False by simp
  qed
  then have "(2 :: nat) ^ k < 2 ^ 32"
    by (intro power_strict_increasing) simp_all
  then have "unat (buffer_pages sz page_size) = 2 ^ k"
    using k(2) unat_of_nat_small [of "2 ^ k", where 'a = 32] by (simp add: buffer_pages_def next_power_of_two_def)
  moreover have "unat sz \<le> 2 ^ k * unat page_size"
    using div_ceil_covers(1) [OF nz, of sz] mult_le_mono1 [OF k(3), of "unat page_size"] by linarith
  moreover have "2 ^ i * unat page_size < unat sz" if "i < k" for i
  proof (rule div_ceil_covers(2) [OF nz])
    have "(2 :: nat) ^ i \<le> 2 ^ (k - 1)"
      using that by (intro power_increasing) simp_all
    also have "(2 :: nat) ^ (k - 1) < ?q"
      using k(4) that by blast
    finally show "2 ^ i < ?q" .
  qed
  ultimately show ?thesis
    using \<open>k \<le> 31\<close> by blast
qed

lemma buffer_pages_least_witness:
  "\<exists>k \<le> 31. unat (buffer_pages 1000000 4096) = 2 ^ k \<and> (1000000 :: nat) \<le> 2 ^ k * 4096 \<and> (\<forall>i < k. 2 ^ i * 4096 < (1000000 :: nat))"
  using buffer_pages_least [of 4096 1000000] by simp

end
