(* ===== verification/Recorder.thy ===== *)
theory Recorder
  imports Cli Transport Reorder Reader
begin

text \<open>
  The record command (\<open>src/record.rs\<close>). What the kernel, libbpf, the skeleton generated at
  build time and the file system do is a record: their errors, and a history of the rounds of
  the poll loop, any number of them: for each the stop flag and the clock the loop looks at,
  and the samples the transport delivers if it goes on. A session that has not left the loop
  at the end of the history is still running, and stays so if the flag is never set and the
  deadline never passes. The lemmas show that both poll loops are the writer run on the events
  captured, in order of arrival for the ring buffer and through the reorder buffer for the
  perf array, so that what is known of writer and reader holds of a recording session.
\<close>

section \<open>Outcomes\<close>

text \<open>What is seen of a command: it has returned, it has panicked and left the file it may have
  created (unwinding drops the writer, whose buffer is flushed), or it is still running.\<close>

datatype 'a outcome = Returned 'a | Panicked "Device option" | Running

section \<open>Errors\<close>

datatype RecordError =
    NoBpfSupport
  | RecordProbe string
  | Bpf string
  | SignalSetup IoError
  | RecordIo IoError

fun RecordError_fmt :: "(IoError \<Rightarrow> string) \<Rightarrow> RecordError \<Rightarrow> string" where
  "RecordError_fmt io_fmt NoBpfSupport = ''this build of wperf was compiled without BPF support; '' @
     ''rebuild with '' @ [CHR 0x60] @ ''--features bpf'' @ [CHR 0x60]"
| "RecordError_fmt io_fmt (RecordProbe msg) = ''feature probing failed: '' @ msg"
| "RecordError_fmt io_fmt (Bpf msg) = ''BPF error: '' @ msg"
| "RecordError_fmt io_fmt (SignalSetup e) = ''failed to register signal handler: '' @ io_fmt e"
| "RecordError_fmt io_fmt (RecordIo e) = ''record I/O error: '' @ io_fmt e"

fun RecordError_source :: "RecordError \<Rightarrow> IoError option" where
  "RecordError_source (SignalSetup e) = Some e"
| "RecordError_source (RecordIo e) = Some e"
| "RecordError_source NoBpfSupport = None"
| "RecordError_source (RecordProbe _) = None"
| "RecordError_source (Bpf _) = None"

section \<open>The environment\<close>

text \<open>What the perf buffer delivers: a sample, or a count of lost events.\<close>

datatype PerfEvent = PerfSample "u8 list" | PerfLost u64

text \<open>The configuration of the skeleton between \<open>open\<close> and \<open>load\<close>.\<close>

record SkelConfig =
  disabled_programs :: "string list"
  self_tgid :: u32
  enable_futex_tracing :: bool
  targ_single :: bool
  max_entries :: "u32 option"

text \<open>A round of a poll loop: the stop flag, the nanoseconds since the start of the session, and
  what the transport delivers.\<close>

record 'a PollRound =
  pr_stop :: bool
  pr_elapsed :: nat
  pr_data :: 'a

text \<open>An operation of libbpf is given by its error message, \<open>None\<close> for success; the drop counter
  is missing when the BSS section is.\<close>

record RecordEnv =
  re_bpf :: bool
  re_kernel :: Kernel
  io_error_fmt :: "IoError \<Rightarrow> string"
  register_signal :: "string \<Rightarrow> IoError option"
  proc_status :: "IoError + string"
  process_id :: u32
  skel_open :: "string option"
  bss_available :: bool
  rodata_available :: bool
  set_max_entries :: "u32 \<Rightarrow> string option"
  skel_load :: "SkelConfig \<Rightarrow> string option"
  skel_attach :: "string option"
  file_create :: "string \<Rightarrow> IoError + Device"
  target_arch :: string
  now_secs :: nat
  ring_builder :: "string option"
  ring_build :: "string option"
  ring_rounds :: "u8 list list PollRound list"
  ring_rest :: "u8 list list"
  perf_build :: "u32 \<Rightarrow> string option"
  perf_rounds :: "PerfEvent list PollRound list"
  drop_counter :: "u64 option"
  flush_error :: "IoError option"

section \<open>Set-up\<close>

fun register_signal_handlers :: "RecordEnv \<Rightarrow> string list \<Rightarrow> RecordError + unit" where
  "register_signal_handlers env [] = Inr ()"
| "register_signal_handlers env (sig # sigs) =
     (case register_signal env sig of
        Some e \<Rightarrow> Inl (SignalSetup e)
      | None \<Rightarrow> register_signal_handlers env sigs)"

definition strip_prefix :: "string \<Rightarrow> string \<Rightarrow> string option" where
  "strip_prefix p s = (if take (length p) s = p then Some (drop (length p) s) else None)"

definition first_word :: "string \<Rightarrow> string option" where
  "first_word s = (case split_whitespace s of [] \<Rightarrow> None | w # _ \<Rightarrow> Some w)"

fun find_tgid :: "string list \<Rightarrow> u32 option" where
  "find_tgid [] = None"
| "find_tgid (line # rest) =
     (case Option.bind (Option.bind (strip_prefix ''NSpid:'' line) first_word) parse_u32 of
        Some n \<Rightarrow> Some n
      | None \<Rightarrow> find_tgid rest)"

definition global_tgid :: "RecordEnv \<Rightarrow> u32" where
  "global_tgid env =
     (case proc_status env of
        Inl _ \<Rightarrow> process_id env
      | Inr status \<Rightarrow> (case find_tgid (lines status) of Some n \<Rightarrow> n | None \<Rightarrow> process_id env))"

text \<open>The configuration of the transport; \<open>None\<close> is the panic on a page size beyond u32.\<close>

definition transport_config_of ::
    "Kernel \<Rightarrow> u32 option \<Rightarrow> FeatureMatrix \<Rightarrow> (RecordError + TransportConfig) option" where
  "transport_config_of k buffer_size features =
     (case buffer_size of
        None \<Rightarrow> Some (Inr (TransportConfig_from_mode (fm_transport features)))
      | Some sz \<Rightarrow>
          (case fm_transport features of
             RingBuf \<Rightarrow> Some (Inr (TransportConfig_ringbuf sz))
           | PerfArray \<Rightarrow>
               let raw = sysconf_pagesize k
               in if raw \<le> 0 then Some (Inl (RecordIo OtherIo))
                  else if raw < 2 ^ 32
                  then Some (Inr (TransportConfig_perfarray (buffer_pages sz (of_int raw))))
                  else None))"

definition unused_programs :: "TracepointMode \<Rightarrow> string list" where
  "unused_programs mode =
     (case mode of
        TpBtf \<Rightarrow> [''handle_sched_switch_raw'', ''handle_sched_wakeup_raw'', ''handle_block_rq_issue_raw'',
          ''handle_block_rq_complete_raw'']
      | RawTp \<Rightarrow> [''handle_sched_switch_btf'', ''handle_sched_wakeup_btf'', ''handle_block_rq_issue_btf'',
          ''handle_block_rq_complete_btf''])"

text \<open>From opening the skeleton to attaching it.\<close>

definition attach_probes :: "RecordEnv \<Rightarrow> FeatureMatrix \<Rightarrow> TransportConfig \<Rightarrow> RecordError + unit" where
  "attach_probes env features config =
     (case skel_open env of
        Some e \<Rightarrow> Inl (Bpf (''skeleton open: '' @ e))
      | None \<Rightarrow>
          if \<not> bss_available env then Inl (Bpf ''BSS data not available'')
          else if \<not> rodata_available env then Inl (Bpf ''rodata not available'')
          else
            let ring = (fm_transport features = RingBuf);
                skel = \<lparr>disabled_programs = unused_programs (fm_tracepoint features), self_tgid = global_tgid env,
                  enable_futex_tracing = True, targ_single = block_rq_issue_single_arg features,
                  max_entries = (if ring then Some (ringbuf_size config) else None)\<rparr>
            in case (if ring then set_max_entries env (ringbuf_size config) else None) of
                 Some e \<Rightarrow> Inl (Bpf (''set ringbuf size: '' @ e))
               | None \<Rightarrow>
                   (case skel_load env skel of
                      Some e \<Rightarrow> Inl (Bpf (''skeleton load: '' @ e))
                    | None \<Rightarrow>
                        (case skel_attach env of
                           Some e \<Rightarrow> Inl (Bpf (''skeleton attach: '' @ e))
                         | None \<Rightarrow> Inr ())))"

text \<open>\<open>Duration::from_secs_f64\<close>, which panics on a value that is negative, not finite or too
  large, and the addition to the current instant, whose seconds are an i64.\<close>

definition deadline_representable :: "nat \<Rightarrow> f64 \<Rightarrow> bool" where
  "deadline_representable now d = (case d of Finite x \<Rightarrow> 0 \<le> x \<and> rat_of_nat now + x < 2 ^ 63 | _ \<Rightarrow> False)"

text \<open>The deadline, as nanoseconds since the start: \<open>from_secs_f64\<close> rounds to the nearest
  nanosecond, and ties to even.\<close>

definition round_ties_even :: "rat \<Rightarrow> int" where
  "round_ties_even y =
     (let n = \<lfloor>y\<rfloor>; f = y - of_int n
      in if f < 1 / 2 \<or> f = 1 / 2 \<and> even n then n else n + 1)"

fun from_secs_f64 :: "f64 \<Rightarrow> nat" where
  "from_secs_f64 (Finite x) = nat (round_ties_even (x * 10 ^ 9))"
| "from_secs_f64 _ = 0"

definition deadline_of :: "RecordArgs \<Rightarrow> nat option" where
  "deadline_of args = map_option from_secs_f64 (ra_duration args)"

section \<open>The poll loops\<close>

text \<open>The two tests at the head of both loops.\<close>

definition leaves_loop :: "nat option \<Rightarrow> 'a PollRound \<Rightarrow> bool" where
  "leaves_loop deadline r \<longleftrightarrow>
     pr_stop r \<or> (case deadline of None \<Rightarrow> False | Some d \<Rightarrow> d \<le> pr_elapsed r)"

type_synonym session = "WperfWriter \<times> u64"

text \<open>One call of \<open>consume\<close>: the callback is called for each sample; a negative result stops it,
  and the error is returned after it.\<close>

fun ring_consume :: "u8 list list \<Rightarrow> session \<Rightarrow> (IoError + unit) \<times> session" where
  "ring_consume [] st = (Inr (), st)"
| "ring_consume (data # rest) st =
     (if length data < EVENT_SIZE then ring_consume rest st
      else case write_event_raw (take EVENT_SIZE data) (fst st) of
        (Inl e, w) \<Rightarrow> (Inl e, (w, snd st))
      | (Inr _, w) \<Rightarrow> ring_consume rest (w, snd st + 1))"

text \<open>The loops give \<open>None\<close> while they run.\<close>

fun ring_loop :: "nat option \<Rightarrow> u8 list list PollRound list \<Rightarrow> session \<Rightarrow> ((IoError + unit) \<times> session) option" where
  "ring_loop deadline [] st = None"
| "ring_loop deadline (r # rounds) st =
     (if leaves_loop deadline r then Some (Inr (), st)
      else case ring_consume (pr_data r) st of
        (Inl e, st') \<Rightarrow> Some (Inl e, st')
      | (Inr _, st') \<Rightarrow> ring_loop deadline rounds st')"

definition poll_ringbuf :: "RecordEnv \<Rightarrow> nat option \<Rightarrow> session \<Rightarrow> ((RecordError + unit) \<times> session) option" where
  "poll_ringbuf env deadline st =
     (case ring_builder env of
        Some e \<Rightarrow> Some (Inl (Bpf (''ringbuf builder: '' @ e)), st)
      | None \<Rightarrow>
          (case ring_build env of
             Some e \<Rightarrow> Some (Inl (Bpf (''ringbuf build: '' @ e)), st)
           | None \<Rightarrow>
               (case ring_loop deadline (ring_rounds env) st of
                  None \<Rightarrow> None
                | Some (Inl e, st) \<Rightarrow> Some (Inl (RecordIo e), st)
                | Some (Inr _, st) \<Rightarrow>
                    (case ring_consume (ring_rest env) st of
                       (Inl e, st) \<Rightarrow> Some (Inl (RecordIo e), st)
                     | (Inr _, st) \<Rightarrow> Some (Inr (), st)))))"

text \<open>The shared state of the callbacks and the loop on the perf array: the pending events, the
  lost count, the reorder buffer, the session and the first write error.\<close>

record PerfState =
  ps_pending :: "WperfEvent list"
  ps_lost :: u64
  ps_reorder :: ReorderBuf
  ps_session :: session
  ps_error :: "IoError option"

fun perf_callback :: "PerfEvent \<Rightarrow> PerfState \<Rightarrow> PerfState" where
  "perf_callback (PerfSample data) st =
     (if length data < EVENT_SIZE then st
      else st\<lparr>ps_pending := ps_pending st @ [event_from_bytes (take EVENT_SIZE data)]\<rparr>)"
| "perf_callback (PerfLost n) st = st\<lparr>ps_lost := ps_lost st + n\<rparr>"

definition write_cb :: "WperfEvent \<Rightarrow> PerfState \<Rightarrow> PerfState" where
  "write_cb ev st =
     (if ps_error st \<noteq> None then st
      else case write_event ev (fst (ps_session st)) of
        (Inr _, w) \<Rightarrow> st\<lparr>ps_session := (w, snd (ps_session st) + 1)\<rparr>
      | (Inl e, w) \<Rightarrow> st\<lparr>ps_session := (w, snd (ps_session st)), ps_error := Some e\<rparr>)"

definition push_pending :: "WperfEvent \<Rightarrow> PerfState \<Rightarrow> PerfState" where
  "push_pending ev st =
     (case reorder_push ev (ps_reorder st) of (out, b) \<Rightarrow> fold write_cb out (st\<lparr>ps_reorder := b\<rparr>))"

definition flush_pending :: "PerfState \<Rightarrow> PerfState" where
  "flush_pending st = fold push_pending (ps_pending st) (st\<lparr>ps_pending := []\<rparr>)"

fun perf_loop :: "nat option \<Rightarrow> PerfEvent list PollRound list \<Rightarrow> PerfState \<Rightarrow> ((IoError + unit) \<times> PerfState) option" where
  "perf_loop deadline [] st = None"
| "perf_loop deadline (r # rounds) st =
     (if leaves_loop deadline r then Some (Inr (), st)
      else
        (let st = flush_pending (fold perf_callback (pr_data r) st)
         in case ps_error st of Some e \<Rightarrow> Some (Inl e, st) | None \<Rightarrow> perf_loop deadline rounds st))"

definition drain_reorder :: "PerfState \<Rightarrow> PerfState" where
  "drain_reorder st = (case reorder_drain (ps_reorder st) of (out, b) \<Rightarrow> fold write_cb out (st\<lparr>ps_reorder := b\<rparr>))"

definition poll_perfarray ::
    "RecordEnv \<Rightarrow> TransportConfig \<Rightarrow> nat option \<Rightarrow> session \<Rightarrow> ((RecordError + u64) \<times> session) option" where
  "poll_perfarray env config deadline st =
     (case perf_build env (perf_pages config) of
        Some e \<Rightarrow> Some (Inl (Bpf (''perf buffer build: '' @ e)), st)
      | None \<Rightarrow>
          (case perf_loop deadline (perf_rounds env) \<lparr>ps_pending = [], ps_lost = 0, ps_reorder = ReorderBuf_new,
                ps_session = st, ps_error = None\<rparr> of
             None \<Rightarrow> None
           | Some (Inl e, ps) \<Rightarrow> Some (Inl (RecordIo e), ps_session ps)
           | Some (Inr _, ps) \<Rightarrow>
               let ps = flush_pending ps
               in case ps_error ps of
                    Some e \<Rightarrow> Some (Inl (RecordIo e), ps_session ps)
                  | None \<Rightarrow>
                      let ps = drain_reorder ps
                      in case ps_error ps of
                           Some e \<Rightarrow> Some (Inl (RecordIo e), ps_session ps)
                         | None \<Rightarrow> Some (Inr (ps_lost ps), ps_session ps)))"

section \<open>A session\<close>

definition poll_transport ::
    "RecordEnv \<Rightarrow> FeatureMatrix \<Rightarrow> TransportConfig \<Rightarrow> nat option \<Rightarrow> session \<Rightarrow> ((RecordError + u64) \<times> session) option" where
  "poll_transport env features config deadline st =
     (case fm_transport features of
        RingBuf \<Rightarrow>
          (case poll_ringbuf env deadline st of
             None \<Rightarrow> None
           | Some (Inl e, st') \<Rightarrow> Some (Inl e, st')
           | Some (Inr _, st') \<Rightarrow> Some (Inr 0, st'))
      | PerfArray \<Rightarrow> poll_perfarray env config deadline st)"

text \<open>From the creation of the file to the footer: the result, the counts for the summary and
  the file. The \<open>BufWriter\<close> in front of the file is transparent: it delivers the bytes in
  order, seeks only after it has flushed, and flushes when it is dropped on an error or a
  panic.\<close>

definition record_events ::
    "RecordEnv \<Rightarrow> FeatureMatrix \<Rightarrow> TransportConfig \<Rightarrow> RecordArgs \<Rightarrow> ((RecordError + u64 \<times> u64) \<times> Device option) outcome" where
  "record_events env features config args =
     (case file_create env (ra_output args) of
        Inl e \<Rightarrow> Returned (Inl (RecordIo e), None)
      | Inr file \<Rightarrow>
          (case WperfWriter_new (target_arch env) file of
             (Inl e, d) \<Rightarrow> Returned (Inl (RecordIo e), Some d)
           | (Inr w, _) \<Rightarrow>
               if (case ra_duration args of None \<Rightarrow> True | Some d \<Rightarrow> deadline_representable (now_secs env) d) then
                 (case poll_transport env features config (deadline_of args) (w, 0) of
                    None \<Rightarrow> Running
                  | Some (Inl e, st) \<Rightarrow> Returned (Inl e, Some (w_inner (fst st)))
                  | Some (Inr transport_lost, (w, event_count)) \<Rightarrow>
                      let drop_count = unwrap_or 0 (drop_counter env) + transport_lost
                      in case finish drop_count w of
                           (Inl e, w) \<Rightarrow> Returned (Inl (RecordIo e), Some (w_inner w))
                         | (Inr _, w) \<Rightarrow>
                             (case flush_error env of
                                Some e \<Rightarrow> Returned (Inl (RecordIo e), Some (w_inner w))
                              | None \<Rightarrow> Returned (Inr (event_count, drop_count), Some (w_inner w))))
               else Panicked (Some (w_inner w))))"

definition record_impl :: "RecordEnv \<Rightarrow> RecordArgs \<Rightarrow> ((RecordError + u64 \<times> u64) \<times> Device option) outcome" where
  "record_impl env args =
     (if \<not> re_bpf env then Returned (Inl NoBpfSupport, None)
      else case probe_all True (re_kernel env) ProbePaths_default of
        Inl e \<Rightarrow> Returned (Inl (RecordProbe (ProbeError_fmt (io_error_fmt env) e)), None)
      | Inr features \<Rightarrow>
          (case transport_config_of (re_kernel env) (ra_buffer_size args) features of
             None \<Rightarrow> Panicked None
           | Some (Inl e) \<Rightarrow> Returned (Inl e, None)
           | Some (Inr config) \<Rightarrow>
               (case attach_probes env features config of
                  Inl e \<Rightarrow> Returned (Inl e, None)
                | Inr _ \<Rightarrow> record_events env features config args)))"

definition record_run :: "RecordEnv \<Rightarrow> RecordArgs \<Rightarrow> ((RecordError + u64 \<times> u64) \<times> Device option) outcome" where
  "record_run env args =
     (case register_signal_handlers env [''SIGINT'', ''SIGTERM''] of
        Inl e \<Rightarrow> Returned (Inl e, None)
      | Inr _ \<Rightarrow> record_impl env args)"

section \<open>Both loops are the writer run on the captured events\<close>

text \<open>The specification of a session on the transport: the events one after the other and
  counted, up to the first error.\<close>

fun record_all :: "WperfEvent list \<Rightarrow> session \<Rightarrow> (IoError + unit) \<times> session" where
  "record_all [] st = (Inr (), st)"
| "record_all (e # es) st =
     (case write_event e (fst st) of
        (Inl x, w) \<Rightarrow> (Inl x, (w, snd st))
      | (Inr _, w) \<Rightarrow> record_all es (w, snd st + 1))"

lemma record_all_append:
  "record_all (xs @ ys) st =
     (case record_all xs st of (Inl e, st') \<Rightarrow> (Inl e, st') | (Inr _, st') \<Rightarrow> record_all ys st')"
  by (induction xs arbitrary: st) (auto split: prod.splits sum.splits)

text \<open>The writer after it is that of \<open>write_events\<close>, and the count is the number of events.\<close>

lemma record_all_writes: "record_all es st = (r, w, n) \<Longrightarrow> write_events es (fst st) = (r, w)"
  by (induction es arbitrary: st) (auto simp: io_bind_def split: prod.splits sum.splits)

lemma record_all_count:
  "record_all es st = (Inr u, st') \<Longrightarrow> snd st' = snd st + of_nat (length es)"
  by (induction es arbitrary: st) (auto split: prod.splits sum.splits)

text \<open>The ring buffer.\<close>

definition samples_of :: "u8 list list \<Rightarrow> WperfEvent list" where
  "samples_of ds = map (\<lambda>d. event_from_bytes (take EVENT_SIZE d)) (filter (\<lambda>d. EVENT_SIZE \<le> length d) ds)"

lemma samples_of_append [simp]: "samples_of (xs @ ys) = samples_of xs @ samples_of ys"
  by (simp add: samples_of_def)

lemma write_event_raw_take:
  "EVENT_SIZE \<le> length d \<Longrightarrow> write_event_raw (take EVENT_SIZE d) = write_event (event_from_bytes (take EVENT_SIZE d))"
  using write_event_raw_eq [of "event_from_bytes (take EVENT_SIZE d)"]
  by (simp add: event_to_from_bytes EVENT_SIZE_def)

lemma ring_consume_eq: "ring_consume ds st = record_all (samples_of ds) st"
  by (induction ds arbitrary: st)
    (auto simp: samples_of_def write_event_raw_take split: prod.splits sum.splits)

text \<open>What a loop is delivered before the round that ends it, and whether there is one.\<close>

definition polled :: "nat option \<Rightarrow> 'a PollRound list \<Rightarrow> 'a list" where
  "polled deadline rounds = map pr_data (takeWhile (\<lambda>r. \<not> leaves_loop deadline r) rounds)"

definition ended :: "nat option \<Rightarrow> 'a PollRound list \<Rightarrow> bool" where
  "ended deadline rounds \<longleftrightarrow> list_ex (leaves_loop deadline) rounds"

lemma polled_simps [simp]:
  "polled deadline [] = []"
  "polled deadline (r # rounds) = (if leaves_loop deadline r then [] else pr_data r # polled deadline rounds)"
  "\<not> ended deadline []"
  "ended deadline (r # rounds) \<longleftrightarrow> leaves_loop deadline r \<or> ended deadline rounds"
  by (simp_all add: polled_def ended_def)

lemma ring_loop_eq:
  "ring_loop deadline rounds st =
     (case record_all (samples_of (concat (polled deadline rounds))) st of
        (Inl e, st') \<Rightarrow> Some (Inl e, st')
      | (Inr _, st') \<Rightarrow> if ended deadline rounds then Some (Inr (), st') else None)"
  by (induction rounds arbitrary: st)
    (auto simp: ring_consume_eq record_all_append samples_of_def [of "[]"] split: prod.splits sum.splits)

lemma poll_ringbuf_eq:
  assumes "ring_builder env = None" "ring_build env = None"
  shows "poll_ringbuf env deadline st =
    (case record_all (samples_of (concat (polled deadline (ring_rounds env)))) st of
       (Inl e, st') \<Rightarrow> Some (Inl (RecordIo e), st')
     | (Inr _, st') \<Rightarrow>
         if ended deadline (ring_rounds env)
         then Some (case record_all (samples_of (ring_rest env)) st' of
             (Inl e, st') \<Rightarrow> (Inl (RecordIo e), st') | (Inr _, st') \<Rightarrow> (Inr (), st'))
         else None)"
  using assms
  by (auto simp: poll_ringbuf_def ring_loop_eq ring_consume_eq split: prod.splits sum.splits)

text \<open>The perf array: writing through the callback is \<open>record_all\<close> that remembers its error.\<close>

definition emit :: "WperfEvent list \<Rightarrow> PerfState \<Rightarrow> PerfState" where
  "emit out st =
     (if ps_error st \<noteq> None then st
      else case record_all out (ps_session st) of
        (Inr _, s) \<Rightarrow> st\<lparr>ps_session := s\<rparr>
      | (Inl e, s) \<Rightarrow> st\<lparr>ps_session := s, ps_error := Some e\<rparr>)"

lemma emit_Nil [simp]: "emit [] st = st"
  by (simp add: emit_def)

lemma emit_append: "emit (xs @ ys) st = emit ys (emit xs st)"
proof -
  obtain r s where "record_all xs (ps_session st) = (r, s)" by (rule prod.exhaust)
  then show ?thesis
    by (cases r; cases "record_all ys s") (auto simp: emit_def record_all_append split: sum.split)
qed

lemma emit_reorder: "(emit out st)\<lparr>ps_reorder := b\<rparr> = emit out (st\<lparr>ps_reorder := b\<rparr>)"
  by (auto simp: emit_def split: prod.splits sum.splits)

lemma emit_fields [simp]:
  "ps_reorder (emit out st) = ps_reorder st" "ps_pending (emit out st) = ps_pending st"
  "ps_lost (emit out st) = ps_lost st"
  by (auto simp: emit_def split: prod.splits sum.splits)

lemma write_cb_emit: "write_cb ev st = emit [ev] st"
  by (cases st) (auto simp: write_cb_def emit_def split: prod.splits sum.splits)

lemma fold_write_cb: "fold write_cb out st = emit out st"
proof (induction out arbitrary: st)
  case (Cons e out)
  then show ?case using emit_append [of "[e]" out st] by (simp add: write_cb_emit)
qed simp

lemma fold_push_pending:
  "push_all evs (ps_reorder st) = (out, b) \<Longrightarrow> fold push_pending evs st = emit out (st\<lparr>ps_reorder := b\<rparr>)"
proof (induction evs arbitrary: st out)
  case (Cons e evs)
  obtain o1 b1 where e: "reorder_push e (ps_reorder st) = (o1, b1)" by fastforce
  obtain o2 where rest: "push_all evs b1 = (o2, b)" "out = o1 @ o2"
    using Cons.prems e by (auto simp: Let_def split: prod.splits)
  have "push_pending e st = emit o1 (st\<lparr>ps_reorder := b1\<rparr>)"
    by (simp add: push_pending_def e fold_write_cb)
  then show ?case
    using Cons.IH [of "push_pending e st" o2] rest by (simp add: emit_reorder emit_append)
qed simp

lemma flush_pending_eq:
  "push_all (ps_pending st) (ps_reorder st) = (out, b) \<Longrightarrow>
   flush_pending st = emit out (st\<lparr>ps_pending := [], ps_reorder := b\<rparr>)"
  by (simp add: flush_pending_def fold_push_pending)

text \<open>What the callbacks collect.\<close>

fun perf_samples :: "PerfEvent list \<Rightarrow> WperfEvent list" where
  "perf_samples [] = []"
| "perf_samples (PerfSample d # ps) = samples_of [d] @ perf_samples ps"
| "perf_samples (PerfLost n # ps) = perf_samples ps"

fun perf_losses :: "PerfEvent list \<Rightarrow> u64" where
  "perf_losses [] = 0"
| "perf_losses (PerfSample d # ps) = perf_losses ps"
| "perf_losses (PerfLost n # ps) = n + perf_losses ps"

lemma perf_samples_append [simp]: "perf_samples (xs @ ys) = perf_samples xs @ perf_samples ys"
  by (induction xs rule: perf_samples.induct) auto

lemma perf_losses_append [simp]: "perf_losses (xs @ ys) = perf_losses xs + perf_losses ys"
  by (induction xs rule: perf_losses.induct) auto

lemma fold_perf_callback:
  "fold perf_callback batch st =
     st\<lparr>ps_pending := ps_pending st @ perf_samples batch, ps_lost := ps_lost st + perf_losses batch\<rparr>"
  by (induction batch arbitrary: st rule: perf_samples.induct) (auto simp: samples_of_def add.assoc)

lemma push_all_append:
  "push_all (xs @ ys) b = (case push_all xs b of (o1, b1) \<Rightarrow> case push_all ys b1 of (o2, b2) \<Rightarrow> (o1 @ o2, b2))"
  by (induction xs arbitrary: b) (auto simp: Let_def split: prod.splits)

lemma perf_loop_eq:
  assumes "ps_pending st = []" "ps_error st = None"
    and "push_all (perf_samples (concat (polled deadline rounds))) (ps_reorder st) = (out, b)"
  shows "case record_all out (ps_session st) of
      (Inl e, s) \<Rightarrow> \<exists>ps. perf_loop deadline rounds st = Some (Inl e, ps) \<and> ps_session ps = s
    | (Inr _, s) \<Rightarrow> perf_loop deadline rounds st =
        (if ended deadline rounds
         then Some (Inr (), st\<lparr>ps_lost := ps_lost st + perf_losses (concat (polled deadline rounds)), ps_reorder := b, ps_session := s\<rparr>)
         else None)"
  using assms
proof (induction rounds arbitrary: st out)
  case Nil
  then show ?case by simp
next
  case (Cons r rounds)
  show ?case
  proof (cases "leaves_loop deadline r")
    case True
    then show ?thesis using Cons.prems by simp
  next
    case False
    obtain o1 b1 where batch: "push_all (perf_samples (pr_data r)) (ps_reorder st) = (o1, b1)" by fastforce
    obtain o2 where rest: "push_all (perf_samples (concat (polled deadline rounds))) b1 = (o2, b)" "out = o1 @ o2"
      using Cons.prems(3) batch False by (auto simp: push_all_append split: prod.splits)
    let ?st = "st\<lparr>ps_lost := ps_lost st + perf_losses (pr_data r), ps_reorder := b1\<rparr>"
    have flush: "flush_pending (fold perf_callback (pr_data r) st) = emit o1 ?st"
      using Cons.prems(1) batch by (cases st) (simp add: flush_pending_eq [of _ o1 b1] fold_perf_callback)
    obtain x s where s: "record_all o1 (ps_session st) = (x, s)" by (rule prod.exhaust)
    show ?thesis
    proof (cases x)
      case (Inl e)
      then show ?thesis
        using s Cons.prems(2) False by (simp add: flush rest(2) record_all_append emit_def Let_def)
    next
      case (Inr u)
      then have "emit o1 ?st = ?st\<lparr>ps_session := s\<rparr>"
        using s Cons.prems(2) by (simp add: emit_def)
      then show ?thesis
        using Cons.IH [of "?st\<lparr>ps_session := s\<rparr>" o2] Cons.prems(1,2) rest s Inr False
        by (auto simp: flush record_all_append add.assoc split: prod.splits sum.splits)
    qed
  qed
qed

text \<open>A loop that is over has written what the reorder buffer makes of all samples; one that is
  not has written without an error what it has handed out so far.\<close>

lemma poll_perfarray_eq:
  assumes "perf_build env (perf_pages config) = None"
    and "push_all (perf_samples (concat (polled deadline (perf_rounds env)))) ReorderBuf_new = (out, b)"
  shows "poll_perfarray env config deadline st =
    (case record_all out st of
       (Inl e, st') \<Rightarrow> Some (Inl (RecordIo e), st')
     | (Inr _, st') \<Rightarrow>
         if ended deadline (perf_rounds env)
         then Some (case record_all (reorder_all (perf_samples (concat (polled deadline (perf_rounds env)))) ReorderBuf_new) st of
             (Inl e, st') \<Rightarrow> (Inl (RecordIo e), st')
           | (Inr _, st') \<Rightarrow> (Inr (perf_losses (concat (polled deadline (perf_rounds env)))), st'))
         else None)"
proof -
  let ?ps = "\<lparr>ps_pending = [], ps_lost = 0, ps_reorder = ReorderBuf_new, ps_session = st, ps_error = None\<rparr>"
  have loop: "case record_all out st of
      (Inl e, s) \<Rightarrow> \<exists>ps. perf_loop deadline (perf_rounds env) ?ps = Some (Inl e, ps) \<and> ps_session ps = s
    | (Inr _, s) \<Rightarrow> perf_loop deadline (perf_rounds env) ?ps =
        (if ended deadline (perf_rounds env)
         then Some (Inr (), ?ps\<lparr>ps_lost := perf_losses (concat (polled deadline (perf_rounds env))), ps_reorder := b, ps_session := s\<rparr>)
         else None)"
    using perf_loop_eq [of ?ps deadline "perf_rounds env" out b] assms(2) by (auto split: prod.splits sum.splits)
  obtain r s where s: "record_all out st = (r, s)" by (rule prod.exhaust)
  show ?thesis
  proof (cases r)
    case (Inl e)
    then show ?thesis
      using loop s assms(1) by (auto simp: poll_perfarray_def)
  next
    case (Inr u)
    then show ?thesis
      using loop s assms(1)
      by (auto simp: poll_perfarray_def reorder_all_eq [OF assms(2)] record_all_append Let_def flush_pending_def
          drain_reorder_def reorder_drain_def reorder_drain_loop_eq fold_write_cb emit_def split: prod.splits sum.splits)
  qed
qed

section \<open>A session leaves what it captured\<close>

text \<open>The events a session is given to write, in the order of the file: those of the rounds
  before the one that ends the loop, and of the final drain; and the losses its transport
  counts.\<close>

definition captured :: "RecordEnv \<Rightarrow> RecordArgs \<Rightarrow> FeatureMatrix \<Rightarrow> WperfEvent list" where
  "captured env args features =
     (case fm_transport features of
        RingBuf \<Rightarrow> samples_of (concat (polled (deadline_of args) (ring_rounds env)) @ ring_rest env)
      | PerfArray \<Rightarrow> reorder_all (perf_samples (concat (polled (deadline_of args) (perf_rounds env)))) ReorderBuf_new)"

definition transport_losses :: "RecordEnv \<Rightarrow> RecordArgs \<Rightarrow> FeatureMatrix \<Rightarrow> u64" where
  "transport_losses env args features =
     (case fm_transport features of
        RingBuf \<Rightarrow> 0
      | PerfArray \<Rightarrow> perf_losses (concat (polled (deadline_of args) (perf_rounds env))))"

definition transport_ready :: "RecordEnv \<Rightarrow> FeatureMatrix \<Rightarrow> TransportConfig \<Rightarrow> bool" where
  "transport_ready env features config \<longleftrightarrow>
     (case fm_transport features of
        RingBuf \<Rightarrow> ring_builder env = None \<and> ring_build env = None
      | PerfArray \<Rightarrow> perf_build env (perf_pages config) = None)"

text \<open>The history of the loop has a round that finds the stop flag set, or the time since the
  start to have reached the duration given.\<close>

definition stop_seen :: "f64 option \<Rightarrow> 'a PollRound list \<Rightarrow> bool" where
  "stop_seen duration rounds \<longleftrightarrow>
     (\<exists>r \<in> set rounds. pr_stop r \<or> (\<exists>x. duration = Some x \<and> from_secs_f64 x \<le> pr_elapsed r))"

definition polling_ends :: "RecordEnv \<Rightarrow> RecordArgs \<Rightarrow> FeatureMatrix \<Rightarrow> bool" where
  "polling_ends env args features \<longleftrightarrow>
     (if fm_transport features = RingBuf then stop_seen (ra_duration args) (ring_rounds env)
      else stop_seen (ra_duration args) (perf_rounds env))"

lemma ended_iff: "ended (deadline_of args) rounds \<longleftrightarrow> stop_seen (ra_duration args) rounds"
  by (cases "ra_duration args") (auto simp: ended_def stop_seen_def leaves_loop_def deadline_of_def list_ex_iff)

lemma poll_transport_not_ready:
  "\<not> transport_ready env features config \<Longrightarrow> \<exists>e. poll_transport env features config deadline st = Some (Inl e, st)"
  by (cases "ring_builder env")
    (auto simp: transport_ready_def poll_transport_def poll_ringbuf_def poll_perfarray_def split: TransportMode.splits)

lemma record_all_error: "record_all xs st = (Inl e, st') \<Longrightarrow> record_all (xs @ ys) st = (Inl e, st')"
  by (simp add: record_all_append)

text \<open>A loop that is left by an error or in its last round has written the events captured.\<close>

lemma poll_transport_ready:
  assumes "transport_ready env features config"
  shows "poll_transport env features config (deadline_of args) st =
      Some (case record_all (captured env args features) st of
        (Inl e, st') \<Rightarrow> (Inl (RecordIo e), st')
      | (Inr _, st') \<Rightarrow> (Inr (transport_losses env args features), st')) \<or>
    poll_transport env features config (deadline_of args) st = None \<and> \<not> polling_ends env args features"
proof (cases "fm_transport features")
  case RingBuf
  then have ready: "ring_builder env = None" "ring_build env = None"
    using assms by (simp_all add: transport_ready_def)
  let ?xs = "samples_of (concat (polled (deadline_of args) (ring_rounds env)))"
  obtain r s where s: "record_all ?xs st = (r, s)" by (rule prod.exhaust)
  show ?thesis
    using RingBuf s
    by (cases r)
      (auto simp: poll_transport_def poll_ringbuf_eq [OF ready] captured_def transport_losses_def polling_ends_def ended_iff
        record_all_append split: prod.splits sum.splits)
next
  case PerfArray
  then have ready: "perf_build env (perf_pages config) = None"
    using assms by (simp add: transport_ready_def)
  let ?xs = "perf_samples (concat (polled (deadline_of args) (perf_rounds env)))"
  obtain out b where out: "push_all ?xs ReorderBuf_new = (out, b)" by (rule prod.exhaust)
  obtain r s where s: "record_all out st = (r, s)" by (rule prod.exhaust)
  show ?thesis
    using PerfArray s
    by (cases r)
      (auto simp: poll_transport_def poll_perfarray_eq [OF ready out] reorder_all_eq [OF out] captured_def
        transport_losses_def polling_ends_def ended_iff record_all_error split: prod.splits sum.splits)
qed

text \<open>While no write fails a loop runs until the flag is set or the deadline is reached.\<close>

lemma poll_transport_running:
  assumes "transport_ready env features config" "\<not> polling_ends env args features"
    and "record_all (captured env args features) st = (Inr (), st')"
  shows "poll_transport env features config (deadline_of args) st = None"
proof (cases "fm_transport features")
  case RingBuf
  then have ready: "ring_builder env = None" "ring_build env = None"
    using assms(1) by (simp_all add: transport_ready_def)
  show ?thesis
    using RingBuf assms(2,3)
    by (auto simp: poll_transport_def poll_ringbuf_eq [OF ready] polling_ends_def ended_iff captured_def record_all_append
        split: prod.splits sum.splits)
next
  case PerfArray
  then have ready: "perf_build env (perf_pages config) = None"
    using assms(1) by (simp add: transport_ready_def)
  obtain out b where out: "push_all (perf_samples (concat (polled (deadline_of args) (perf_rounds env)))) ReorderBuf_new = (out, b)"
    by (rule prod.exhaust)
  show ?thesis
    using PerfArray assms(2,3)
    by (auto simp: poll_transport_def poll_perfarray_eq [OF ready out] polling_ends_def ended_iff captured_def
        reorder_all_eq [OF out] record_all_append split: prod.splits sum.splits)
qed

lemma record_all_ok:
  assumes "writer_inv [] w" "64 + 45 * length es < 2 ^ 63" "record_all es (w, 0) = (r, w', n)"
  shows "step_ok es w (r, w')"
proof -
  have "step_ok ([] @ es) w (write_events es w)"
    using assms(1,2) by (intro write_events_ok) simp_all
  then show ?thesis
    using record_all_writes [OF assms(3)] by simp
qed

lemma poll_transport_ok:
  assumes "writer_inv [] w" "footless (dev_bytes (w_inner w))" "64 + 45 * length (captured env args features) < 2 ^ 63"
  shows "case poll_transport env features config (deadline_of args) (w, 0) of
      None \<Rightarrow> \<not> polling_ends env args features
    | Some (Inl _, w', _) \<Rightarrow> recoverable (dev_bytes (w_inner w')) (captured env args features) \<and>
        footless (dev_bytes (w_inner w')) \<and>
        (transport_ready env features config \<longrightarrow> dev_budget (w_inner w) \<noteq> None)
    | Some (Inr lost, w', n) \<Rightarrow> writer_inv (captured env args features) w' \<and> footless (dev_bytes (w_inner w')) \<and>
        n = of_nat (length (captured env args features)) \<and> lost = transport_losses env args features \<and>
        (dev_budget (w_inner w) = None \<longrightarrow> dev_budget (w_inner w') = None \<and> polling_ends env args features)"
proof (cases "transport_ready env features config")
  case False
  then obtain e where "poll_transport env features config (deadline_of args) (w, 0) = Some (Inl e, w, 0)"
    using poll_transport_not_ready by blast
  then show ?thesis
    using recoverable_append [OF writer_inv_recoverable [OF assms(1)], of "captured env args features"] False assms(2) by simp
next
  case True
  obtain r w' n where rec: "record_all (captured env args features) (w, 0) = (r, w', n)"
    by (rule prod_cases3)
  note ok = record_all_ok [OF assms(1,3) rec]
  note poll = poll_transport_ready [OF True, of args "(w, 0)", unfolded rec prod.case]
  show ?thesis
  proof (cases r)
    case (Inl e)
    then show ?thesis
      using poll ok assms(2) by (auto simp: step_ok_def footless_def)
  next
    case (Inr u)
    then have run: "\<not> polling_ends env args features \<Longrightarrow> poll_transport env features config (deadline_of args) (w, 0) = None"
      using poll_transport_running [OF True] rec by simp
    show ?thesis
      using poll run ok assms(2) Inr record_all_count [of "captured env args features" "(w, 0)" u "(w', n)"] rec
      by (cases "polling_ends env args features") (auto simp: step_ok_def footless_def)
  qed
qed

text \<open>What a session leaves in the file.\<close>

definition session_ok :: "WperfEvent list \<Rightarrow> u64 \<Rightarrow> RecordError + u64 \<times> u64 \<Rightarrow> Device \<Rightarrow> bool" where
  "session_ok evs losses res d \<longleftrightarrow>
     (case res of
        Inr (n, drops) \<Rightarrow> n = of_nat (length evs) \<and> drops = losses \<and> complete_trace evs drops (dev_bytes d)
      | Inl _ \<Rightarrow> length (dev_bytes d) < 64 \<or>
          recoverable (dev_bytes d) evs \<and> (footless (dev_bytes d) \<or> length (dev_bytes d) = 129 + 45 * length evs) \<or>
          (\<exists>drops. complete_trace evs drops (dev_bytes d)))"

lemma complete_trace_length: "complete_trace evs drops bytes \<Longrightarrow> length bytes = 129 + 45 * length evs"
  by (auto simp: complete_trace_def Let_def length_header_to_bytes)

lemma read_failed:
  assumes "session_ok evs losses (Inl e) d" "129 + 45 * length evs < 2 ^ 63" "64 \<le> length (dev_bytes d)"
  shows "\<exists>k. read_trace (dev_bytes d) = Inr (take k evs)"
    "length (dev_bytes d) \<noteq> 129 + 45 * length evs \<Longrightarrow>
      read_trace_metadata (dev_bytes d) = Inr \<lparr>md_event_count = None, md_drop_count = None\<rparr>"
proof -
  consider "recoverable (dev_bytes d) evs" "footless (dev_bytes d) \<or> length (dev_bytes d) = 129 + 45 * length evs"
    | drops where "complete_trace evs drops (dev_bytes d)"
    using assms(1,3) by (auto simp: session_ok_def)
  note cases = this
  show "\<exists>k. read_trace (dev_bytes d) = Inr (take k evs)"
  proof (cases rule: cases)
    case 2
    then show ?thesis
      using read_complete(1) [OF _ assms(2)] by (intro exI [of _ "length evs"]) simp
  qed (rule read_recoverable(1) [OF _ assms(2)])
  show "read_trace_metadata (dev_bytes d) = Inr \<lparr>md_event_count = None, md_drop_count = None\<rparr>"
    if "length (dev_bytes d) \<noteq> 129 + 45 * length evs"
  proof (cases rule: cases)
    case 1
    then show ?thesis
      using that read_recoverable(2) [OF _ assms(2)] by blast
  next
    case 2
    then show ?thesis
      using that complete_trace_length by blast
  qed
qed

lemma record_events_ok:
  assumes "file_create env (ra_output args) = Inr \<lparr>dev_bytes = [], dev_pos = 0, dev_budget = b\<rparr>"
    and "64 + 45 * length (captured env args features) + 65 < 2 ^ 63"
    and "record_events env features config args = Returned (res, Some d)"
  shows "session_ok (captured env args features) (unwrap_or 0 (drop_counter env) + transport_losses env args features) res d"
proof -
  let ?evs = "captured env args features" and ?lost = "unwrap_or 0 (drop_counter env) + transport_losses env args features"
  obtain r0 d0 where new: "WperfWriter_new (target_arch env) \<lparr>dev_bytes = [], dev_pos = 0, dev_budget = b\<rparr> = (r0, d0)"
    by (rule prod.exhaust)
  note new_ok = WperfWriter_new_ok [where target = "target_arch env" and b = b, unfolded new]
  show ?thesis
  proof (cases r0)
    case (Inl e)
    then show ?thesis
      using new new_ok assms(1,3) by (auto simp: record_events_def session_ok_def)
  next
    case (Inr w)
    then have inv: "writer_inv [] w" "footless (dev_bytes (w_inner w))"
      using new_ok by simp_all
    obtain r1 w1 n where poll: "poll_transport env features config (deadline_of args) (w, 0) = Some (r1, w1, n)"
      using assms(1,3) Inr new
      by (cases "poll_transport env features config (deadline_of args) (w, 0)") (auto simp: record_events_def split: if_splits)
    have small: "64 + 45 * length ?evs < 2 ^ 63"
      using assms(2) by simp
    note poll_ok = poll_transport_ok [where config = config, OF inv small, unfolded poll]
    have run: "record_events env features config args =
        (case r1 of
           Inl e \<Rightarrow> Returned (Inl e, Some (w_inner w1))
         | Inr lost \<Rightarrow>
             (case finish (unwrap_or 0 (drop_counter env) + lost) w1 of
                (Inl e, w2) \<Rightarrow> Returned (Inl (RecordIo e), Some (w_inner w2))
              | (Inr _, w2) \<Rightarrow>
                  (case flush_error env of
                     Some e \<Rightarrow> Returned (Inl (RecordIo e), Some (w_inner w2))
                   | None \<Rightarrow> Returned (Inr (n, unwrap_or 0 (drop_counter env) + lost), Some (w_inner w2)))))"
      using assms(1,3) Inr new poll
      by (auto simp: record_events_def Let_def split: if_splits sum.splits prod.splits)
    show ?thesis
    proof (cases r1)
      case (Inl e)
      then show ?thesis
        using run poll_ok assms(3) by (auto simp: session_ok_def)
    next
      case (Inr lost)
      then have inv1: "writer_inv ?evs w1" "n = of_nat (length ?evs)" "lost = transport_losses env args features"
        "footless (dev_bytes (w_inner w1))"
        using poll_ok by simp_all
      obtain r2 w2 where fin: "finish ?lost w1 = (r2, w2)" by (rule prod.exhaust)
      have "if r2 = Inr () then complete_trace ?evs ?lost (dev_bytes (w_inner w2))
          else recoverable (dev_bytes (w_inner w2)) ?evs \<and>
            (footless (dev_bytes (w_inner w2)) \<or> length (dev_bytes (w_inner w2)) = 129 + 45 * length ?evs)"
        using inv1(4) finish_ok [OF inv1(1) assms(2), of ?lost] fin by (auto simp: wp_def split: if_splits)
      then show ?thesis
        using run Inr inv1 fin assms(3) by (cases r2) (auto simp: session_ok_def split: option.splits)
    qed
  qed
qed

text \<open>On a file that accepts all bytes a session succeeds once its polling ends, and runs until
  then.\<close>

lemma record_events_outcome:
  assumes "file_create env (ra_output args) = Inr \<lparr>dev_bytes = [], dev_pos = 0, dev_budget = None\<rparr>"
    and "64 + 45 * length (captured env args features) + 65 < 2 ^ 63"
    and "transport_ready env features config" "flush_error env = None"
    and "\<And>dur. ra_duration args = Some dur \<Longrightarrow> deadline_representable (now_secs env) dur"
  shows "if polling_ends env args features
    then \<exists>n drops d. record_events env features config args = Returned (Inr (n, drops), Some d)
    else record_events env features config args = Running"
proof -
  let ?evs = "captured env args features" and ?lost = "unwrap_or 0 (drop_counter env) + transport_losses env args features"
  obtain w d0 where new: "WperfWriter_new (target_arch env) \<lparr>dev_bytes = [], dev_pos = 0, dev_budget = None\<rparr> = (Inr w, d0)"
    "writer_inv [] w" "footless (dev_bytes (w_inner w))" "dev_budget (w_inner w) = None"
    using WperfWriter_new_ok [where target = "target_arch env" and b = None] by (auto split: prod.splits sum.splits)
  have small: "64 + 45 * length ?evs < 2 ^ 63"
    using assms(2) by simp
  note poll_ok = poll_transport_ok [where config = config, OF new(2,3) small]
  have start: "record_events env features config args =
      (case poll_transport env features config (deadline_of args) (w, 0) of
         None \<Rightarrow> Running
       | Some (Inl e, st) \<Rightarrow> Returned (Inl e, Some (w_inner (fst st)))
       | Some (Inr lost, (w, n)) \<Rightarrow>
           (case finish (unwrap_or 0 (drop_counter env) + lost) w of
              (Inl e, w) \<Rightarrow> Returned (Inl (RecordIo e), Some (w_inner w))
            | (Inr _, w) \<Rightarrow> Returned (Inr (n, unwrap_or 0 (drop_counter env) + lost), Some (w_inner w))))"
    using assms(1,4,5) new(1) by (auto simp: record_events_def Let_def split: option.splits prod.splits sum.splits)
  show ?thesis
  proof (cases "poll_transport env features config (deadline_of args) (w, 0)")
    case None
    then show ?thesis
      using poll_ok by (simp add: start)
  next
    case (Some y)
    then obtain w1 n where poll: "poll_transport env features config (deadline_of args) (w, 0) =
        Some (Inr (transport_losses env args features), w1, n)"
      "writer_inv ?evs w1" "dev_budget (w_inner w1) = None" "polling_ends env args features"
      using poll_ok assms(3) new(4) by (auto split: prod.splits sum.splits)
    obtain w2 where "finish ?lost w1 = (Inr (), w2)"
      using finish_ok [OF poll(2) assms(2), of ?lost] poll(3) by (auto simp: wp_def split: prod.splits if_splits)
    then show ?thesis
      using poll by (simp add: start)
  qed
qed

text \<open>Once its polling ends a session is not running any more, whatever fails.\<close>

lemma record_events_ends:
  assumes "polling_ends env args features"
  shows "record_events env features config args \<noteq> Running"
proof -
  have poll: "poll_transport env features config (deadline_of args) st = None \<longleftrightarrow> False" for st
    using poll_transport_ready [of env features config args st] assms
      poll_transport_not_ready [of env features config "deadline_of args" st] by (cases "transport_ready env features config") auto
  show ?thesis
    by (auto simp: record_events_def Let_def poll split: sum.splits prod.splits option.splits if_splits)
qed

text \<open>A file exists only after every step of the set-up.\<close>

lemma record_run_file:
  assumes "record_run env args = Returned (res, Some d)"
  obtains features config where "re_bpf env" "register_signal_handlers env [''SIGINT'', ''SIGTERM''] = Inr ()"
    "probe_all True (re_kernel env) ProbePaths_default = Inr features"
    "transport_config_of (re_kernel env) (ra_buffer_size args) features = Some (Inr config)"
    "attach_probes env features config = Inr ()"
    "record_events env features config args = Returned (res, Some d)"
  using assms that by (auto simp: record_run_def record_impl_def split: sum.splits if_splits option.splits)

section \<open>Properties\<close>

text \<open>Property C18. A recording session is truthful, whatever the transport, whatever it delivers
  and wherever it fails: a session that reports success leaves a file from which the reader
  returns exactly the captured events, with their number, which is the number it reports, and
  with the sum of the kernel's drops and the transport's losses as its drop count; a session
  that fails after it has created the file leaves less than a header, which the reader
  rejects, or a file from which the reader returns a prefix of the captured events.\<close>

theorem record_truthful:
  assumes "record_run env args = Returned (res, Some d)"
    and "file_create env (ra_output args) = Inr \<lparr>dev_bytes = [], dev_pos = 0, dev_budget = b\<rparr>"
    and "probe_all True (re_kernel env) ProbePaths_default = Inr features"
    and "129 + 45 * length (captured env args features) < 2 ^ 63"
  shows "case res of
      Inr (n, drops) \<Rightarrow>
        n = of_nat (length (captured env args features)) \<and>
        drops = unwrap_or 0 (drop_counter env) + transport_losses env args features \<and>
        read_trace (dev_bytes d) = Inr (captured env args features) \<and>
        read_trace_metadata (dev_bytes d) = Inr \<lparr>md_event_count = Some n, md_drop_count = Some drops\<rparr>
    | Inl _ \<Rightarrow>
        read_trace (dev_bytes d) = Inl (Header (HeaderIo UnexpectedEof)) \<or>
        (\<exists>k. read_trace (dev_bytes d) = Inr (take k (captured env args features)))"
proof -
  let ?evs = "captured env args features"
  have len: "64 + 45 * length ?evs + 65 < 2 ^ 63"
    using assms(4) by simp
  obtain config where "record_events env features config args = Returned (res, Some d)"
    using record_run_file [OF assms(1)] assms(3) by (metis sum.inject(2))
  note ok = record_events_ok [OF assms(2) len this]
  show ?thesis
  proof (cases res)
    case (Inl e)
    then show ?thesis
      using ok read_failed(1) [OF _ assms(4)] read_trace_short [of "dev_bytes d"]
      by (cases "length (dev_bytes d) < 64") auto
  next
    case (Inr p)
    then show ?thesis
      using ok read_complete [OF _ assms(4)] by (cases p) (simp add: session_ok_def)
  qed
qed

text \<open>Property C21. The perf array loses no sample to reordering, and orders the file: the events
  of a successful session are a permutation of the samples of full size that arrived, and if
  every sample arrives no later than 50 ms behind any sample before it, the file is in
  timestamp order.\<close>

theorem record_perf_order:
  assumes "record_run env args = Returned (Inr (n, drops), Some d)"
    and "file_create env (ra_output args) = Inr \<lparr>dev_bytes = [], dev_pos = 0, dev_budget = b\<rparr>"
    and "probe_all True (re_kernel env) ProbePaths_default = Inr features" "fm_transport features = PerfArray"
    and "129 + 45 * length (perf_samples (concat (polled (deadline_of args) (perf_rounds env)))) < 2 ^ 63"
  shows "\<exists>evs. read_trace (dev_bytes d) = Inr evs \<and> mset evs = mset (perf_samples (concat (polled (deadline_of args) (perf_rounds env)))) \<and>
    (sorted_wrt (\<lambda>x y. unat (timestamp_ns x) \<le> unat (timestamp_ns y) + 50000000) (perf_samples (concat (polled (deadline_of args) (perf_rounds env))))
      \<longrightarrow> sorted (map timestamp_ns evs))"
proof -
  let ?in = "perf_samples (concat (polled (deadline_of args) (perf_rounds env)))"
  have cap: "captured env args features = reorder_all ?in (with_window DEFAULT_WINDOW_NS)"
    using assms(4) by (simp add: captured_def ReorderBuf_new_def)
  have perm: "mset (captured env args features) = mset ?in"
    unfolding cap by (rule reorder_all_mset)
  then have "length (captured env args features) = length ?in"
    by (rule mset_eq_length)
  then have len: "64 + 45 * length (captured env args features) + 65 < 2 ^ 63" "129 + 45 * length (captured env args features) < 2 ^ 63"
    using assms(5) by simp_all
  obtain config where "record_events env features config args = Returned (Inr (n, drops), Some d)"
    using record_run_file [OF assms(1)] assms(3) by (metis sum.inject(2))
  then have "read_trace (dev_bytes d) = Inr (captured env args features)"
    using record_events_ok [OF assms(2) len(1)] read_complete(1) [OF _ len(2)] by (fastforce simp: session_ok_def)
  moreover have "sorted (map timestamp_ns (captured env args features))"
    if "sorted_wrt (\<lambda>x y. unat (timestamp_ns x) \<le> unat (timestamp_ns y) + 50000000) ?in"
    unfolding cap by (rule reorder_all_sorted) (use that in \<open>simp add: DEFAULT_WINDOW_NS_def\<close>)
  ultimately show ?thesis using perm by blast
qed

text \<open>Property C31. A session leaves its poll loop when, and on a healthy file only when, a round
  finds the stop flag set or the deadline reached. Take a session with BPF support whose signal
  handlers, probes and transport set up, on a fresh file and with no deadline or one the clock
  can represent. If some round of its history ends the polling, it is not running any more,
  whatever writes fail, and if the file accepts all bytes and the last flush succeeds it has
  returned successfully. If none does and no write fails, it is still running, so that without
  a deadline and a signal it never returns.\<close>

theorem record_returns:
  assumes "re_bpf env" "register_signal_handlers env [''SIGINT'', ''SIGTERM''] = Inr ()"
    and "probe_all True (re_kernel env) ProbePaths_default = Inr features"
    and "transport_config_of (re_kernel env) (ra_buffer_size args) features = Some (Inr config)"
    and "attach_probes env features config = Inr ()" "transport_ready env features config"
    and "file_create env (ra_output args) = Inr \<lparr>dev_bytes = [], dev_pos = 0, dev_budget = b\<rparr>"
    and "\<And>dur. ra_duration args = Some dur \<Longrightarrow> deadline_representable (now_secs env) dur"
    and "129 + 45 * length (captured env args features) < 2 ^ 63"
  shows "(polling_ends env args features \<longrightarrow> record_run env args \<noteq> Running) \<and>
    (b = None \<and> flush_error env = None \<longrightarrow>
      (if polling_ends env args features
       then \<exists>n drops d. record_run env args = Returned (Inr (n, drops), Some d)
       else record_run env args = Running))"
proof -
  have run: "record_run env args = record_events env features config args"
    using assms(1-5) by (simp add: record_run_def record_impl_def)
  have len: "64 + 45 * length (captured env args features) + 65 < 2 ^ 63"
    using assms(9) by simp
  show ?thesis
    using record_events_ends [of env args features config]
      record_events_outcome [OF _ len assms(6) _ assms(8)] assms(7)
    unfolding run by blast
qed

text \<open>Nothing is created on failure of the set-up: a session that creates or
  replaces the output file was built with BPF support, has installed both signal handlers, has
  probed the kernel and has loaded and attached the skeleton, on the ring buffer with the
  size its configuration gives, and with one variant of every handler disabled.\<close>

theorem record_file_after_setup:
  assumes "record_run env args = Returned (res, Some d)"
  shows "re_bpf env \<and> register_signal env ''SIGINT'' = None \<and> register_signal env ''SIGTERM'' = None \<and>
    (\<exists>features config skel.
      probe_all True (re_kernel env) ProbePaths_default = Inr features \<and>
      transport_config_of (re_kernel env) (ra_buffer_size args) features = Some (Inr config) \<and>
      skel_load env skel = None \<and> skel_attach env = None \<and>
      max_entries skel = (if fm_transport features = RingBuf then Some (ringbuf_size config) else None) \<and>
      (fm_transport features = RingBuf \<longrightarrow> set_max_entries env (ringbuf_size config) = None) \<and>
      (\<forall>h \<in> {''handle_sched_switch'', ''handle_sched_wakeup'', ''handle_block_rq_issue'', ''handle_block_rq_complete''}.
         (h @ ''_raw'' \<in> set (disabled_programs skel)) = (h @ ''_btf'' \<notin> set (disabled_programs skel)) \<and>
         (h @ ''_raw'' \<in> set (disabled_programs skel) \<longleftrightarrow> fm_tracepoint features = TpBtf)))"
proof -
  obtain features config where s: "re_bpf env" "register_signal_handlers env [''SIGINT'', ''SIGTERM''] = Inr ()"
    "probe_all True (re_kernel env) ProbePaths_default = Inr features"
    "transport_config_of (re_kernel env) (ra_buffer_size args) features = Some (Inr config)"
    "attach_probes env features config = Inr ()"
    using record_run_file [OF assms] by metis
  define skel where "skel = \<lparr>disabled_programs = unused_programs (fm_tracepoint features), self_tgid = global_tgid env,
    enable_futex_tracing = True, targ_single = block_rq_issue_single_arg features,
    max_entries = (if fm_transport features = RingBuf then Some (ringbuf_size config) else None)\<rparr>"
  have "skel_load env skel = None \<and> skel_attach env = None \<and>
      (fm_transport features = RingBuf \<longrightarrow> set_max_entries env (ringbuf_size config) = None)"
    using s(5) by (auto simp: attach_probes_def skel_def Let_def split: option.splits if_splits)
  moreover have "\<forall>h \<in> {''handle_sched_switch'', ''handle_sched_wakeup'', ''handle_block_rq_issue'', ''handle_block_rq_complete''}.
       (h @ ''_raw'' \<in> set (disabled_programs skel)) = (h @ ''_btf'' \<notin> set (disabled_programs skel)) \<and>
       (h @ ''_raw'' \<in> set (disabled_programs skel) \<longleftrightarrow> fm_tracepoint features = TpBtf)"
    by (cases "fm_tracepoint features") (simp_all add: skel_def unused_programs_def)
  moreover have "max_entries skel = (if fm_transport features = RingBuf then Some (ringbuf_size config) else None)"
    by (simp add: skel_def)
  moreover have "register_signal env ''SIGINT'' = None" "register_signal env ''SIGTERM'' = None"
    using s(2) by (auto split: option.splits)
  ultimately show ?thesis using s(1,3,4) by blast
qed

text \<open>Property C39. A duration the command line accepts can still abort the session: an infinite
  duration, or one of 2^63 seconds or more, passes the validation, and a session with it whose
  set-up succeeds panics only after it has attached the probes and created the file, before
  any event is written: the file it leaves reads as a trace without events and without a
  footer.\<close>

theorem long_duration_panics:
  assumes "parse_f64 s = Inr dur" "dur = Infinite True \<or> (\<exists>x. dur = Finite x \<and> 2 ^ 63 \<le> x)"
    and "probe_all True (re_kernel env) ProbePaths_default = Inr features"
    and "transport_config_of (re_kernel env) (ra_buffer_size args) features = Some (Inr config)"
    and "re_bpf env" "register_signal_handlers env [''SIGINT'', ''SIGTERM''] = Inr ()"
    and "attach_probes env features config = Inr ()"
    and "file_create env (ra_output args) = Inr \<lparr>dev_bytes = [], dev_pos = 0, dev_budget = None\<rparr>"
    and "ra_duration args = Some dur"
  shows "parse_positive_duration parse_f64 s = Inr dur \<and>
    (\<exists>d. record_run env args = Panicked (Some d) \<and> read_trace (dev_bytes d) = Inr [] \<and>
       read_trace_metadata (dev_bytes d) = Inr \<lparr>md_event_count = None, md_drop_count = None\<rparr>)"
proof
  show "parse_positive_duration parse_f64 s = Inr dur"
    using assms(1,2) by (auto simp: parse_positive_duration_Inr)
  have "\<not> deadline_representable (now_secs env) dur"
    using assms(2) by (auto simp: deadline_representable_def)
  moreover obtain w d where w: "WperfWriter_new (target_arch env) \<lparr>dev_bytes = [], dev_pos = 0, dev_budget = None\<rparr> = (Inr w, d)"
    "writer_inv [] w" "footless (dev_bytes (w_inner w))"
    using WperfWriter_new_ok [where target = "target_arch env" and b = None] by (auto split: prod.splits sum.splits)
  ultimately have "record_run env args = Panicked (Some (w_inner w))"
    using assms(3-) by (simp add: record_run_def record_impl_def record_events_def)
  moreover have "recoverable (dev_bytes (w_inner w)) []"
    by (rule writer_inv_recoverable [OF w(2)])
  ultimately show "\<exists>d. record_run env args = Panicked (Some d) \<and> read_trace (dev_bytes d) = Inr [] \<and>
       read_trace_metadata (dev_bytes d) = Inr \<lparr>md_event_count = None, md_drop_count = None\<rparr>"
    using read_recoverable [of "dev_bytes (w_inner w)" "[]"] w(3) by auto
qed

section \<open>A session\<close>

text \<open>A kernel with neither ring buffer nor BTF tracepoints, which delivers two samples out of
  order, a short one and a loss report, and is stopped in the third round, after a second.\<close>

definition demo_rounds :: "u8 list list \<Rightarrow> PerfEvent list PollRound list" where
  "demo_rounds samples =
     [\<lparr>pr_stop = False, pr_elapsed = 0, pr_data = map PerfSample samples\<rparr>,
      \<lparr>pr_stop = False, pr_elapsed = 500000000, pr_data = [PerfLost 3]\<rparr>,
      \<lparr>pr_stop = True, pr_elapsed = 1000000000, pr_data = []\<rparr>]"

definition demo_session :: "u8 list list \<Rightarrow> RecordEnv" where
  "demo_session samples = \<lparr>re_bpf = True, re_kernel = demo_kernel, io_error_fmt = (\<lambda>_. []), register_signal = (\<lambda>_. None),
     proc_status = Inl NotFound, process_id = 7, skel_open = None, bss_available = True, rodata_available = True,
     set_max_entries = (\<lambda>_. None), skel_load = (\<lambda>_. None), skel_attach = None,
     file_create = (\<lambda>_. Inr \<lparr>dev_bytes = [], dev_pos = 0, dev_budget = None\<rparr>), target_arch = ''x86_64'',
     now_secs = 10, ring_builder = None, ring_build = None, ring_rounds = [], ring_rest = [],
     perf_build = (\<lambda>_. None), perf_rounds = demo_rounds samples,
     drop_counter = Some 2, flush_error = None\<rparr>"

definition demo_samples :: "u8 list list" where
  "demo_samples = [event_to_bytes (event_at 30), [1, 2], event_to_bytes (event_at 25)]"

definition demo_args :: "f64 option \<Rightarrow> RecordArgs" where
  "demo_args duration = \<lparr>ra_output = ''wperf.data'', ra_duration = duration, ra_buffer_size = Some 1000000\<rparr>"

lemma demo_features:
  obtains features where "probe_all True demo_kernel ProbePaths_default = Inr features" "fm_transport features = PerfArray"
    "\<exists>config. transport_config_of demo_kernel (Some 1000000) features = Some (Inr config)"
proof -
  obtain features where f: "probe_all True demo_kernel ProbePaths_default = Inr features"
    by (cases "probe_all True demo_kernel ProbePaths_default")
      (simp_all add: probe_all_def probe_btf_def demo_kernel_def Let_def)
  then have "fm_transport features = PerfArray"
    by (auto simp: probe_all_def probe_btf_def probe_ringbuf_def fallback_def demo_kernel_def Let_def)
  then show thesis
    using that f by (simp add: transport_config_of_def demo_kernel_def Let_def)
qed

lemma demo_attach: "fm_transport features = PerfArray \<Longrightarrow> attach_probes (demo_session samples) features config = Inr ()"
  by (simp add: attach_probes_def demo_session_def Let_def)

lemma demo_session_simps [simp]:
  "re_kernel (demo_session samples) = demo_kernel" "re_bpf (demo_session samples)"
  "file_create (demo_session samples) path = Inr \<lparr>dev_bytes = [], dev_pos = 0, dev_budget = None\<rparr>"
  "register_signal (demo_session samples) sig = None" "flush_error (demo_session samples) = None"
  "drop_counter (demo_session samples) = Some 2" "ra_buffer_size (demo_args dur) = Some 1000000"
  "ra_duration (demo_args dur) = dur" "now_secs (demo_session samples) = 10"
  "perf_rounds (demo_session samples) = demo_rounds samples"
  "perf_build (demo_session samples) k = None"
  by (simp_all add: demo_session_def demo_args_def)

text \<open>With no deadline or one of five seconds the stop flag ends it.\<close>

lemma demo_polled:
  assumes "dur = None \<or> dur = Some (Finite 5)"
  shows "polled (deadline_of (demo_args dur)) (demo_rounds samples) = [map PerfSample samples, [PerfLost 3]]"
    "stop_seen dur (demo_rounds samples)"
  using assms by (auto simp: demo_rounds_def leaves_loop_def deadline_of_def round_ties_even_def stop_seen_def)

lemma demo_perf_samples:
  "dur = None \<or> dur = Some (Finite 5) \<Longrightarrow>
   perf_samples (concat (polled (deadline_of (demo_args dur)) (perf_rounds (demo_session demo_samples)))) = [event_at 30, event_at 25]"
  by (simp add: demo_polled demo_samples_def samples_of_def EVENT_SIZE_def event_from_to_bytes)

lemma demo_captured:
  assumes "fm_transport features = PerfArray" "dur = None \<or> dur = Some (Finite 5)"
  shows "captured (demo_session demo_samples) (demo_args dur) features = [event_at 25, event_at 30]"
    "transport_losses (demo_session demo_samples) (demo_args dur) features = 3"
    "polling_ends (demo_session demo_samples) (demo_args dur) features"
proof -
  have "reorder_all [event_at 30, event_at 25] ReorderBuf_new = [event_at 25, event_at 30]"
    by code_simp
  then show "captured (demo_session demo_samples) (demo_args dur) features = [event_at 25, event_at 30]"
    using assms(1) demo_perf_samples [OF assms(2)] by (simp add: captured_def)
qed (use assms in \<open>simp_all add: transport_losses_def polling_ends_def demo_polled demo_samples_def\<close>)

lemma demo_runs: "\<exists>n drops d. record_run (demo_session demo_samples) (demo_args None) = Returned (Inr (n, drops), Some d)"
proof -
  obtain features config where f: "probe_all True demo_kernel ProbePaths_default = Inr features" "fm_transport features = PerfArray"
    "transport_config_of demo_kernel (Some 1000000) features = Some (Inr config)"
    using demo_features by metis
  have "if polling_ends (demo_session demo_samples) (demo_args None) features
    then \<exists>n drops d. record_events (demo_session demo_samples) features config (demo_args None) = Returned (Inr (n, drops), Some d)
    else record_events (demo_session demo_samples) features config (demo_args None) = Running"
    by (rule record_events_outcome) (use f in \<open>simp_all add: demo_captured transport_ready_def\<close>)
  then show ?thesis
    using f by (simp add: record_run_def record_impl_def demo_attach demo_captured)
qed

lemma record_returns_witness:
  "\<exists>n drops d. record_run (demo_session demo_samples) (demo_args (Some (Finite 5))) = Returned (Inr (n, drops), Some d)"
proof -
  obtain features config where f: "probe_all True demo_kernel ProbePaths_default = Inr features" "fm_transport features = PerfArray"
    "transport_config_of demo_kernel (Some 1000000) features = Some (Inr config)"
    using demo_features by metis
  show ?thesis
    using record_returns [where env = "demo_session demo_samples" and args = "demo_args (Some (Finite 5))"
        and features = features and config = config and b = None] f
    by (simp add: demo_attach transport_ready_def demo_captured deadline_representable_def)
qed

lemma record_truthful_witness:
  "\<exists>d. record_run (demo_session demo_samples) (demo_args None) = Returned (Inr (2, 5), Some d) \<and>
    read_trace (dev_bytes d) = Inr [event_at 25, event_at 30]"
proof -
  obtain features config where f: "probe_all True demo_kernel ProbePaths_default = Inr features" "fm_transport features = PerfArray"
    "transport_config_of demo_kernel (Some 1000000) features = Some (Inr config)"
    using demo_features by metis
  obtain n drops d where run: "record_run (demo_session demo_samples) (demo_args None) = Returned (Inr (n, drops), Some d)"
    using demo_runs by auto
  then show ?thesis
    using record_truthful [OF run, of None features] f by (simp add: demo_captured unwrap_or_def)
qed

lemma record_perf_order_witness:
  "\<exists>(d :: Device) evs. read_trace (dev_bytes d) = Inr evs \<and> mset evs = {#event_at 30, event_at 25#} \<and> sorted (map timestamp_ns evs)"
proof -
  obtain features where f: "probe_all True demo_kernel ProbePaths_default = Inr features" "fm_transport features = PerfArray"
    using demo_features by metis
  obtain n drops d where run: "record_run (demo_session demo_samples) (demo_args None) = Returned (Inr (n, drops), Some d)"
    using demo_runs by auto
  have "sorted_wrt (\<lambda>x y. unat (timestamp_ns x) \<le> unat (timestamp_ns y) + 50000000) [event_at 30, event_at 25]"
    by (simp add: event_at_def)
  then have "\<exists>evs. read_trace (dev_bytes d) = Inr evs \<and> mset evs = {#event_at 30, event_at 25#} \<and> sorted (map timestamp_ns evs)"
    using record_perf_order [OF run _ _ f(2), of None] f(1) unfolding demo_perf_samples [OF disjI1 [OF refl]] by simp
  then show ?thesis by blast
qed

lemma record_file_after_setup_witness:
  "\<exists>features config (skel :: SkelConfig). probe_all True demo_kernel ProbePaths_default = Inr features \<and>
     transport_config_of demo_kernel (Some 1000000) features = Some (Inr config) \<and>
     ''handle_sched_switch_raw'' \<in> set (disabled_programs skel) = (''handle_sched_switch_btf'' \<notin> set (disabled_programs skel))"
proof -
  obtain n drops d where run: "record_run (demo_session demo_samples) (demo_args None) = Returned (Inr (n, drops), Some d)"
    using demo_runs by auto
  from record_file_after_setup [OF run] obtain features config and skel :: SkelConfig
    where f: "probe_all True (re_kernel (demo_session demo_samples)) ProbePaths_default = Inr features"
      "transport_config_of (re_kernel (demo_session demo_samples)) (ra_buffer_size (demo_args None)) features = Some (Inr config)"
      "\<forall>h \<in> {''handle_sched_switch'', ''handle_sched_wakeup'', ''handle_block_rq_issue'', ''handle_block_rq_complete''}.
         (h @ ''_raw'' \<in> set (disabled_programs skel)) = (h @ ''_btf'' \<notin> set (disabled_programs skel)) \<and>
         (h @ ''_raw'' \<in> set (disabled_programs skel) \<longleftrightarrow> fm_tracepoint features = TpBtf)"
    by (elim conjE exE) (rule that; assumption)
  show ?thesis
    by (intro exI [of _ features] exI [of _ config] exI [of _ skel]) (use f in simp)
qed

lemma long_duration_panics_witness:
  "parse_positive_duration (\<lambda>_. Inr (Infinite True)) ''inf'' = Inr (Infinite True) \<and>
    (\<exists>d. record_run (demo_session demo_samples) (demo_args (Some (Infinite True))) = Panicked (Some d) \<and>
      read_trace (dev_bytes d) = Inr [] \<and>
      read_trace_metadata (dev_bytes d) = Inr \<lparr>md_event_count = None, md_drop_count = None\<rparr>)"
proof -
  obtain features config where f: "probe_all True demo_kernel ProbePaths_default = Inr features" "fm_transport features = PerfArray"
    "transport_config_of demo_kernel (Some 1000000) features = Some (Inr config)"
    using demo_features by metis
  show ?thesis
    by (rule long_duration_panics [where features = features and config = config])
      (use f in \<open>simp_all add: demo_attach\<close>)
qed

end
