(* ===== verification/Program.thy ===== *)
theory Program
  imports Report Recorder
begin

text \<open>
  The program (\<open>src/main.rs\<close>): the dispatch of the parsed command, the exit status and the
  message of a failure; and what the two commands do together, a recording session followed by
  the report of the file it left. Standard error is taken to accept what is written to it, and
  the progress messages on it are not modelled.
\<close>

section \<open>The dispatch\<close>

record 'f ProgramEnv =
  record_env :: RecordEnv
  report_env :: "'f ReportEnv"
  io_fmt :: "IoError \<Rightarrow> string"
  pkg_version :: string

text \<open>The outcome of the process: whether it exits successfully, the message on standard error,
  standard output, and the file that was recorded.\<close>

record Exit =
  exit_success :: bool
  stderr_text :: string
  stdout_dev :: Device
  recorded_file :: "Device option"

definition newline :: string where "newline = [CHR 0x0A]"

definition failure_text :: "string \<Rightarrow> string" where
  "failure_text msg = ''wperf: '' @ msg @ newline"

definition main_run ::
    "('g, 'd, 'f) Libs \<Rightarrow> 'f ProgramEnv \<Rightarrow> Command \<Rightarrow> Device \<Rightarrow> Exit outcome" where
  "main_run L env cmd stdout =
     (case cmd of
        Command.Record args \<Rightarrow>
          (case record_run (record_env env) args of
             Panicked f \<Rightarrow> Panicked f
           | Running \<Rightarrow> Running
           | Returned (Inr _, f) \<Rightarrow>
               Returned \<lparr>exit_success = True, stderr_text = [], stdout_dev = stdout, recorded_file = f\<rparr>
           | Returned (Inl e, f) \<Rightarrow>
               Returned \<lparr>exit_success = False, stderr_text = failure_text (RecordError_fmt (io_fmt env) e),
                 stdout_dev = stdout, recorded_file = f\<rparr>)
      | Command.Report args \<Rightarrow>
          (case report_run L (report_env env) args stdout of
             None \<Rightarrow> Panicked None
           | Some (Inr _, d) \<Rightarrow>
               Returned \<lparr>exit_success = True, stderr_text = [], stdout_dev = d, recorded_file = None\<rparr>
           | Some (Inl e, d) \<Rightarrow>
               Returned \<lparr>exit_success = False, stderr_text = failure_text (ReportError_fmt (io_fmt env) e),
                 stdout_dev = d, recorded_file = None\<rparr>)
      | Version \<Rightarrow>
          (case write_all (ascii (''wperf '' @ pkg_version env @ newline)) stdout of
             (Inr _, d) \<Rightarrow> Returned \<lparr>exit_success = True, stderr_text = [], stdout_dev = d, recorded_file = None\<rparr>
           | (Inl _, _) \<Rightarrow> Panicked None))"

section \<open>Properties\<close>


text \<open>Property C1. Record, then report: after a session on a fresh file that the process ends with
  success, the report of the file never fails. It is the analysis of the events captured, in
  order of time, with their number, and with the kernel's and the transport's losses as its
  drop count; and its sentinel says that the invariants hold.\<close>

theorem record_then_report:
  assumes "libs_ok L"
    and "main_run L' env (Command.Record args) stdout = Returned x" "exit_success x" "recorded_file x = Some d"
    and "file_create (record_env env) (ra_output args) = Inr \<lparr>dev_bytes = [], dev_pos = 0, dev_budget = b\<rparr>"
    and "probe_all True (re_kernel (record_env env)) ProbePaths_default = Inr features"
    and "129 + 45 * length (captured (record_env env) args features) < 2 ^ 63"
  shows "\<exists>g out. correlate_events (l_api L) (l_drain L) (sort_events (captured (record_env env) args features)) thr =
      Some (g, correlation (ro_stats out)) \<and>
    trace_report L thr (dev_bytes d) = Some (Inr out) \<and>
    events_read (ro_stats out) = of_nat (length (captured (record_env env) args features)) \<and>
    hm_drop_count (health out) =
      Some (unwrap_or 0 (drop_counter (record_env env)) + transport_losses (record_env env) args features) \<and>
    hm_invariants_ok (health out) \<and>
    (\<forall>K. (\<exists>k \<in> set (knots out). set (kn_members k) = K) \<longleftrightarrow> knot_class (l_api L) g K)"
proof -
  let ?evs = "captured (record_env env) args features"
  let ?lost = "unwrap_or 0 (drop_counter (record_env env)) + transport_losses (record_env env) args features"
  have len: "64 + 45 * length ?evs + 65 < 2 ^ 63"
    using assms(7) by simp
  obtain p where run: "record_run (record_env env) args = Returned (Inr p, Some d)"
    using assms(2-4) by (auto simp: main_run_def split: outcome.splits sum.splits)
  obtain config where "record_events (record_env env) features config args = Returned (Inr p, Some d)"
    using record_run_file [OF run] assms(6) by (metis sum.inject(2))
  then have complete: "complete_trace ?evs ?lost (dev_bytes d)"
    using record_events_ok [OF assms(5) len] by (fastforce simp: session_ok_def)
  note read = read_complete [OF complete assms(7)]
  let ?md = "\<lparr>md_event_count = Some (of_nat (length ?evs)), md_drop_count = Some ?lost\<rparr>"
  obtain g st where g: "correlate_events (l_api L) (l_drain L) (sort_events ?evs) thr = Some (g, st)" "wfg_inv (l_api L) g"
    "trace_report L thr (dev_bytes d) = analyse_graph L g \<lparr>events_read = of_nat (length ?evs), correlation = st\<rparr> ?md"
    by (rule trace_report_eq [OF assms(1) read(1)]) (simp add: read(2))
  from analyse_graph_ok [OF assms(1) g(2), of "\<lparr>events_read = of_nat (length ?evs), correlation = st\<rparr>" ?md]
  show ?thesis
    unfolding g(3) using g(1) by (elim exE conjE) (intro exI conjI, auto)
qed

text \<open>Property C2. Record, then report, after a failure: a session on a fresh file that the process
  ends with failure leaves a file that the report handles. A file shorter than a header is
  rejected. Any other yields the analysis of a prefix of the events captured, with the length
  of the prefix as their number and without a drop count, as there is no footer; unless the
  file has its full length, as when the last rewrite of the header or the flush failed: then
  there may be a footer, and the one other outcome is a reader error on it.\<close>

theorem failed_record_then_report:
  assumes "libs_ok L"
    and "main_run L' env (Command.Record args) stdout = Returned x" "\<not> exit_success x" "recorded_file x = Some d"
    and "file_create (record_env env) (ra_output args) = Inr \<lparr>dev_bytes = [], dev_pos = 0, dev_budget = b\<rparr>"
    and "probe_all True (re_kernel (record_env env)) ProbePaths_default = Inr features"
    and "129 + 45 * length (captured (record_env env) args features) < 2 ^ 63"
  shows "if length (dev_bytes d) < 64
    then trace_report L thr (dev_bytes d) = Some (Inl (open_error (Header (HeaderIo UnexpectedEof))))
    else \<exists>k g st. correlate_events (l_api L) (l_drain L) (sort_events (take k (captured (record_env env) args features))) thr =
        Some (g, st) \<and>
      (case trace_report L thr (dev_bytes d) of
         Some (Inr out) \<Rightarrow>
           ro_stats out = \<lparr>events_read = of_nat (length (take k (captured (record_env env) args features))), correlation = st\<rparr> \<and>
           hm_invariants_ok (health out) \<and>
           (length (dev_bytes d) \<noteq> 129 + 45 * length (captured (record_env env) args features) \<longrightarrow>
              hm_drop_count (health out) = None)
       | Some (Inl e) \<Rightarrow>
           length (dev_bytes d) = 129 + 45 * length (captured (record_env env) args features) \<and>
           (\<exists>e'. e = ReportPipeline (PipelineReader e'))
       | None \<Rightarrow> False)"
proof -
  let ?evs = "captured (record_env env) args features"
  have len: "64 + 45 * length ?evs + 65 < 2 ^ 63"
    using assms(7) by simp
  obtain e where run: "record_run (record_env env) args = Returned (Inl e, Some d)"
    using assms(2-4) by (auto simp: main_run_def split: outcome.splits sum.splits)
  obtain config where "record_events (record_env env) features config args = Returned (Inl e, Some d)"
    using record_run_file [OF run] assms(6) by (metis sum.inject(2))
  note ok = record_events_ok [OF assms(5) len this]
  show ?thesis
  proof (cases "length (dev_bytes d) < 64")
    case True
    then show ?thesis
      by (simp add: trace_report_short)
  next
    case False
    then have "64 \<le> length (dev_bytes d)" by simp
    note read = read_failed [OF ok assms(7) this]
    obtain k where k: "read_trace (dev_bytes d) = Inr (take k ?evs)"
      using read(1) by blast
    note meta = read(2)
    obtain g st where g: "correlate_events (l_api L) (l_drain L) (sort_events (take k ?evs)) thr = Some (g, st)"
      "wfg_inv (l_api L) g" "trace_report L thr (dev_bytes d) = (case read_trace_metadata (dev_bytes d) of
        Inl e \<Rightarrow> Some (Inl (ReportPipeline (PipelineReader e)))
      | Inr md \<Rightarrow> analyse_graph L g \<lparr>events_read = of_nat (length (take k ?evs)), correlation = st\<rparr> md)"
      by (rule trace_report_eq [OF assms(1) k])
    show ?thesis
    proof (cases "read_trace_metadata (dev_bytes d)")
      case (Inl e')
      then show ?thesis
        using meta g(1) by (simp only: if_not_P [OF False] g(3)) auto
    next
      case (Inr md)
      obtain out where out: "analyse_graph L g \<lparr>events_read = of_nat (length (take k ?evs)), correlation = st\<rparr> md = Some (Inr out)"
        "hm_invariants_ok (health out)" "hm_drop_count (health out) = md_drop_count md"
        "ro_stats out = \<lparr>events_read = of_nat (length (take k ?evs)), correlation = st\<rparr>"
        using analyse_graph_ok [OF assms(1) g(2)] by blast
      have "length (dev_bytes d) \<noteq> 129 + 45 * length ?evs \<longrightarrow> hm_drop_count (health out) = None"
        using meta Inr out(3) by auto
      then have "case trace_report L thr (dev_bytes d) of
         Some (Inr out) \<Rightarrow>
           ro_stats out = \<lparr>events_read = of_nat (length (take k ?evs)), correlation = st\<rparr> \<and>
           hm_invariants_ok (health out) \<and>
           (length (dev_bytes d) \<noteq> 129 + 45 * length ?evs \<longrightarrow> hm_drop_count (health out) = None)
       | Some (Inl e) \<Rightarrow> length (dev_bytes d) = 129 + 45 * length ?evs \<and> (\<exists>e'. e = ReportPipeline (PipelineReader e'))
       | None \<Rightarrow> False"
        using out by (simp add: g(3) Inr)
      then show ?thesis
        using g(1) by (simp only: if_not_P [OF False]) blast
    qed
  qed
qed

section \<open>A run\<close>

definition demo_program :: "(u64 \<times> u64) ProgramEnv" where
  "demo_program = \<lparr>record_env = demo_session demo_samples, report_env = demo_env, io_fmt = (\<lambda>_. []), pkg_version = ''0.1.0''\<rparr>"


lemma record_then_report_witness:
  "\<exists>(d :: Device) out. trace_report demo_libs 50000 (dev_bytes d) = Some (Inr out) \<and> events_read (ro_stats out) = 2 \<and>
    hm_drop_count (health out) = Some 5"
proof -
  obtain features config where f: "probe_all True demo_kernel ProbePaths_default = Inr features" "fm_transport features = PerfArray"
    using demo_features by metis
  obtain n drops d where run: "record_run (demo_session demo_samples) (demo_args None) = Returned (Inr (n, drops), Some d)"
    using demo_runs by auto
  define x where "x = \<lparr>exit_success = True, stderr_text = [], stdout_dev = file_of [], recorded_file = Some d\<rparr>"
  have "main_run demo_libs demo_program (Command.Record (demo_args None)) (file_of []) = Returned x"
    using run by (simp add: main_run_def demo_program_def x_def)
  from record_then_report [OF demo_libs_ok this, where d = d and features = features and b = None and thr = 50000] f
  have "\<exists>out. trace_report demo_libs 50000 (dev_bytes d) = Some (Inr out) \<and> events_read (ro_stats out) = 2 \<and>
    hm_drop_count (health out) = Some 5"
    by (auto simp: x_def demo_program_def demo_captured unwrap_or_def)
  then show ?thesis by blast
qed

text \<open>A session whose perf buffer cannot be built: only the header is in the file.\<close>

lemma failed_record_then_report_witness:
  "\<exists>(d :: Device) out. trace_report demo_libs 50000 (dev_bytes d) = Some (Inr out) \<and> length (dev_bytes d) = 64 \<and>
    hm_drop_count (health out) = None"
proof -
  let ?env = "(demo_session demo_samples)\<lparr>perf_build := \<lambda>_. Some ''EPERM''\<rparr>"
  obtain features config where f: "probe_all True demo_kernel ProbePaths_default = Inr features" "fm_transport features = PerfArray"
    "transport_config_of demo_kernel (Some 1000000) features = Some (Inr config)"
    using demo_features by metis
  obtain w d0 where w: "WperfWriter_new (target_arch ?env) \<lparr>dev_bytes = [], dev_pos = 0, dev_budget = None\<rparr> = (Inr w, d0)"
    "writer_inv [] w"
    using WperfWriter_new_ok [where target = "target_arch ?env" and b = None] by (auto split: prod.splits sum.splits)
  have len: "length (dev_bytes (w_inner w)) = 64"
    using w(2) by (auto simp: writer_inv_def header_at_def)
  obtain e where "poll_transport ?env features config (deadline_of (demo_args None)) (w, 0) = Some (Inl e, (w, 0))"
    using poll_transport_not_ready [of ?env features config "deadline_of (demo_args None)" "(w, 0)"] f(2) by (auto simp: transport_ready_def)
  then have "record_events ?env features config (demo_args None) = Returned (Inl e, Some (w_inner w))"
    using w(1) by (simp add: record_events_def)
  moreover have "attach_probes ?env features config = Inr ()"
    using f(2) by (simp add: attach_probes_def demo_session_def Let_def)
  ultimately have "record_run ?env (demo_args None) = Returned (Inl e, Some (w_inner w))"
    using f by (simp add: record_run_def record_impl_def)
  then obtain x where x: "main_run demo_libs (demo_program\<lparr>record_env := ?env\<rparr>) (Command.Record (demo_args None)) (file_of []) = Returned x"
    "\<not> exit_success x" "recorded_file x = Some (w_inner w)"
    by (simp add: main_run_def)
  have "captured ?env (demo_args None) features = captured (demo_session demo_samples) (demo_args None) features"
    using f(2) by (simp add: captured_def)
  then have "length (captured ?env (demo_args None) features) = 2"
    using demo_captured [OF f(2)] by simp
  then have "\<exists>out. trace_report demo_libs 50000 (dev_bytes (w_inner w)) = Some (Inr out) \<and> hm_drop_count (health out) = None"
    using failed_record_then_report [OF demo_libs_ok x, where features = features and b = None and thr = 50000] f(1) len
    by (cases "trace_report demo_libs 50000 (dev_bytes (w_inner w))";
        cases "the (trace_report demo_libs 50000 (dev_bytes (w_inner w)))") auto
  then show ?thesis using len by blast
qed

end
