(* ===== verification/Depth.thy ===== *)
theory Depth
  imports Cascade
begin

text \<open>
  Invariant I-6 of the cascade (\<open>src/cascade/invariants.rs\<close>, \<open>check_depth_monotonicity\<close>): what
  the bound on the depth does to the attributions. The lemmas show that, from depth two on, a
  deeper recursion never propagates more of an edge's wait, so that its attribution only
  grows; and that on simple chains the depth makes no difference at all.
\<close>

section \<open>The recursion as a sum of natural numbers\<close>

text \<open>One level of the recursion, given the results of the level below.\<close>

definition level_sum ::
    "(ThreadId \<times> ThreadId \<times> EdgeWeight) list \<Rightarrow> ThreadId \<Rightarrow> TimeWindow \<Rightarrow>
     (ThreadId \<Rightarrow> TimeWindow \<Rightarrow> u64 \<times> u64) \<Rightarrow> nat" where
  "level_sum E n w r = (\<Sum>iv \<leftarrow> sweep_edges E n w. \<Sum>t \<leftarrow> ei_targets iv.
     taken (r t (ei_window iv)) div max (length (ei_targets iv)) 1 div max (unat (waiters E t (ei_window iv))) 1)"

lemma cascade_spec_level:
  assumes "length E < 2 ^ 64" "window_ok w" "n \<notin> path" "sweep_edges E n w \<noteq> []"
  shows "unat (fst (cascade_spec E (Suc k) path n w)) = level_sum E n w (cascade_spec E k (insert n path))"
    "unat (snd (cascade_spec E (Suc k) path n w)) =
       unat (duration w) - (\<Sum>iv \<leftarrow> sweep_edges E n w. unat (duration (ei_window iv)))"
proof -
  let ?ivs = "sweep_edges E n w"
  let ?r = "cascade_spec E k (insert n path)"
  let ?S = "\<lambda>iv. \<Sum>t \<leftarrow> ei_targets iv. share (?r t (ei_window iv)) (length (ei_targets iv)) (waiters E t (ei_window iv))"
  let ?N = "\<lambda>iv. \<Sum>t \<leftarrow> ei_targets iv. taken (?r t (ei_window iv)) div max (length (ei_targets iv)) 1 div
      max (unat (waiters E t (ei_window iv))) 1"
  have ok: "window_ok (ei_window iv)" "length (ei_targets iv) < 2 ^ 64" if "iv \<in> set ?ivs" for iv
    using sweep_edges_interval(1) [OF that] targets_length [OF that] assms(1) by (simp_all add: window_ok_def)
  have S: "unat (?S iv) = ?N iv" if "iv \<in> set ?ivs" for iv
    by (rule unat_share_sum [OF cascade_spec_bound [OF assms(1) ok(1) [OF that]] ok(2) [OF that]])
  have N: "?N iv \<le> unat (duration (ei_window iv))" if "iv \<in> set ?ivs" for iv
    by (rule share_sum_le [OF cascade_spec_bound [OF assms(1) ok(1) [OF that]]])
  have cov: "(\<Sum>iv \<leftarrow> ?ivs. unat (duration (ei_window iv))) \<le> unat (duration w)"
    by (rule sweep_edges_durations [OF assms(2)])
  have lim: "unat (duration w) < 2 ^ 64"
    using unsigned_less [of "duration w"] by simp
  have le: "(\<Sum>iv \<leftarrow> ?ivs. unat (?S iv)) \<le> unat (duration w)"
    using sum_list_mono [of ?ivs "\<lambda>iv. unat (?S iv)" "\<lambda>iv. unat (duration (ei_window iv))"] S N cov by fastforce
  have "unat (fst (cascade_spec E (Suc k) path n w)) = unat (\<Sum>iv \<leftarrow> ?ivs. ?S iv)"
    using assms(3,4) by simp
  also have "\<dots> = (\<Sum>iv \<leftarrow> ?ivs. unat (?S iv))"
    using le lim by (subst unat_sum_list) (simp_all add: comp_def)
  also have "\<dots> = (\<Sum>iv \<leftarrow> ?ivs. ?N iv)"
    using S by (intro arg_cong [where f = sum_list] map_cong) simp_all
  finally show "unat (fst (cascade_spec E (Suc k) path n w)) = level_sum E n w ?r"
    by (simp add: level_sum_def)
  have "unat (\<Sum>iv \<leftarrow> ?ivs. duration (ei_window iv)) = (\<Sum>iv \<leftarrow> ?ivs. unat (duration (ei_window iv)))"
    using cov lim by (subst unat_sum_list) (simp_all add: comp_def)
  then show "unat (snd (cascade_spec E (Suc k) path n w)) =
       unat (duration w) - (\<Sum>iv \<leftarrow> ?ivs. unat (duration (ei_window iv)))"
    using assms(3,4) by (simp add: unat_saturating_sub)
qed

lemma level_sum_mono:
  assumes "\<And>t iv. iv \<in> set (sweep_edges E n w) \<Longrightarrow> taken (r t (ei_window iv)) \<le> taken (r' t (ei_window iv))"
  shows "level_sum E n w r \<le> level_sum E n w r'"
  unfolding level_sum_def by (intro sum_list_mono div_le_mono assms)

section \<open>Deeper recursion propagates less\<close>

lemma taken_antitone:
  assumes "length E < 2 ^ 64" "window_ok w"
  shows "taken (cascade_spec E (Suc k) path n w) \<le> taken (cascade_spec E k path n w)"
  using assms(2)
proof (induction k arbitrary: path n w)
  case 0
  show ?case
    using cascade_spec_bound [OF assms(1) "0.prems", of "Suc 0" path n] by simp
next
  case (Suc k)
  show ?case
  proof (cases "n \<in> path \<or> sweep_edges E n w = []")
    case True
    then show ?thesis by auto
  next
    case False
    then have n: "n \<notin> path" "sweep_edges E n w \<noteq> []" by simp_all
    have "level_sum E n w (cascade_spec E (Suc k) (insert n path)) \<le> level_sum E n w (cascade_spec E k (insert n path))"
      using sweep_edges_interval(1) by (intro level_sum_mono Suc.IH) (fastforce simp: window_ok_def)
    then show ?thesis
      by (simp only: cascade_spec_level [OF assms(1) Suc.prems n])
  qed
qed

lemma propagated_antitone:
  assumes "length E < 2 ^ 64" "window_ok w" "1 \<le> k" "k \<le> k'"
  shows "unat (fst (cascade_spec E k' path n w)) \<le> unat (fst (cascade_spec E k path n w))"
  using assms(4)
proof (induction rule: dec_induct)
  case base
  show ?case by simp
next
  case (step j)
  obtain i where j: "j = Suc i"
    using assms(3) step.hyps by (cases j) auto
  show ?case
  proof (cases "n \<in> path \<or> sweep_edges E n w = []")
    case True
    then have "fst (cascade_spec E (Suc j) path n w) = 0" by auto
    then show ?thesis by simp
  next
    case False
    then have n: "n \<notin> path" "sweep_edges E n w \<noteq> []" by simp_all
    have "level_sum E n w (cascade_spec E (Suc i) (insert n path)) \<le> level_sum E n w (cascade_spec E i (insert n path))"
      using sweep_edges_interval(1) by (intro level_sum_mono taken_antitone [OF assms(1)]) (fastforce simp: window_ok_def)
    then have "unat (fst (cascade_spec E (Suc j) path n w)) \<le> unat (fst (cascade_spec E j path n w))"
      by (simp only: j cascade_spec_level [OF assms(1,2) n])
    then show ?thesis
      using step.IH by simp
  qed
qed

lemma attributed_delay_mono:
  assumes "length E < 2 ^ 64" "window_ok (time_window ew)" "2 \<le> m" "m \<le> m'"
  shows "attributed_delay E m (s, d, ew) \<le> attributed_delay E m' (s, d, ew)"
proof -
  have "1 \<le> unat m - 1" "unat m - 1 \<le> unat m' - 1"
    using assms(3,4) unfolding word_le_nat_alt by simp_all
  from propagated_antitone [OF assms(1,2) this] show ?thesis
    by (simp add: attributed_delay_def word_le_nat_alt unat_saturating_sub diff_le_mono2)
qed

section \<open>Simple chains\<close>

text \<open>Every thread waits for at most one other and is waited for by at most one, however
  often.\<close>

definition simple_chain :: "(ThreadId \<times> ThreadId \<times> EdgeWeight) list \<Rightarrow> bool" where
  "simple_chain E \<longleftrightarrow> (\<forall>(s, d, ew) \<in> set E. \<forall>(s', d', ew') \<in> set E.
     edge_kind ew = Normal \<longrightarrow> edge_kind ew' = Normal \<longrightarrow> (s = s' \<longleftrightarrow> d = d'))"

lemma simple_chainD:
  "simple_chain E \<Longrightarrow> (s, d, ew) \<in> set E \<Longrightarrow> (s', d', ew') \<in> set E \<Longrightarrow> edge_kind ew = Normal \<Longrightarrow>
   edge_kind ew' = Normal \<Longrightarrow> s = s' \<longleftrightarrow> d = d'"
  unfolding simple_chain_def by fast

lemma chain_waiters:
  assumes "simple_chain E"
  shows "waiters E t w = 1"
proof -
  let ?S = "set (map fst (filter (\<lambda>(s, d, ew). d = t \<and> edge_kind ew = Normal \<and> overlap (time_window ew) w \<noteq> None) E))"
  have ex: "\<exists>ew. (s, t, ew) \<in> set E \<and> edge_kind ew = Normal" if "s \<in> ?S" for s
    using that by auto
  have "s = s'" if s: "s \<in> ?S" "s' \<in> ?S" for s s'
  proof -
    obtain ew ew' where "(s, t, ew) \<in> set E" "edge_kind ew = Normal" "(s', t, ew') \<in> set E" "edge_kind ew' = Normal"
      using ex [OF s(1)] ex [OF s(2)] by (elim exE conjE) (rule that)
    then show ?thesis
      using simple_chainD [OF assms, of s t ew s' t ew'] by simp
  qed
  then have "\<forall>a \<in> ?S. \<forall>b \<in> ?S. a = b" by (intro ballI)
  then have "card ?S \<le> Suc 0"
    by (simp only: card_le_Suc0_iff_eq [OF finite_set])
  then consider "card ?S = 0" | "card ?S = 1" by linarith
  then show ?thesis
    unfolding waiters_def Let_def by cases simp_all
qed

lemma chain_targets:
  assumes "simple_chain E" "iv \<in> set (sweep_edges E n w)"
  shows "length (ei_targets iv) = 1"
proof -
  have "contains (ei_window iv) (start_ms (ei_window iv))"
    using sweep_edges_interval(1) [OF assms(2)] by (simp add: contains_def)
  then have target: "\<exists>ew. (n, t, ew) \<in> set E \<and> edge_kind ew = Normal" if "t \<in> set (ei_targets iv)" for t
    using that assms(2) sweep_edges_exact [of E n w "start_ms (ei_window iv)" t] by blast
  have "t = t'" if t: "t \<in> set (ei_targets iv)" "t' \<in> set (ei_targets iv)" for t t'
  proof -
    obtain ew ew' where "(n, t, ew) \<in> set E" "edge_kind ew = Normal" "(n, t', ew') \<in> set E" "edge_kind ew' = Normal"
      using target [OF t(1)] target [OF t(2)] by (elim exE conjE) (rule that)
    then show ?thesis
      using simple_chainD [OF assms(1), of n t ew n t' ew'] by simp
  qed
  then have "\<forall>a \<in> set (ei_targets iv). \<forall>b \<in> set (ei_targets iv). a = b" by (intro ballI)
  then have "card (set (ei_targets iv)) \<le> Suc 0"
    by (simp only: card_le_Suc0_iff_eq [OF finite_set])
  then have "length (ei_targets iv) \<le> 1"
    by (simp add: distinct_card [OF sweep_edges_interval(6) [OF assms(2)]])
  then show ?thesis
    using sweep_edges_interval(4) [OF assms(2)] by (cases "ei_targets iv") auto
qed

lemma chain_level_sum:
  assumes "simple_chain E" "\<And>t iv. iv \<in> set (sweep_edges E n w) \<Longrightarrow> taken (r t (ei_window iv)) = unat (duration (ei_window iv))"
  shows "level_sum E n w r = (\<Sum>iv \<leftarrow> sweep_edges E n w. unat (duration (ei_window iv)))"
proof -
  have "(\<Sum>t \<leftarrow> ei_targets iv. taken (r t (ei_window iv)) div max (length (ei_targets iv)) 1 div
      max (unat (waiters E t (ei_window iv))) 1) = unat (duration (ei_window iv))" if iv: "iv \<in> set (sweep_edges E n w)" for iv
  proof -
    obtain t where "ei_targets iv = [t]"
      using chain_targets [OF assms(1) iv] by (auto simp: length_Suc_conv)
    then show ?thesis
      using assms(2) [OF iv] by (simp add: chain_waiters [OF assms(1)])
  qed
  then show ?thesis
    unfolding level_sum_def by (intro arg_cong [where f = sum_list] map_cong) simp_all
qed

text \<open>On a chain nothing is lost to rounding: propagated delay and self blame make up the
  window at every depth.\<close>

lemma chain_taken:
  assumes "length E < 2 ^ 64" "simple_chain E" "window_ok w"
  shows "taken (cascade_spec E k path n w) = unat (duration w)"
  using assms(3)
proof (induction k arbitrary: path n w)
  case (Suc k)
  show ?case
  proof (cases "n \<in> path \<or> sweep_edges E n w = []")
    case True
    then show ?thesis by auto
  next
    case False
    then have n: "n \<notin> path" "sweep_edges E n w \<noteq> []" by simp_all
    have "level_sum E n w (cascade_spec E k (insert n path)) = (\<Sum>iv \<leftarrow> sweep_edges E n w. unat (duration (ei_window iv)))"
      using sweep_edges_interval(1) by (intro chain_level_sum [OF assms(2)] Suc.IH) (fastforce simp: window_ok_def)
    then show ?thesis
      using sweep_edges_durations [OF Suc.prems] by (simp only: cascade_spec_level [OF assms(1) Suc.prems n]) simp
  qed
qed simp

lemma chain_propagated:
  assumes "length E < 2 ^ 64" "simple_chain E" "window_ok w"
  shows "fst (cascade_spec E (Suc k) path n w) = fst (cascade_spec E (Suc k') path n w)"
proof (cases "n \<in> path \<or> sweep_edges E n w = []")
  case True
  then show ?thesis by auto
next
  case False
  then have n: "n \<notin> path" "sweep_edges E n w \<noteq> []" by simp_all
  have "level_sum E n w (cascade_spec E j (insert n path)) = (\<Sum>iv \<leftarrow> sweep_edges E n w. unat (duration (ei_window iv)))" for j
    using sweep_edges_interval(1)
    by (intro chain_level_sum [OF assms(2)] chain_taken [OF assms(1,2)]) (fastforce simp: window_ok_def)
  then show ?thesis
    by (simp only: word_unat_eq_iff cascade_spec_level [OF assms(1,3) n])
qed

lemma chain_attributed:
  assumes "length E < 2 ^ 64" "simple_chain E" "window_ok (time_window ew)" "2 \<le> m" "2 \<le> m'"
  shows "attributed_delay E m (s, d, ew) = attributed_delay E m' (s, d, ew)"
proof -
  obtain k k' where "unat m - 1 = Suc k" "unat m' - 1 = Suc k'"
    using assms(4,5) that [of "unat m - 2" "unat m' - 2"] by (simp add: word_le_nat_alt)
  then show ?thesis
    using chain_propagated [OF assms(1-3), of k "{s}" d k'] by (simp add: attributed_delay_def)
qed

section \<open>The total\<close>

lemma sum_list_le_iff_eq:
  fixes f g :: "'a \<Rightarrow> nat"
  assumes "\<And>x. x \<in> set xs \<Longrightarrow> f x \<le> g x"
  shows "sum_list (map g xs) \<le> sum_list (map f xs) \<longleftrightarrow> (\<forall>x \<in> set xs. f x = g x)"
  using assms
proof (induction xs)
  case (Cons x xs)
  have "sum_list (map f xs) \<le> sum_list (map g xs)" "f x \<le> g x"
    using Cons.prems by (auto intro: sum_list_mono)
  then have "sum_list (map g (x # xs)) \<le> sum_list (map f (x # xs)) \<longleftrightarrow>
      f x = g x \<and> sum_list (map g xs) \<le> sum_list (map f xs)"
    by auto
  also have "sum_list (map g xs) \<le> sum_list (map f xs) \<longleftrightarrow> (\<forall>x \<in> set xs. f x = g x)"
    using Cons.prems by (intro Cons.IH) simp
  finally show ?case by simp
qed simp

lemma attribute_attributed: "attributed_delay_ms (snd (snd (attribute E m x))) = attributed_delay E m x"
  by (simp add: attribute_def split_beta)

lemma total_attributed_bounded:
  assumes "petgraph api" "wfg_edges api x = map (attribute E m) E"
    and "sum_list (map (\<lambda>(_, _, ew). unat (raw_wait_ms ew)) E) < 2 ^ 64"
  shows "total_attributed api x = Some (sum_list (map (attributed_delay E m) E))"
    "unat (sum_list (map (attributed_delay E m) E)) = sum_list (map (\<lambda>x. unat (attributed_delay E m x)) E)"
proof -
  have "map (\<lambda>(_, _, ew). attributed_delay_ms ew) (wfg_edges api x) = map (attributed_delay E m) E"
    by (simp add: assms(2) attribute_def split_beta)
  then show "total_attributed api x = Some (sum_list (map (attributed_delay E m) E))"
    by (simp only: wfg_graph.total_attributed_eq [OF wfg_graph.intro [OF assms(1)]])
  have "sum_list (map (\<lambda>x. unat (attributed_delay E m x)) E) \<le> sum_list (map (\<lambda>(_, _, ew). unat (raw_wait_ms ew)) E)"
    using attributed_le_raw by (intro sum_list_mono) (auto simp: word_le_nat_alt)
  then show "unat (sum_list (map (attributed_delay E m) E)) = sum_list (map (\<lambda>x. unat (attributed_delay E m x)) E)"
    using assms(3) by (subst unat_sum_list) (simp_all add: comp_def)
qed

section \<open>Properties\<close>

text \<open>Property C33. I-6 as it holds of every graph: from depth two on, a larger depth bound never
  attributes less to any edge, because the delay that comes back from a deeper node is at most
  the whole window that the truncated recursion assumes.\<close>

theorem engine_depth_monotone:
  assumes "petgraph api" "wfg_inv api g" "edge_count api g < 2 ^ 64"
    and "\<forall>(s, d, ew) \<in> set (wfg_edges api g). window_ok (time_window ew)" "2 \<le> m" "m \<le> m'"
    and "cascade_engine api g (Some m) = Some (Inr r)" "cascade_engine api g (Some m') = Some (Inr r')"
  shows "list_all2 (\<lambda>(s, d, ew) (s', d', ew'). s = s' \<and> d = d' \<and> raw_wait_ms ew = raw_wait_ms ew' \<and>
    attributed_delay_ms ew \<le> attributed_delay_ms ew') (wfg_edges api r) (wfg_edges api r')"
proof -
  note wg = wfg_graph.intro [OF assms(1)]
  have len: "length (wfg_edges api g) < 2 ^ 64"
    using assms(3) by (simp add: edge_count_def petgraph.length_pg_edges [OF assms(1)])
  have r: "wfg_edges api r = map (attribute (wfg_edges api g) m) (wfg_edges api g)"
    by (rule wfg_graph.cascade_engine_eq [OF wg assms(2), of "Some m"]) (simp add: assms(7) effective_depth_def)
  have r': "wfg_edges api r' = map (attribute (wfg_edges api g) m') (wfg_edges api g)"
    by (rule wfg_graph.cascade_engine_eq [OF wg assms(2), of "Some m'"]) (simp add: assms(8) effective_depth_def)
  show ?thesis
    unfolding r r' list_all2_map1 list_all2_map2
    by (rule list.rel_refl_strong) (use assms(4) attributed_delay_mono [OF len _ assms(5,6)] in \<open>auto simp: attribute_def\<close>)
qed

text \<open>What the check of I-6 decides: for a graph whose raw waits add up in 64 bits it
  returns true exactly if the depth bounds two and ten attribute the same delays to all edges;
  a smaller total at depth ten does not occur.\<close>

theorem depth_check_exact:
  assumes "petgraph api" "wfg_inv api g" "edge_count api g < 2 ^ 64"
    and "\<forall>(s, d, ew) \<in> set (wfg_edges api g). window_ok (time_window ew)"
    and "sum_list (map (\<lambda>(_, _, ew). unat (raw_wait_ms ew)) (wfg_edges api g)) < 2 ^ 64"
  shows "\<exists>shallow deep. cascade_engine api g (Some 2) = Some (Inr shallow) \<and> cascade_engine api g (Some 10) = Some (Inr deep) \<and>
    check_depth_monotonicity api g = Some (wfg_edges api shallow = wfg_edges api deep)"
proof -
  let ?E = "wfg_edges api g"
  note wg = wfg_graph.intro [OF assms(1)]
  have len: "length ?E < 2 ^ 64"
    using assms(3) by (simp add: edge_count_def petgraph.length_pg_edges [OF assms(1)])
  obtain r where r: "cascade_engine api g (Some 2) = Some (Inr r)" "wfg_edges api r = map (attribute ?E 2) ?E"
    using wfg_graph.cascade_engine_eq [OF wg assms(2), of "Some 2"] by (auto simp: effective_depth_def)
  obtain r' where r': "cascade_engine api g (Some 10) = Some (Inr r')" "wfg_edges api r' = map (attribute ?E 10) ?E"
    using wfg_graph.cascade_engine_eq [OF wg assms(2), of "Some 10"] by (auto simp: effective_depth_def)
  have total: "total_attributed api x = Some (sum_list (map (attributed_delay ?E m) ?E))"
    "unat (sum_list (map (attributed_delay ?E m) ?E)) = sum_list (map (\<lambda>x. unat (attributed_delay ?E m x)) ?E)"
    if "wfg_edges api x = map (attribute ?E m) ?E" for x m
    using total_attributed_bounded [OF assms(1) that assms(5)] by simp_all
  have "unat (attributed_delay ?E 2 x) \<le> unat (attributed_delay ?E 10 x)" if "x \<in> set ?E" for x
    using attributed_delay_mono [OF len, where m = 2 and m' = 10] that assms(4) by (fastforce simp: word_le_nat_alt)
  then have "sum_list (map (\<lambda>x. unat (attributed_delay ?E 10 x)) ?E) \<le> sum_list (map (\<lambda>x. unat (attributed_delay ?E 2 x)) ?E) \<longleftrightarrow>
      (\<forall>x \<in> set ?E. unat (attributed_delay ?E 2 x) = unat (attributed_delay ?E 10 x))"
    by (rule sum_list_le_iff_eq)
  also have "\<dots> \<longleftrightarrow> map (attribute ?E 2) ?E = map (attribute ?E 10) ?E"
    unfolding map_eq_conv word_unat_eq_iff [symmetric]
    by (intro ball_cong refl) (metis attribute_attributed attribute_def)
  finally have "check_depth_monotonicity api g = Some (wfg_edges api r = wfg_edges api r')"
    by (simp add: check_depth_monotonicity_def expect_ok_def r r' total [OF r(2)] total [OF r'(2)] word_le_nat_alt)
  with r(1) r'(1) show ?thesis by blast
qed

text \<open>I-6 as it is documented: on a simple chain, where every thread waits for at
  most one other and is waited for by at most one, every depth bound from two on gives the
  same attributions, and the check passes.\<close>

theorem depth_check_chain:
  assumes "petgraph api" "wfg_inv api g" "edge_count api g < 2 ^ 64" "simple_chain (wfg_edges api g)"
    and "\<forall>(s, d, ew) \<in> set (wfg_edges api g). window_ok (time_window ew)" "2 \<le> m"
  shows "\<exists>r r'. cascade_engine api g (Some 2) = Some (Inr r) \<and> cascade_engine api g (Some m) = Some (Inr r') \<and>
    wfg_edges api r' = wfg_edges api r \<and> check_depth_monotonicity api g = Some True"
proof -
  let ?E = "wfg_edges api g"
  note wg = wfg_graph.intro [OF assms(1)]
  have len: "length ?E < 2 ^ 64"
    using assms(3) by (simp add: edge_count_def petgraph.length_pg_edges [OF assms(1)])
  have same: "map (attribute ?E m) ?E = map (attribute ?E 2) ?E" if "2 \<le> m" for m
    using chain_attributed [OF len assms(4) _ that, of _ 2] assms(5) by (fastforce simp: attribute_def)
  obtain r where r: "cascade_engine api g (Some 2) = Some (Inr r)" "wfg_edges api r = map (attribute ?E 2) ?E"
    using wfg_graph.cascade_engine_eq [OF wg assms(2), of "Some 2"] by (auto simp: effective_depth_def)
  obtain r' where r': "cascade_engine api g (Some m) = Some (Inr r')" "wfg_edges api r' = map (attribute ?E m) ?E"
    using wfg_graph.cascade_engine_eq [OF wg assms(2), of "Some m"] by (auto simp: effective_depth_def)
  obtain r10 where r10: "cascade_engine api g (Some 10) = Some (Inr r10)" "wfg_edges api r10 = map (attribute ?E 10) ?E"
    using wfg_graph.cascade_engine_eq [OF wg assms(2), of "Some 10"] by (auto simp: effective_depth_def)
  have "wfg_edges api r10 = wfg_edges api r"
    unfolding r(2) r10(2) by (rule same) simp
  then have "check_depth_monotonicity api g = Some True"
    by (simp add: check_depth_monotonicity_def expect_ok_def r(1) r10(1) wfg_graph.total_attributed_eq [OF wg])
  then show ?thesis
    using r r' same [OF assms(6)] by auto
qed

section \<open>Examples\<close>

lemma figure4_hyps:
  "edge_count adj_api figure4 < 2 ^ 64" "\<forall>(s, d, ew) \<in> set (wfg_edges adj_api figure4). window_ok (time_window ew)"
  "simple_chain (wfg_edges adj_api figure4)"
  by (simp_all add: edge_count_def figure4_counts figure4_ok figure4_edges_def window_ok_def simple_chain_def)

lemma engine_depth_monotone_witness:
  "\<exists>r r'. cascade_engine adj_api figure4 (Some 2) = Some (Inr r) \<and> cascade_engine adj_api figure4 (Some 5) = Some (Inr r') \<and>
    list_all2 (\<lambda>(s, d, ew) (s', d', ew'). s = s' \<and> d = d' \<and> raw_wait_ms ew = raw_wait_ms ew' \<and>
      attributed_delay_ms ew \<le> attributed_delay_ms ew') (wfg_edges adj_api r) (wfg_edges adj_api r')"
proof -
  obtain r where r: "cascade_engine adj_api figure4 (Some 2) = Some (Inr r)"
    by (rule wfg_graph.cascade_engine_eq [OF adj_wfg.wfg_graph_axioms figure4_ok(1)])
  obtain r' where r': "cascade_engine adj_api figure4 (Some 5) = Some (Inr r')"
    by (rule wfg_graph.cascade_engine_eq [OF adj_wfg.wfg_graph_axioms figure4_ok(1)])
  show ?thesis
    using engine_depth_monotone [OF adj.petgraph_axioms figure4_ok(1) figure4_hyps(1,2) _ _ r r'] r r' by simp
qed

lemma depth_check_chain_witness: "check_depth_monotonicity adj_api figure4 = Some True"
  using depth_check_chain [OF adj.petgraph_axioms figure4_ok(1) figure4_hyps(1,3,2), of 7] by auto

text \<open>A thread that waits for two others, which both wait for a fourth: depth two assumes that
  all of the first wait is passed on, depth ten finds that half of it is shared away.\<close>

definition diamond_edges :: "(ThreadId \<times> ThreadId \<times> EdgeWeight) list" where
  "diamond_edges = map (\<lambda>(s, d). (ThreadId s, ThreadId d, EdgeWeight_new (TimeWindow_new 0 100)))
     [(1, 2), (2, 3), (2, 4), (3, 5), (4, 5)]"

definition diamond :: "(NodeWeight, EdgeWeight) adj WaitForGraph" where
  "diamond = the (build_graph adj_api (map (\<lambda>i. (ThreadId i, UserThread)) [1, 2, 3, 4, 5]) diamond_edges)"

lemma diamond_ok: "wfg_inv adj_api diamond" "wfg_edges adj_api diamond = diamond_edges"
proof -
  have "fst ` set diamond_edges \<union> (fst \<circ> snd) ` set diamond_edges \<subseteq>
      fst ` set (map (\<lambda>i. (ThreadId i, UserThread)) [1, 2, 3, 4, 5])"
    by (auto simp: diamond_edges_def)
  from adj_wfg.build_graph_ok [OF this]
  show "wfg_inv adj_api diamond" "wfg_edges adj_api diamond = diamond_edges"
    by (auto simp: diamond_def)
qed

lemma diamond_counts: "edge_count adj_api diamond = 5"
proof -
  have "length (wfg_edges adj_api diamond) = 5"
    by (simp only: diamond_ok(2)) (simp add: diamond_edges_def)
  then show ?thesis by (simp add: edge_count_def)
qed

lemma depth_check_exact_witness: "check_depth_monotonicity adj_api diamond = Some False"
proof -
  have hyps: "edge_count adj_api diamond < 2 ^ 64"
    "\<forall>(s, d, ew) \<in> set (wfg_edges adj_api diamond). window_ok (time_window ew)"
    "sum_list (map (\<lambda>(_, _, ew). unat (raw_wait_ms ew)) (wfg_edges adj_api diamond)) < 2 ^ 64"
    by (simp_all add: diamond_counts diamond_ok diamond_edges_def window_ok_def duration_def)
  obtain r r' where r: "cascade_engine adj_api diamond (Some 2) = Some (Inr r)"
    "cascade_engine adj_api diamond (Some 10) = Some (Inr r')"
    "check_depth_monotonicity adj_api diamond = Some (wfg_edges adj_api r = wfg_edges adj_api r')"
    using depth_check_exact [OF adj.petgraph_axioms diamond_ok(1) hyps] by blast
  have eq: "wfg_edges adj_api r = map (attribute diamond_edges 2) diamond_edges"
    by (rule wfg_graph.cascade_engine_eq [OF adj_wfg.wfg_graph_axioms diamond_ok(1), of "Some 2"])
      (simp add: r(1) effective_depth_def diamond_ok(2))
  have eq': "wfg_edges adj_api r' = map (attribute diamond_edges 10) diamond_edges"
    by (rule wfg_graph.cascade_engine_eq [OF adj_wfg.wfg_graph_axioms diamond_ok(1), of "Some 10"])
      (simp add: r(2) effective_depth_def diamond_ok(2))
  have "map (attribute diamond_edges 2) diamond_edges \<noteq> map (attribute diamond_edges 10) diamond_edges"
    by code_simp
  then show ?thesis
    by (simp add: r(3) eq eq')
qed

end
