(* ===== verification/Correlate_Io.thy ===== *)
theory Correlate_Io
  imports Correlate
begin

text \<open>
  The block-IO half of correlation (\<open>src/correlate.rs\<close>). The specification reads the trace
  alone: a request is open for a key when the last IO event of that key is an issue, and a
  completion closes the open request of its key. The lemmas show that the scheduler handlers
  leave this half of the state alone and that the loop follows the specification.
\<close>

section \<open>Specification on the trace\<close>

definition is_io :: "IoKey \<Rightarrow> WperfEvent \<Rightarrow> bool" where
  "is_io k e \<longleftrightarrow> (is_type (Some IoIssue) e \<or> is_type (Some IoComplete) e) \<and> IoKey_from_event e = k"

text \<open>The issue that is open for a key after some events.\<close>

definition open_issue :: "IoKey \<Rightarrow> WperfEvent list \<Rightarrow> WperfEvent option" where
  "open_issue k es =
     (case find (is_io k) (rev es) of
        Some i \<Rightarrow> if is_type (Some IoIssue) i then Some i else None
      | None \<Rightarrow> None)"

text \<open>The edges of one event, or that it is an orphan, given the events before it.\<close>

definition io_pair :: "WperfEvent list \<Rightarrow> WperfEvent \<Rightarrow> (ThreadId \<times> ThreadId \<times> EdgeWeight) list" where
  "io_pair before e =
     (if is_type (Some IoComplete) e then
        (case open_issue (IoKey_from_event e) before of
           Some i \<Rightarrow>
             (let w = TimeWindow_new (timestamp_ns i div 1000000)
                (max (timestamp_ns e div 1000000) (timestamp_ns i div 1000000))
              in [(ThreadId (uint (tid i)), ThreadId DISK_TID, with_wait_type w IoBlock),
                  (ThreadId DISK_TID, ThreadId (uint (tid i)), synthetic_closure_return w IoBlock)])
         | None \<Rightarrow> [])
      else [])"

definition orphan :: "WperfEvent list \<Rightarrow> WperfEvent \<Rightarrow> bool" where
  "orphan before e \<longleftrightarrow> is_type (Some IoComplete) e \<and> open_issue (IoKey_from_event e) before = None"

definition io_edges :: "WperfEvent list \<Rightarrow> (ThreadId \<times> ThreadId \<times> EdgeWeight) list" where
  "io_edges es = concat (map (\<lambda>n. io_pair (take n es) (es ! n)) [0..<length es])"

text \<open>How many events have a property, given the events before them.\<close>

definition occurrences :: "(WperfEvent list \<Rightarrow> WperfEvent \<Rightarrow> bool) \<Rightarrow> WperfEvent list \<Rightarrow> nat" where
  "occurrences P es = length (filter (\<lambda>n. P (take n es) (es ! n)) [0..<length es])"

lemma open_issue_simps [simp]:
  "open_issue k [] = None"
  "open_issue k (es @ [e]) =
     (if is_io k e then if is_type (Some IoIssue) e then Some e else None else open_issue k es)"
  by (simp_all add: open_issue_def)

lemma io_edges_simps [simp]:
  "io_edges [] = []" "io_edges (es @ [e]) = io_edges es @ io_pair es e"
  by (auto simp: io_edges_def nth_append intro!: arg_cong [of _ _ concat] map_cong)

lemma occurrences_simps [simp]:
  "occurrences P [] = 0" "occurrences P (es @ [e]) = occurrences P es + of_bool (P es e)"
proof -
  have "filter (\<lambda>n. P (take n (es @ [e])) ((es @ [e]) ! n)) [0..<length es] =
      filter (\<lambda>n. P (take n es) (es ! n)) [0..<length es]"
    by (intro filter_cong) (simp_all add: nth_append)
  then show "occurrences P (es @ [e]) = occurrences P es + of_bool (P es e)"
    by (simp add: occurrences_def)
qed (simp add: occurrences_def)

section \<open>The handlers\<close>

definition io_only :: "(ThreadId \<times> ThreadId \<times> EdgeWeight) list \<Rightarrow> (ThreadId \<times> ThreadId \<times> EdgeWeight) list" where
  "io_only E = filter (\<lambda>(s, d, ew). wait_type ew = Some IoBlock) E"

lemma io_only_append [simp]: "io_only (E @ F) = io_only E @ io_only F"
  by (simp add: io_only_def)

lemma io_only_pe_edges:
  "(\<And>p. p \<in> set D \<Longrightarrow> pe_wait_type (snd p) \<noteq> Some IoBlock) \<Longrightarrow> io_only (map (\<lambda>(_, pe). pe_edge pe) D) = []"
  by (auto simp: io_only_def filter_empty_conv split_beta)

lemma io_only_io_pair [simp]: "io_only (io_pair h e) = io_pair h e"
  unfolding io_pair_def io_only_def Let_def
  by (cases "is_type (Some IoComplete) e"; cases "open_issue (IoKey_from_event e) h") simp_all

text \<open>The block-IO half of the state, left alone by what concerns the scheduler.\<close>

definition same_io :: "'g wfg_api \<Rightarrow> 'g Correlator \<Rightarrow> 'g Correlator \<Rightarrow> bool" where
  "same_io api s s' \<longleftrightarrow> pending_io s' = pending_io s \<and>
     io_only (wfg_edges api (c_graph s')) = io_only (wfg_edges api (c_graph s)) \<and>
     io_orphan_complete_count (stats s') = io_orphan_complete_count (stats s)"

lemma same_io_trans: "same_io api s s' \<Longrightarrow> same_io api s' s'' \<Longrightarrow> same_io api s s''"
  by (simp add: same_io_def)

lemma same_io_refl [simp]: "same_io api s s"
  by (simp add: same_io_def)

lemma same_io_switch_out: "same_io api s (switch_out e s)"
  by (simp add: same_io_def switch_out_def Let_def)

lemma same_io_switch_in: "same_io api s (switch_in e s)"
  by (simp add: same_io_def switch_in_def Let_def split: option.split)

lemma same_io_wakeup: "same_io api s (handle_wakeup e s)"
  by (simp add: same_io_def handle_wakeup_def Let_def split: option.split)

lemma same_io_futex: "same_io api s (handle_futex_wait e s)"
  by (simp add: same_io_def handle_futex_wait_def)

context wfg_graph
begin

lemma same_io_commit:
  assumes "ready api s" "Mapping.lookup (pending_edges s) t = Some pe"
    and "add_edge_from_pending api pe (s\<lparr>pending_edges := Mapping.delete t (pending_edges s)\<rparr>) = Some s'"
  shows "same_io api s s'"
proof -
  let ?s = "s\<lparr>pending_edges := Mapping.delete t (pending_edges s)\<rparr>"
  obtain b where pe: "pe_src pe = user_thread t" "pe_dst pe = user_thread b" "pe_wait_type pe \<noteq> Some IoBlock"
    "window_ok (pe_window pe)"
    using readyD(4) [OF assms(1,2)] by blast
  have "graph_ok api (c_graph ?s)"
    using readyD(1) [OF assms(1)] by simp
  from add_edge_from_pending_ok [OF this pe(1,2,4,3)] obtain g where g:
    "s' = upd_stats (\<lambda>st. st\<lparr>edges_created := edges_created st + 1\<rparr>) (?s\<lparr>c_graph := g\<rparr>)"
    "wfg_edges api g = wfg_edges api (c_graph s) @ [pe_edge pe]"
    using assms(3) by auto
  have "io_only [pe_edge pe] = []"
    using io_only_pe_edges [of "[(t, pe)]"] pe(3) by simp
  then show ?thesis
    using g by (simp add: same_io_def)
qed

lemma same_io_resolve:
  assumes "ready api s" "resolve_pending api thr e s = Some s'"
  shows "same_io api s s'"
proof (cases "prev_tid e = 0 \<or> Mapping.lookup (pending_edges s) (prev_tid e) = None")
  case True
  then show ?thesis
    using assms(2) by (auto simp: resolve_pending_def split: if_splits)
next
  case False
  then obtain pe where pe: "prev_tid e \<noteq> 0" "Mapping.lookup (pending_edges s) (prev_tid e) = Some pe"
    by auto
  then show ?thesis
    using assms(2) same_io_commit [OF assms(1) pe(2)]
    by (auto simp: resolve_pending_def Let_def same_io_def split: if_splits)
qed

lemma same_io_switch:
  assumes "ready api s" "handle_switch api thr e s = Some s'"
  shows "same_io api s s'"
proof -
  obtain s1 where "resolve_pending api thr e s = Some s1" "s' = switch_in e (switch_out e s1)"
    using assms(2) by (auto simp: handle_switch_def)
  then show ?thesis
    using same_io_resolve [OF assms(1)] same_io_trans same_io_switch_out same_io_switch_in by metis
qed

lemma same_io_exit:
  assumes "ready api s" "commit_pending_edge api t s = Some s'"
  shows "same_io api s (s'\<lparr>off_cpu := A, pending_futex := B\<rparr>)"
proof -
  have "same_io api s s'"
    using assms same_io_commit [OF assms(1), of t] by (auto simp: commit_pending_edge_def split: option.splits)
  then show ?thesis
    by (simp add: same_io_def)
qed

text \<open>Everything but issues and completions.\<close>

lemma same_io_event:
  assumes "ready api s" "correlate_event api thr e s = Some s'"
    "\<not> is_type (Some IoIssue) e" "\<not> is_type (Some IoComplete) e"
  shows "same_io api s s'"
proof -
  let ?s = "upd_stats (\<lambda>st. st\<lparr>events_processed := events_processed st + 1\<rparr>) s"
  have r: "ready api ?s"
    using assms(1) by simp
  have "same_io api ?s s'"
  proof (cases "EventType_from_u8 (event_type e)")
    case None
    then show ?thesis
      using assms(2) by (auto simp: correlate_event_def same_io_def)
  next
    case (Some ty)
    then show ?thesis
      using assms(2-4) same_io_switch [OF r] same_io_exit [OF r] same_io_wakeup same_io_futex
      by (cases ty) (auto simp: correlate_event_def is_type_def)
  qed
  then show ?thesis
    by (simp add: same_io_def)
qed

end

section \<open>The loop\<close>

definition pending_of :: "WperfEvent \<Rightarrow> PendingIo" where
  "pending_of i = \<lparr>submitter_tgid = pid i, submitter_tid = tid i, issue_ts_ns = timestamp_ns i\<rparr>"

definition follows_io :: "'g wfg_api \<Rightarrow> WperfEvent list \<Rightarrow> 'g Correlator \<Rightarrow> bool" where
  "follows_io api h s \<longleftrightarrow> (\<forall>k. Mapping.lookup (pending_io s) k = map_option pending_of (open_issue k h)) \<and>
     io_only (wfg_edges api (c_graph s)) = io_edges h \<and>
     io_orphan_complete_count (stats s) = of_nat (occurrences orphan h)"

context wfg_graph
begin

lemma follows_io_event:
  assumes "ready api s" "correlate_event api thr e s = Some s'" "follows_io api h s"
  shows "follows_io api (h @ [e]) s'"
proof -
  let ?s = "upd_stats (\<lambda>st. st\<lparr>events_processed := events_processed st + 1\<rparr>) s" and ?k = "IoKey_from_event e"
  have s: "Mapping.lookup (pending_io s) k = map_option pending_of (open_issue k h)"
    "io_only (wfg_edges api (c_graph s)) = io_edges h" "io_orphan_complete_count (stats s) = of_nat (occurrences orphan h)" for k
    using assms(3) by (simp_all add: follows_io_def)
  consider (issue) "is_type (Some IoIssue) e" | (complete) "is_type (Some IoComplete) e"
    | (other) "\<not> is_type (Some IoIssue) e" "\<not> is_type (Some IoComplete) e"
    by blast
  then show ?thesis
  proof cases
    case issue
    then have "s' = handle_io_issue e ?s" and no: "\<not> is_type (Some IoComplete) e"
      using assms(2) by (simp_all add: correlate_event_def is_type_def)
    then have "pending_io s' = Mapping.update ?k (pending_of e) (pending_io s)" "c_graph s' = c_graph s"
      "io_orphan_complete_count (stats s') = io_orphan_complete_count (stats s)"
      by (simp_all add: handle_io_issue_def pending_of_def Let_def)
    then show ?thesis
      using s no issue by (auto simp: follows_io_def lookup_update' io_pair_def orphan_def is_io_def)
  next
    case complete
    then have run: "handle_io_complete api e ?s = Some s'" and no: "\<not> is_type (Some IoIssue) e"
      using assms(2) by (simp_all add: correlate_event_def is_type_def)
    show ?thesis
    proof (cases "open_issue ?k h")
      case None
      then have "s' = upd_stats (\<lambda>st. st\<lparr>io_orphan_complete_count := io_orphan_complete_count st + 1\<rparr>) ?s"
        using run s(1) [of ?k] by (simp add: handle_io_complete_def)
      then show ?thesis
        using s None complete no by (auto simp: follows_io_def io_pair_def orphan_def is_io_def)
    next
      case (Some i)
      have g: "graph_ok api (c_graph ?s)"
        using readyD(1) [OF assms(1)] by simp
      have p: "Mapping.lookup (pending_io ?s) ?k = Some (pending_of i)"
        using s(1) Some by simp
      obtain g where "s' = upd_stats (\<lambda>st. st\<lparr>edges_created := edges_created st + 2\<rparr>)
          (?s\<lparr>pending_io := Mapping.delete ?k (pending_io s), c_graph := g\<rparr>)"
        "wfg_edges api g = wfg_edges api (c_graph s) @ io_pair h e"
        using io_complete_step [OF g p] run complete Some
        by (auto simp: io_pair_def io_window_def pending_of_def user_thread_def Let_def)
      then show ?thesis
        using s Some complete no by (auto simp: follows_io_def orphan_def is_io_def lookup_delete_if)
    qed
  next
    case other
    then show ?thesis
      using same_io_event [OF assms(1,2)] s by (simp add: follows_io_def same_io_def io_pair_def orphan_def is_io_def)
  qed
qed

lemma correlate_loop_io:
  "\<exists>s. foldM (correlate_event api thr) events (Correlator_init api) = Some s \<and> ready api s \<and> follows_io api events s"
proof -
  have "foldM (correlate_event api thr) [] (Correlator_init api) = Some (Correlator_init api)"
    by simp
  then have init: "ready api (Correlator_init api)"
    using correlate_loop [of thr "[]"] by simp
  have "follows_io api [] (Correlator_init api)"
    by (simp add: follows_io_def Correlator_init_def CorrelationStats_default_def new_wfg io_only_def)
  moreover have "\<exists>s'. correlate_event api thr e s = Some s' \<and> ready api s' \<and> follows_io api (h @ [e]) s'"
    if "ready api s \<and> follows_io api h s" for h e s
    using correlate_event_ok [of s thr e] follows_io_event [of s thr e _ h] that by blast
  ultimately show ?thesis
    using foldM_history [of "\<lambda>h s. ready api s \<and> follows_io api h s" "correlate_event api thr" "[]"] init
    by (metis (no_types, lifting) append_Nil)
qed

lemma correlate_events_io:
  assumes "drain_ok drain" "correlate_events api drain events thr = Some (g, st)"
  shows "io_only (wfg_edges api g) = io_edges events \<and>
    io_orphan_complete_count st = of_nat (occurrences orphan events) \<and>
    io_pending_at_end_count st = of_nat (card {k. open_issue k events \<noteq> None})"
proof -
  obtain s where s: "foldM (correlate_event api thr) events (Correlator_init api) = Some s" "ready api s"
    "follows_io api events s"
    using correlate_loop_io by blast
  note r = readyD [OF s(2)]
  let ?D = "drain (pending_edges s)"
  have D: "\<And>k pe. (k, pe) \<in> set ?D \<longleftrightarrow> Mapping.lookup (pending_edges s) k = Some pe"
    using assms(1) r(2) by (simp add: drain_ok_def)
  obtain g' where g': "foldM (\<lambda>(_, pe). add_edge_from_pending api pe) ?D s =
      Some (s\<lparr>c_graph := g', stats := (stats s)\<lparr>edges_created := edges_created (stats s) + of_nat (length ?D)\<rparr>\<rparr>)"
    "wfg_edges api g' = wfg_edges api (c_graph s) @ map (\<lambda>(_, pe). pe_edge pe) ?D"
    using drain_loop [OF r(1), of ?D] r(4) D by blast
  have "io_only (map (\<lambda>(_, pe). pe_edge pe) ?D) = []"
    using D r(4) by (intro io_only_pe_edges) fastforce
  then have "io_only (wfg_edges api g') = io_only (wfg_edges api (c_graph s))"
    using g'(2) by simp
  moreover have "g = g'" "io_orphan_complete_count st = io_orphan_complete_count (stats s)"
    "io_pending_at_end_count st = of_nat (Mapping.size (pending_io s))"
    using assms(2) s(1) g'(1) by (auto simp: correlate_events_def)
  moreover have "Mapping.size (pending_io s) = card {k. open_issue k events \<noteq> None}"
    using s(3) by (simp add: follows_io_def Mapping.size_def keys_dom_lookup dom_def)
  ultimately show ?thesis
    using s(3) by (simp add: follows_io_def)
qed

end

section \<open>Properties\<close>

text \<open>Property C25. The IO edges are exactly the completed requests, in the order of their
  completions: a completion whose key was last issued, and not completed since, adds an edge
  from the thread of that issue to the disk and the closure edge back, both over the time from
  issue to completion in milliseconds (empty when the clock ran backwards). The other
  completions are the orphans counted, the keys still open the pending requests counted.\<close>

theorem correlate_io_exact:
  assumes "petgraph api" "drain_ok drain" "correlate_events api drain events thr = Some (g, st)"
  shows "filter (\<lambda>(s, d, ew). wait_type ew = Some IoBlock) (wfg_edges api g) = io_edges events \<and>
    io_orphan_complete_count st = of_nat (occurrences orphan events) \<and>
    io_pending_at_end_count st = of_nat (card {k. open_issue k events \<noteq> None})"
  using wfg_graph.correlate_events_io [OF wfg_graph.intro [OF assms(1)] assms(2,3)]
  unfolding io_only_def .

lemma correlate_io_exact_witness:
  "filter (\<lambda>(s, d, ew). wait_type ew = Some IoBlock) (wfg_edges adj_api (fst demo_graph)) =
    [(ThreadId 7, ThreadId DISK_TID, with_wait_type (TimeWindow_new 5 8) IoBlock),
     (ThreadId DISK_TID, ThreadId 7, synthetic_closure_return (TimeWindow_new 5 8) IoBlock)]"
proof -
  have "io_edges demo_trace =
      [(ThreadId 7, ThreadId DISK_TID, with_wait_type (TimeWindow_new 5 8) IoBlock),
       (ThreadId DISK_TID, ThreadId 7, synthetic_closure_return (TimeWindow_new 5 8) IoBlock)]"
    by code_simp
  then show ?thesis
    using correlate_io_exact [OF adj.petgraph_axioms drain_ok_entries demo_run] by simp
qed

end
