(* ===== verification/Correlate_Stats.thy ===== *)
theory Correlate_Stats
  imports Correlate_Io
begin

text \<open>
  The diagnostic counters of correlation (\<open>src/correlate.rs\<close>, \<open>CorrelationStats\<close>), against the
  trace alone: a thread is asleep when the last switch or exit of it took it off the CPU asleep,
  and woken when another thread has woken it since.
\<close>

section \<open>Specification on the trace\<close>

definition asleep :: "u32 \<Rightarrow> WperfEvent list \<Rightarrow> bool" where
  "asleep t es \<longleftrightarrow>
     (case find (ends_wait t) (rev es) of Some e \<Rightarrow> goes_off t e \<and> \<not> comes_on t e | None \<Rightarrow> False)"

definition woken :: "u32 \<Rightarrow> WperfEvent list \<Rightarrow> bool" where
  "woken t es \<longleftrightarrow> asleep t es \<and>
     (case find (\<lambda>e. ends_wait t e \<or> wakes t e) (rev es) of Some e \<Rightarrow> wakes t e | None \<Rightarrow> False)"

definition idle_wakeup :: "WperfEvent list \<Rightarrow> WperfEvent \<Rightarrow> bool" where
  "idle_wakeup before e \<longleftrightarrow> wakes (next_tid e) e \<and> \<not> asleep (next_tid e) before"

definition unknown_switch_in :: "WperfEvent list \<Rightarrow> WperfEvent \<Rightarrow> bool" where
  "unknown_switch_in before e \<longleftrightarrow>
     comes_on (next_tid e) e \<and> \<not> goes_off (next_tid e) e \<and> \<not> asleep (next_tid e) before"

text \<open>A switch of a thread to itself takes it off the CPU and puts it on again unwoken.\<close>

definition unwoken_switch_in :: "WperfEvent list \<Rightarrow> WperfEvent \<Rightarrow> bool" where
  "unwoken_switch_in before e \<longleftrightarrow> comes_on (next_tid e) e \<and>
     (goes_off (next_tid e) e \<or> asleep (next_tid e) before \<and> \<not> woken (next_tid e) before)"

definition collision :: "WperfEvent list \<Rightarrow> WperfEvent \<Rightarrow> bool" where
  "collision before e \<longleftrightarrow> is_type (Some IoIssue) e \<and> open_issue (IoKey_from_event e) before \<noteq> None"

lemma asleep_simps [simp]:
  "\<not> asleep t []"
  "asleep t (es @ [e]) \<longleftrightarrow> (if ends_wait t e then goes_off t e \<and> \<not> comes_on t e else asleep t es)"
  by (simp_all add: asleep_def)

lemma wakes_not_ends: "wakes t e \<Longrightarrow> \<not> ends_wait t e"
  by (auto simp: wakes_def ends_wait_def goes_off_def comes_on_def is_type_def)

lemma woken_simps [simp]:
  "\<not> woken t []"
  "woken t (es @ [e]) \<longleftrightarrow> (if wakes t e then asleep t es else \<not> ends_wait t e \<and> woken t es)"
  using wakes_not_ends [of t e] by (auto simp: woken_def)

section \<open>The automaton of a thread knows\<close>

definition has_waker :: "ThreadView \<Rightarrow> bool" where
  "has_waker v \<longleftrightarrow> (case tv_off v of Some r \<Rightarrow> waker_tid r \<noteq> None | None \<Rightarrow> False)"

lemma tv_off_step:
  "tv_off (thread_step thr t e v) \<noteq> None \<longleftrightarrow>
     (if ends_wait t e then goes_off t e \<and> \<not> comes_on t e else tv_off v \<noteq> None)"
  "has_waker (thread_step thr t e v) \<longleftrightarrow>
     (if wakes t e then tv_off v \<noteq> None else \<not> ends_wait t e \<and> has_waker v)"
proof -
  have off: "tv_off (tv_switch_out thr e v) =
      (if prev_state e = TASK_RUNNING then tv_off v
       else Some \<lparr>switch_out_ns = timestamp_ns e, waker_tid = None, oc_wait_type = futex_wait_type e (tv_futex v)\<rparr>)"
    by (simp add: tv_switch_out_def Let_def split: option.split)
  have inn: "tv_off (tv_switch_in e u) = None" for u
    by (simp add: tv_switch_in_def split: option.split)
  show "tv_off (thread_step thr t e v) \<noteq> None \<longleftrightarrow>
     (if ends_wait t e then goes_off t e \<and> \<not> comes_on t e else tv_off v \<noteq> None)"
    by (simp add: thread_step_def ends_wait_def goes_off_def comes_on_def is_type_def Let_def off inn
        split: option.split EventType.split)
  show "has_waker (thread_step thr t e v) \<longleftrightarrow>
     (if wakes t e then tv_off v \<noteq> None else \<not> ends_wait t e \<and> has_waker v)"
    by (cases "EventType_from_u8 (event_type e)"; cases "tv_off v"; cases "the (EventType_from_u8 (event_type e))")
      (auto simp: has_waker_def thread_step_def wakes_def ends_wait_def goes_off_def comes_on_def is_type_def
        Let_def off inn)
qed

lemma thread_run_off:
  "tv_off (thread_run thr t es) \<noteq> None \<longleftrightarrow> asleep t es" "has_waker (thread_run thr t es) \<longleftrightarrow> woken t es"
proof (induction es rule: rev_induct)
  case Nil
  case 1 show ?case by (simp add: tv_init_def)
  case 2 show ?case by (simp add: tv_init_def has_waker_def)
next
  case (snoc e es)
  case 1 show ?case using snoc(1) by (simp only: thread_run_simps tv_off_step asleep_simps)
  case 2 show ?case using snoc by (simp only: thread_run_simps tv_off_step woken_simps)
qed

section \<open>The handlers\<close>

definition counted ::
    "WperfEvent list \<Rightarrow> 'g Correlator \<Rightarrow> bool" where
  "counted h s \<longleftrightarrow>
     unmatched_wakeup_count (stats s) = of_nat (occurrences idle_wakeup h) \<and>
     unmatched_switch_in_count (stats s) = of_nat (occurrences unknown_switch_in h) \<and>
     switch_in_without_waker_count (stats s) = of_nat (occurrences unwoken_switch_in h) \<and>
     io_userspace_pair_collision_count (stats s) = of_nat (occurrences collision h)"

text \<open>The four counters and the threads off the CPU, left alone by what only adds edges.\<close>

definition same_counts :: "'g Correlator \<Rightarrow> 'g Correlator \<Rightarrow> bool" where
  "same_counts s s' \<longleftrightarrow> off_cpu s' = off_cpu s \<and>
     unmatched_wakeup_count (stats s') = unmatched_wakeup_count (stats s) \<and>
     unmatched_switch_in_count (stats s') = unmatched_switch_in_count (stats s) \<and>
     switch_in_without_waker_count (stats s') = switch_in_without_waker_count (stats s) \<and>
     io_userspace_pair_collision_count (stats s') = io_userspace_pair_collision_count (stats s)"

lemma same_counts_add:
  "add_edge_from_pending api pe s = Some s' \<Longrightarrow> same_counts s s'"
  by (auto simp: add_edge_from_pending_def same_counts_def Let_def bind_eq_Some_conv split: option.splits)

lemma same_counts_resolve: "resolve_pending api thr e s = Some s' \<Longrightarrow> same_counts s s'"
  using same_counts_add [of api _ "s\<lparr>pending_edges := Mapping.delete (prev_tid e) (pending_edges s)\<rparr>" s']
  by (auto simp: resolve_pending_def Let_def same_counts_def split: if_splits option.splits)

lemma same_counts_commit: "commit_pending_edge api t s = Some s' \<Longrightarrow> same_counts s s'"
  using same_counts_add [of api _ "s\<lparr>pending_edges := Mapping.delete t (pending_edges s)\<rparr>" s']
  by (auto simp: commit_pending_edge_def same_counts_def split: option.splits)

lemma same_counts_io_complete: "handle_io_complete api e s = Some s' \<Longrightarrow> same_counts s s'"
  by (auto simp: handle_io_complete_def same_counts_def Let_def bind_eq_Some_conv split: option.splits)

lemma same_counts_drain:
  "foldM (\<lambda>(_, pe). add_edge_from_pending api pe) D s = Some s' \<Longrightarrow> same_counts s s'"
proof (induction D arbitrary: s)
  case (Cons p D)
  then obtain s1 where "add_edge_from_pending api (snd p) s = Some s1" "same_counts s1 s'"
    by (auto simp: split_beta bind_eq_Some_conv)
  then show ?case
    using same_counts_add [of api "snd p" s s1] by (simp add: same_counts_def)
qed (simp add: same_counts_def)

text \<open>What is off the CPU in the state is what is asleep in the trace.\<close>

definition knows_sleepers :: "WperfEvent list \<Rightarrow> 'g Correlator \<Rightarrow> bool" where
  "knows_sleepers h s \<longleftrightarrow> (\<forall>t. case Mapping.lookup (off_cpu s) t of
     None \<Rightarrow> \<not> asleep t h | Some r \<Rightarrow> asleep t h \<and> (waker_tid r \<noteq> None \<longleftrightarrow> woken t h))"

lemma views_know_sleepers:
  assumes "\<And>t. view_of api s t = thread_run thr t h"
  shows "knows_sleepers h s"
proof -
  have "case Mapping.lookup (off_cpu s) t of None \<Rightarrow> \<not> asleep t h
      | Some r \<Rightarrow> asleep t h \<and> (waker_tid r \<noteq> None \<longleftrightarrow> woken t h)" for t
  proof -
    have "tv_off (view_of api s t) \<noteq> None \<longleftrightarrow> asleep t h" "has_waker (view_of api s t) \<longleftrightarrow> woken t h"
      unfolding assms using thread_run_off by blast+
    then show ?thesis
      by (cases "Mapping.lookup (off_cpu s) t") (simp_all add: view_of_def has_waker_def)
  qed
  then show ?thesis
    by (simp add: knows_sleepers_def)
qed

lemma counted_switch:
  assumes "knows_sleepers h s" "counted h s" "is_type (Some Switch) e" "handle_switch api thr e s = Some s'"
  shows "counted (h @ [e]) s'"
proof -
  obtain s1 where s1: "resolve_pending api thr e s = Some s1" "s' = switch_in e (switch_out e s1)"
    using assms(4) by (auto simp: handle_switch_def)
  have s: "same_counts s s1"
    by (rule same_counts_resolve [OF s1(1)])
  have known: "case Mapping.lookup (off_cpu s1) (next_tid e) of None \<Rightarrow> \<not> asleep (next_tid e) h
      | Some r \<Rightarrow> asleep (next_tid e) h \<and> (waker_tid r \<noteq> None \<longleftrightarrow> woken (next_tid e) h)"
    using assms(1) s by (simp add: knows_sleepers_def same_counts_def)
  have no: "\<not> idle_wakeup h e" "\<not> collision h e"
    using assms(3) by (auto simp: idle_wakeup_def wakes_def collision_def is_type_def)
  have switch: "goes_off t e \<longleftrightarrow> prev_tid e = t \<and> t \<noteq> 0 \<and> prev_state e \<noteq> TASK_RUNNING"
    "comes_on t e \<longleftrightarrow> next_tid e = t \<and> t \<noteq> 0" for t
    using assms(3) by (simp_all add: goes_off_def comes_on_def)
  have out: "same_counts (s1\<lparr>off_cpu := off_cpu (switch_out e s1)\<rparr>) (switch_out e s1)"
    "Mapping.lookup (off_cpu (switch_out e s1)) (next_tid e) =
      (if goes_off (next_tid e) e then Some \<lparr>switch_out_ns = timestamp_ns e, waker_tid = None,
         oc_wait_type = futex_wait_type e (Mapping.lookup (pending_futex s1) (prev_tid e))\<rparr>
       else Mapping.lookup (off_cpu s1) (next_tid e))"
    by (auto simp: switch_out_def same_counts_def switch Let_def lookup_update')
  show ?thesis
    using assms(2) s known no out
    by (cases "Mapping.lookup (off_cpu s1) (next_tid e)"; cases "goes_off (next_tid e) e"; cases "next_tid e = 0")
      (auto simp: s1(2) switch_in_def counted_def same_counts_def unknown_switch_in_def unwoken_switch_in_def switch(2) Let_def
        split: option.split)
qed

lemma counted_other:
  assumes "counted h s" "same_counts s s'" "\<not> is_type (Some Switch) e" "\<not> is_type (Some IoIssue) e"
    "\<And>t. \<not> wakes t e"
  shows "counted (h @ [e]) s'"
  using assms
  by (auto simp: counted_def same_counts_def idle_wakeup_def unknown_switch_in_def unwoken_switch_in_def collision_def
      comes_on_def)

lemma counted_wakeup:
  assumes "knows_sleepers h s" "counted h s" "is_type (Some Wakeup) e \<or> is_type (Some WakeupNew) e"
  shows "counted (h @ [e]) (handle_wakeup e s)"
proof -
  have "case Mapping.lookup (off_cpu s) (next_tid e) of None \<Rightarrow> \<not> asleep (next_tid e) h | Some r \<Rightarrow> asleep (next_tid e) h"
    using assms(1) [unfolded knows_sleepers_def, rule_format, of "next_tid e"] by (simp split: option.splits)
  moreover have "wakes (next_tid e) e \<longleftrightarrow> prev_tid e \<noteq> 0" "\<not> comes_on t e" "\<not> is_type (Some IoIssue) e" for t
    using assms(3) by (auto simp: wakes_def comes_on_def is_type_def)
  ultimately show ?thesis
    using assms(2)
    by (cases "Mapping.lookup (off_cpu s) (next_tid e)")
      (auto simp: counted_def handle_wakeup_def Let_def idle_wakeup_def unknown_switch_in_def unwoken_switch_in_def
        collision_def)
qed

lemma counted_io_issue:
  assumes "follows_io api h s" "counted h s" "is_type (Some IoIssue) e"
  shows "counted (h @ [e]) (handle_io_issue e s)"
proof -
  have "Mapping.lookup (pending_io s) (IoKey_from_event e) \<noteq> None \<longleftrightarrow> open_issue (IoKey_from_event e) h \<noteq> None"
    using assms(1) by (simp add: follows_io_def)
  moreover have "\<not> wakes t e" "\<not> comes_on t e" for t
    using assms(3) by (auto simp: wakes_def comes_on_def is_type_def)
  ultimately show ?thesis
    using assms(2,3)
    by (auto simp: counted_def handle_io_issue_def Let_def idle_wakeup_def unknown_switch_in_def unwoken_switch_in_def
        collision_def)
qed

lemma counted_event:
  assumes "knows_sleepers h s" "follows_io api h s" "counted h s" "correlate_event api thr e s = Some s'"
  shows "counted (h @ [e]) s'"
proof -
  let ?s = "upd_stats (\<lambda>st. st\<lparr>events_processed := events_processed st + 1\<rparr>) s"
  have k: "knows_sleepers h ?s" "follows_io api h ?s" "counted h ?s"
    using assms(1-3) by (simp_all add: knows_sleepers_def follows_io_def counted_def)
  show ?thesis
  proof (cases "EventType_from_u8 (event_type e)")
    case None
    then have "same_counts ?s s'"
      using assms(4) by (auto simp: correlate_event_def same_counts_def)
    then show ?thesis
      using None by (intro counted_other [OF k(3)]) (simp_all add: is_type_def wakes_def)
  next
    case (Some ty)
    note other = counted_other [OF k(3)]
    show ?thesis
    proof (cases ty)
      case Switch
      then have "handle_switch api thr e ?s = Some s'" "is_type (Some Switch) e"
        using assms(4) Some by (simp_all add: correlate_event_def is_type_def)
      then show ?thesis
        using counted_switch [OF k(1,3)] by blast
    next
      case IoIssue
      then have "s' = handle_io_issue e ?s" "is_type (Some IoIssue) e"
        using assms(4) Some by (simp_all add: correlate_event_def is_type_def)
      then show ?thesis
        using counted_io_issue [OF k(2,3)] by blast
    next
      case IoComplete
      then have "handle_io_complete api e ?s = Some s'"
        using assms(4) Some by (simp add: correlate_event_def)
      then have "same_counts ?s s'"
        by (rule same_counts_io_complete)
      then show ?thesis
        using Some IoComplete by (intro other) (simp_all add: is_type_def wakes_def)
    next
      case FutexWaitEvent
      then have "same_counts ?s s'"
        using assms(4) Some by (auto simp: correlate_event_def same_counts_def handle_futex_wait_def)
      then show ?thesis
        using Some FutexWaitEvent by (intro other) (simp_all add: is_type_def wakes_def)
    next
      case Exit
      then obtain s1 where s1: "commit_pending_edge api (tid e) ?s = Some s1"
        "s' = s1\<lparr>off_cpu := Mapping.delete (tid e) (off_cpu s1), pending_futex := Mapping.delete (tid e) (pending_futex s1)\<rparr>"
        using assms(4) Some by (auto simp: correlate_event_def)
      have "counted (h @ [e]) s1"
        using Some Exit same_counts_commit [OF s1(1)] by (intro other) (simp_all add: is_type_def wakes_def)
      then show ?thesis
        by (simp add: s1(2) counted_def)
    next
      case Wakeup
      then have "s' = handle_wakeup e ?s" "is_type (Some Wakeup) e"
        using assms(4) Some by (simp_all add: correlate_event_def is_type_def)
      then show ?thesis
        using counted_wakeup [OF k(1,3)] by blast
    next
      case WakeupNew
      then have "s' = handle_wakeup e ?s" "is_type (Some WakeupNew) e"
        using assms(4) Some by (simp_all add: correlate_event_def is_type_def)
      then show ?thesis
        using counted_wakeup [OF k(1,3)] by blast
    qed
  qed
qed

section \<open>The loop\<close>

context wfg_graph
begin

lemma correlate_loop_counts:
  "\<exists>s. foldM (correlate_event api thr) events (Correlator_init api) = Some s \<and> counted events s"
proof -
  define P where "P h s \<longleftrightarrow> foldM (correlate_event api thr) h (Correlator_init api) = Some s \<and> counted h s" for h s
  have "P [] (Correlator_init api)"
    by (simp add: P_def counted_def Correlator_init_def CorrelationStats_default_def)
  moreover have "\<exists>s'. correlate_event api thr e s = Some s' \<and> P (h @ [e]) s'" if P: "P h s" for h e s
  proof -
    have run: "foldM (correlate_event api thr) h (Correlator_init api) = Some s" and c: "counted h s"
      using P by (simp_all add: P_def)
    then have r: "ready api s" "knows_sleepers h s" "follows_io api h s"
      using correlate_loop [of thr h] correlate_loop_io [of thr h] views_know_sleepers [of api s thr h] by auto
    obtain s' where s': "correlate_event api thr e s = Some s'"
      using correlate_event_ok [OF r(1)] by blast
    then show ?thesis
      using counted_event [OF r(2,3) c s'] run by (auto simp: P_def foldM_append)
  qed
  ultimately show ?thesis
    using foldM_history [of P "correlate_event api thr" "[]" "Correlator_init api" events] by (simp add: P_def)
qed

lemma correlate_events_counts:
  assumes "correlate_events api drain events thr = Some (g, st)"
  shows "unmatched_wakeup_count st = of_nat (occurrences idle_wakeup events) \<and>
    unmatched_switch_in_count st = of_nat (occurrences unknown_switch_in events) \<and>
    switch_in_without_waker_count st = of_nat (occurrences unwoken_switch_in events) \<and>
    io_userspace_pair_collision_count st = of_nat (occurrences collision events)"
proof -
  obtain s where s: "foldM (correlate_event api thr) events (Correlator_init api) = Some s" "counted events s"
    using correlate_loop_counts by blast
  obtain s' where s': "foldM (\<lambda>(_, pe). add_edge_from_pending api pe) (drain (pending_edges s)) s = Some s'"
    "st = (stats s')\<lparr>io_pending_at_end_count := of_nat (Mapping.size (pending_io s'))\<rparr>"
    using assms s(1) by (auto simp: correlate_events_def bind_eq_Some_conv)
  then show ?thesis
    using s(2) same_counts_drain [OF s'(1)] s'(2) by (simp add: same_counts_def counted_def)
qed

end

section \<open>Properties\<close>

text \<open>Property C26. The diagnostic counters count what they name: wakeups by a thread of one that
  is not asleep; switch-ins of a thread that is not asleep; switch-ins of a sleeper that
  nobody has woken; issues whose key is already open. Asleep and woken are read off the trace:
  the last switch-out asleep, switch-in or exit of the thread, and the wakeups since. Each
  count is a u64.\<close>

theorem correlate_counters_exact:
  assumes "petgraph api" "correlate_events api drain events thr = Some (g, st)"
  shows "unmatched_wakeup_count st = of_nat (occurrences idle_wakeup events) \<and>
    unmatched_switch_in_count st = of_nat (occurrences unknown_switch_in events) \<and>
    switch_in_without_waker_count st = of_nat (occurrences unwoken_switch_in events) \<and>
    io_userspace_pair_collision_count st = of_nat (occurrences collision events)"
  by (rule wfg_graph.correlate_events_counts [OF wfg_graph.intro [OF assms(1)] assms(2)])

text \<open>In the demonstration run thread 9 comes on the CPU without a switch-out seen before.\<close>

lemma correlate_counters_exact_witness:
  "unmatched_switch_in_count (snd demo_graph) = 1 \<and> unmatched_wakeup_count (snd demo_graph) = 0"
proof -
  have "occurrences unknown_switch_in demo_trace = 1" "occurrences idle_wakeup demo_trace = 0"
    by code_simp+
  then show ?thesis
    using correlate_counters_exact [OF adj.petgraph_axioms demo_run] by simp
qed

end
