(* ===== verification/Bookmark.thy ===== *)
theory Bookmark
  imports Reader
begin

text \<open>
  How much of a recording survives a crash (\<open>src/format/writer.rs\<close>, \<open>src/format/reader.rs\<close>): the
  writer moves the bookmark in the header after every 8192 events, and a reader of a file
  without a footer trusts the bookmark. The lemmas follow the exact value of the bookmark
  through the writes.
\<close>

section \<open>The value of the bookmark\<close>

definition bookmarked :: "nat \<Rightarrow> nat" where
  "bookmarked n = 8192 * (n div 8192)"

definition bookmark_at :: "nat \<Rightarrow> u8 list \<Rightarrow> bool" where
  "bookmark_at n bytes \<longleftrightarrow> subslice 8 16 bytes = to_le_bytes 8 (of_nat (64 + 45 * bookmarked n) :: u64)"

lemma bookmarked_le: "bookmarked n \<le> n"
  by (simp add: bookmarked_def)

lemma bookmarked_Suc: "bookmarked (Suc n) = (if Suc n mod 8192 = 0 then Suc n else bookmarked n)"
proof (cases "Suc n mod 8192 = 0")
  case True
  then show ?thesis
    using mult_div_mod_eq [of 8192 "Suc n"] by (simp add: bookmarked_def)
qed (simp add: bookmarked_def div_Suc)

lemma bookmark_at_append [simp]: "16 \<le> length H \<Longrightarrow> bookmark_at n (H @ xs) \<longleftrightarrow> bookmark_at n H"
  by (simp add: bookmark_at_def subslice_def)

lemma overwrite_bookmark:
  assumes "16 \<le> length bytes"
  shows "subslice 8 16 (overwrite 8 (to_le_bytes 8 (p :: u64)) bytes) = to_le_bytes 8 p"
proof -
  have "overwrite 8 (to_le_bytes 8 p) bytes = take 8 bytes @ to_le_bytes 8 p @ drop 16 bytes"
    using assms by (simp add: overwrite_def)
  moreover have "length (take 8 bytes) = 8"
    using assms by simp
  ultimately show ?thesis
    by (simp add: subslice_def)
qed

lemma update_data_offset_bookmark:
  assumes "update_data_offset w = (Inr (), w')" "16 \<le> length (dev_bytes (w_inner w))"
  shows "subslice 8 16 (dev_bytes (w_inner w')) = to_le_bytes 8 (of_nat (dev_pos (w_inner w)) :: u64)"
proof -
  define p where "p = (of_nat (dev_pos (w_inner w)) :: u64)"
  let ?w = "w\<lparr>w_header := (w_header w)\<lparr>data_section_end_offset := p\<rparr>, w_inner := (w_inner w)\<lparr>dev_pos := 8\<rparr>\<rparr>"
  show ?thesis
  proof (cases rule: on_stream_write_cases [of "to_le_bytes 8 p" ?w])
    case 1
    then have "dev_bytes (w_inner w') = overwrite 8 (to_le_bytes 8 p) (dev_bytes (w_inner w))"
      using assms(1)
      by (auto simp: update_data_offset_def on_stream_seek io_bind_def split: if_splits simp flip: p_def)
    then show ?thesis
      using overwrite_bookmark [OF assms(2), of p] by (simp add: p_def)
  next
    case (2 k)
    then show ?thesis
      using assms(1) by (simp add: update_data_offset_def flip: p_def)
  qed
qed

lemma write_record_bookmark:
  assumes "writer_inv evs w" "64 + 45 * (length evs + 1) < 2 ^ 63" "bookmark_at (length evs) (dev_bytes (w_inner w))"
    and "write_record (event_to_bytes e) w = (Inr (), w')"
  shows "bookmark_at (length (evs @ [e])) (dev_bytes (w_inner w'))"
proof -
  obtain H where H: "dev_bytes (w_inner w) = H @ event_log evs" "length H = 64"
    using assms(1) by (auto simp: writer_inv_def header_at_def)
  have pos: "dev_pos (w_inner w) = 64 + 45 * length evs" and count: "w_event_count w = of_nat (length evs)"
    using assms(1) by (simp_all add: writer_inv_def)
  let ?r = "tlv_record (event_to_bytes e)"
  let ?w = "w\<lparr>w_inner := store ?r (w_inner w), w_event_count := w_event_count w + 1\<rparr>"
  have "on_stream (write_all ?r) w = (Inr (), w\<lparr>w_inner := store ?r (w_inner w)\<rparr>)"
    using assms(4) by (cases rule: on_stream_write_cases [of ?r w]) (auto simp: write_record_def)
  then have run: "write_record (event_to_bytes e) w =
      (if w_event_count ?w mod 8192 = 0 then update_data_offset ?w else (Inr (), ?w))"
    by (simp add: write_record_def)
  have bytes: "dev_bytes (w_inner ?w) = (H @ event_log evs) @ ?r" "dev_pos (w_inner ?w) = 64 + 45 * Suc (length evs)"
    by (simp_all add: H pos)
  have "w_event_count ?w = of_nat (Suc (length evs))"
    by (simp add: count)
  then have "unat (w_event_count ?w) = Suc (length evs)"
    using assms(2) by (simp only:) (rule unat_of_nat_small, simp)
  then have turn: "w_event_count ?w mod 8192 = 0 \<longleftrightarrow> Suc (length evs) mod 8192 = 0"
    by (simp add: unat_eq_0 [symmetric] unat_mod)
  show ?thesis
  proof (cases "Suc (length evs) mod 8192 = 0")
    case True
    then have "update_data_offset ?w = (Inr (), w')"
      using run assms(4) turn by simp
    moreover have "16 \<le> length (dev_bytes (w_inner ?w))"
      unfolding bytes(1) using H(2) by simp
    ultimately have "subslice 8 16 (dev_bytes (w_inner w')) = to_le_bytes 8 (of_nat (64 + 45 * Suc (length evs)) :: u64)"
      unfolding bytes(2) [symmetric] by (rule update_data_offset_bookmark)
    then show ?thesis
      by (simp only: bookmark_at_def bookmarked_Suc True if_True simp_thms length_append_singleton)
  next
    case False
    then have "w' = ?w"
      using run assms(4) turn by simp
    then have "dev_bytes (w_inner w') = H @ event_log evs @ ?r"
      using bytes(1) by (simp only: append_assoc)
    moreover have "bookmarked (length (evs @ [e])) = bookmarked (length evs)"
      using False by (simp add: bookmarked_Suc)
    ultimately show ?thesis
      using assms(3) H by (simp add: bookmark_at_def subslice_def)
  qed
qed

lemma write_events_bookmark:
  assumes "writer_inv evs w" "64 + 45 * length (evs @ es) < 2 ^ 63" "bookmark_at (length evs) (dev_bytes (w_inner w))"
    and "write_events es w = (Inr (), w')"
  shows "bookmark_at (length (evs @ es)) (dev_bytes (w_inner w'))"
  using assms
proof (induction es arbitrary: evs w)
  case (Cons e es)
  obtain w1 where w1: "write_event e w = (Inr (), w1)" "write_events es w1 = (Inr (), w')"
    using Cons.prems(4) by (auto simp: io_bind_def split: prod.splits sum.splits)
  have inv: "writer_inv (evs @ [e]) w1"
    using write_event_ok [OF Cons.prems(1), of e] Cons.prems(2) w1(1) by (simp add: step_ok_def)
  have "bookmark_at (length (evs @ [e])) (dev_bytes (w_inner w1))"
    using Cons.prems(1-3) w1(1)
    by (intro write_record_bookmark [of evs "track_timestamp (timestamp_ns e) w"])
      (simp_all add: writer_inv_track write_event_def)
  from Cons.IH [OF inv _ this w1(2)] Cons.prems(2) show ?case
    by simp
qed simp

section \<open>Reading up to the bookmark\<close>

lemma read_bookmarked:
  assumes "writer_inv evs w" "bookmark_at (length evs) (dev_bytes (w_inner w))"
    and "64 + 45 * length evs + length xs < 2 ^ 63"
  shows "read_trace (dev_bytes (w_inner w) @ xs) = Inr (take (bookmarked (length evs)) evs)"
    "footless (dev_bytes (w_inner w)) \<Longrightarrow>
      read_trace_metadata (dev_bytes (w_inner w) @ xs) = Inr \<lparr>md_event_count = None, md_drop_count = None\<rparr>"
proof -
  obtain H where H: "dev_bytes (w_inner w) = H @ event_log evs" "header_at H (64 + 45 * length evs)" "length H = 64"
    using assms(1) by (auto simp: writer_inv_def header_at_def)
  let ?m = "bookmarked (length evs)"
  have m: "45 * ?m \<le> 45 * length evs"
    using bookmarked_le by simp
  have "64 + 45 * length evs < 2 ^ 64"
    using assms(3) by simp
  then obtain h where h: "header_from_bytes H = Inr h" "data_section_end_offset h = from_le_bytes (subslice 8 16 H)"
    using header_at_parse [OF H(2)] by blast
  have "data_section_end_offset h = of_nat (64 + 45 * ?m)"
    using assms(2) H(1,3) h(2) by (simp add: bookmark_at_def subslice_def from_to_le_bytes)
  then have off: "unat (data_section_end_offset h) = 64 + 45 * ?m"
    using m assms(3) by (simp only:) (rule unat_of_nat_small, simp)
  have n: "45 * ?m = min (unat (data_section_end_offset h)) (length (H @ event_log evs @ xs)) - 64"
    using m H(3) by (simp add: off min_def)
  have same: "take (45 * ?m) (event_log evs @ xs) = take (45 * ?m) (concat (map tlv (map event_record evs)))"
    "45 * ?m \<le> length (concat (map tlv (map event_record evs)))"
    "\<forall>rec \<in> set (map event_record evs). length (snd rec) < 2 ^ 32" "length (H @ event_log evs @ xs) < 2 ^ 63"
    using m H(3) assms(3) by (auto simp: event_log_records [symmetric] simp del: map_map)
  note read = read_trace_records [OF H(3) h(1) same(4,3) n same(1,2)]
  have decode: "decode_records (map event_record evs) (45 * ?m) = Inr (take ?m evs)"
    using decode_event_records [OF m] by simp
  show "read_trace (dev_bytes (w_inner w) @ xs) = Inr (take ?m evs)"
    using read(1) by (simp add: H(1) decode)
  show "read_trace_metadata (dev_bytes (w_inner w) @ xs) = Inr \<lparr>md_event_count = None, md_drop_count = None\<rparr>"
    if "footless (dev_bytes (w_inner w))"
    using read(2) [OF _ decode] footless_header [OF H(3) h(1)] that by (simp add: H(1))
qed

text \<open>A new writer on an empty stream.\<close>

lemma WperfWriter_new_bookmark:
  assumes "WperfWriter_new target \<lparr>dev_bytes = [], dev_pos = 0, dev_budget = b\<rparr> = (Inr w, d)"
  shows "bookmark_at 0 (dev_bytes (w_inner w))"
proof -
  let ?d = "\<lparr>dev_bytes = [], dev_pos = 0, dev_budget = b\<rparr>" and ?h = "WprfHeader_new target"
  have "write_all (header_to_bytes ?h) ?d = (Inr (), store (header_to_bytes ?h) ?d)"
    using assms
    by (cases rule: write_all_cases [of "header_to_bytes ?h" ?d])
      (auto simp: WperfWriter_new_def header_write_to_def Let_def)
  then have "dev_bytes (w_inner w) = header_to_bytes ?h"
    using assms by (auto simp: WperfWriter_new_def header_write_to_def Let_def overwrite_def)
  moreover have "data_section_end_offset ?h = 64"
    by (simp add: WprfHeader_new_def HEADER_SIZE_def)
  ultimately show ?thesis
    by (simp add: bookmark_at_def bookmarked_def header_to_bytes_def MAGIC_def subslice_app_right subslice_here subslice_Cons)
qed

section \<open>Properties\<close>

text \<open>Property C9. A crash loses at most the last 8191 events written: if the recording stops
  after some events, or in the middle of the next record, so that any bytes may follow, the
  reader returns exactly the events up to the last multiple of 8192, and no footer.\<close>

theorem crash_loses_little:
  assumes "WperfWriter_new target \<lparr>dev_bytes = [], dev_pos = 0, dev_budget = b\<rparr> = (Inr w0, d0)"
    and "write_events evs w0 = (Inr (), w)" "64 + 45 * length evs + length xs < 2 ^ 63"
  shows "read_trace (dev_bytes (w_inner w) @ xs) = Inr (take (8192 * (length evs div 8192)) evs) \<and>
    read_trace_metadata (dev_bytes (w_inner w) @ xs) = Inr \<lparr>md_event_count = None, md_drop_count = None\<rparr>"
proof -
  have new: "writer_inv [] w0" "footless (dev_bytes (w_inner w0))"
    using WperfWriter_new_ok [where target = target and b = b] by (simp_all add: assms(1))
  have len: "64 + 45 * length ([] @ evs) < 2 ^ 63"
    using assms(3) by simp
  have "step_ok ([] @ evs) w0 (write_events evs w0)"
    by (rule write_events_ok [OF new(1) len])
  then have inv: "writer_inv evs w" "footless (dev_bytes (w_inner w))"
    using new(2) by (simp_all add: assms(2) step_ok_def footless_def)
  have "bookmark_at (length evs) (dev_bytes (w_inner w))"
    using write_events_bookmark [OF new(1) len _ assms(2)] WperfWriter_new_bookmark [OF assms(1)] by simp
  from read_bookmarked [OF inv(1) this assms(3)] inv(2) show ?thesis
    by (simp add: bookmarked_def)
qed

text \<open>One event and three bytes of the next: the bookmark is still at the header.\<close>

lemma crash_loses_little_witness:
  "\<exists>w :: WperfWriter. read_trace (dev_bytes (w_inner w) @ [1, 40, 0]) = Inr [] \<and> length (dev_bytes (w_inner w)) = 109"
proof -
  let ?evs = "[event_from_bytes (replicate 40 7)]"
  obtain w0 d0 where new: "WperfWriter_new ''x86_64'' \<lparr>dev_bytes = [], dev_pos = 0, dev_budget = None\<rparr> = (Inr w0, d0)"
    "writer_inv [] w0" "dev_budget (w_inner w0) = None"
    using WperfWriter_new_ok [where target = "''x86_64''" and b = None] by (auto split: prod.splits sum.splits)
  have "step_ok ([] @ ?evs) w0 (write_events ?evs w0)"
    by (rule write_events_ok [OF new(2)]) simp
  then obtain w where w: "write_events ?evs w0 = (Inr (), w)" "writer_inv ?evs w"
    using new(3) by (auto simp: step_ok_def split: prod.splits sum.splits)
  have "length (dev_bytes (w_inner w)) = 109"
    using w(2) by (auto simp: writer_inv_def header_at_def)
  then show ?thesis
    using crash_loses_little [OF new(1) w(1), of "[1, 40, 0]"] by auto
qed

end
