(* ===== verification/Critical_Chain.thy ===== *)
theory Critical_Chain
  imports Correlate_Stats Report
begin

text \<open>
  The critical path on the wait-for graph itself. Its specification knows neither the
  condensation nor any numbering: a chain of classes of mutually waiting threads, each joined
  to the next by a wait, weighs the sum of the weights of its classes and of its joints. The
  lemmas translate the paths of the condensation to these chains and back, bound their
  weight, and show that on the graph of a trace no sum wraps around unless there are more
  than half a million threads.
\<close>

section \<open>Chains of classes\<close>

text \<open>A class of mutually waiting threads, and the heaviest wait from one class to another.\<close>

definition wait_class :: "(ThreadId \<times> ThreadId \<times> EdgeWeight) list \<Rightarrow> ThreadId set \<Rightarrow> ThreadId set \<Rightarrow> bool" where
  "wait_class E T K \<longleftrightarrow>
     (let R = (\<lambda>(s, d, ew). (s, d)) ` set E in \<exists>t \<in> T. K = {u \<in> T. (t, u) \<in> R\<^sup>* \<and> (u, t) \<in> R\<^sup>*})"

definition joint_delays :: "(ThreadId \<times> ThreadId \<times> EdgeWeight) list \<Rightarrow> ThreadId set \<Rightarrow> ThreadId set \<Rightarrow> u64 set" where
  "joint_delays E K K' = {attributed_delay_ms ew | s d ew. (s, d, ew) \<in> set E \<and> s \<in> K \<and> d \<in> K'}"

text \<open>The chains with their weight, last class first.\<close>

inductive wait_chain ::
    "(ThreadId \<times> ThreadId \<times> EdgeWeight) list \<Rightarrow> ThreadId set \<Rightarrow> ThreadId set list \<Rightarrow> nat \<Rightarrow> bool"
  for E :: "(ThreadId \<times> ThreadId \<times> EdgeWeight) list" and T :: "ThreadId set" where
  single: "wait_class E T K \<Longrightarrow> wait_chain E T [K] (unat (class_weight E K))"
| step: "wait_chain E T (K # r) w \<Longrightarrow> wait_class E T K' \<Longrightarrow> K \<noteq> K' \<Longrightarrow> joint_delays E K K' \<noteq> {} \<Longrightarrow>
    wait_chain E T (K' # K # r) (w + unat (Max (joint_delays E K K')) + unat (class_weight E K'))"

text \<open>A critical path: a heaviest chain, with the weights of its classes.\<close>

definition critical_chain ::
    "(ThreadId \<times> ThreadId \<times> EdgeWeight) list \<Rightarrow> ThreadId set \<Rightarrow> CriticalPath option \<Rightarrow> bool" where
  "critical_chain E T cp \<longleftrightarrow> (case cp of
       None \<Rightarrow> T = {}
     | Some path \<Rightarrow> T \<noteq> {} \<and>
         wait_chain E T (rev (map (\<lambda>n. set (cp_members n)) (chain path))) (unat (total_weight path)) \<and>
         (\<forall>Ks w. wait_chain E T Ks w \<longrightarrow> w \<le> unat (total_weight path)) \<and>
         (\<forall>n \<in> set (chain path). cp_weight n = class_weight E (set (cp_members n))))"

lemma joint_cross_delays: "joint_delays E (set c) (set c') = set (cross_delays E c c')"
  unfolding joint_delays_def set_eq_iff set_cross_delays mem_Collect_eq by metis

lemma wait_class_iff:
  assumes "sccs_ok ((\<lambda>(s, d, ew). (s, d)) ` set E) T cs"
  shows "wait_class E T K \<longleftrightarrow> (\<exists>i < length cs. K = set (cs ! i))"
  using sccs_classes [OF assms, of K] by (auto simp: wait_class_def Let_def)

text \<open>The heaviest chains of the same set of edges weigh the same.\<close>

lemma critical_chain_weight:
  assumes "critical_chain E T cp" "critical_chain F T cp'" "set E = set F"
  shows "map_option total_weight cp = map_option total_weight cp'"
proof (cases "T = {}")
  case True
  then show ?thesis
    using assms(1,2) by (auto simp: critical_chain_def split: option.splits)
next
  case False
  have F: "wait_class E = wait_class F" "joint_delays E = joint_delays F" "class_weight E = class_weight F"
    by (simp_all add: fun_eq_iff wait_class_def joint_delays_def class_weight_def assms(3))
  have "wait_chain F T Ks w" if "wait_chain E T Ks w" for Ks w
    using that by induction (auto simp: F intro: wait_chain.intros)
  moreover have "wait_chain E T Ks w" if "wait_chain F T Ks w" for Ks w
    using that by induction (auto simp: F [symmetric] intro: wait_chain.intros)
  ultimately have eq: "wait_chain E T Ks w \<longleftrightarrow> wait_chain F T Ks w" for Ks w
    by blast
  obtain p q where "cp = Some p" "cp' = Some q"
    using False assms(1,2) by (auto simp: critical_chain_def split: option.splits)
  then show ?thesis
    using assms(1,2) unfolding critical_chain_def eq by (auto simp: word_unat_eq_iff intro: le_antisym)
qed

section \<open>Paths of the condensation\<close>

text \<open>The nodes and edges of a weighted condensation of the components \<open>cs\<close>.\<close>

definition condensation_of ::
    "(ThreadId \<times> ThreadId \<times> EdgeWeight) list \<Rightarrow> ThreadId list list \<Rightarrow> u64 list \<Rightarrow> (nat \<times> nat \<times> u64) list \<Rightarrow> bool" where
  "condensation_of E cs W D \<longleftrightarrow> W = map (\<lambda>c. class_weight E (set c)) cs \<and>
     (\<forall>i j w. (i, j, w) \<in> set D \<longleftrightarrow> i < length cs \<and> j < length cs \<and> i \<noteq> j \<and>
        joint_delays E (set (cs ! i)) (set (cs ! j)) \<noteq> {} \<and> w = Max (joint_delays E (set (cs ! i)) (set (cs ! j))))"

lemma condensation_nodes: "condensation_of E cs W D \<Longrightarrow> W = map (\<lambda>c. class_weight E (set c)) cs"
  by (simp only: condensation_of_def)

lemma condensation_edges:
  "condensation_of E cs W D \<Longrightarrow> (i, j, w) \<in> set D \<longleftrightarrow> i < length cs \<and> j < length cs \<and> i \<noteq> j \<and>
     joint_delays E (set (cs ! i)) (set (cs ! j)) \<noteq> {} \<and> w = Max (joint_delays E (set (cs ! i)) (set (cs ! j)))"
  by (simp only: condensation_of_def)

lemma component_inj:
  assumes "sccs_ok R T cs" "i < length cs" "j < length cs" "set (cs ! i) = set (cs ! j)"
  shows "i = j"
proof -
  have "cs ! i \<noteq> []"
    using sccs_okD(2) [OF assms(1)] assms(2) nth_mem by metis
  then obtain t where "t \<in> set (cs ! i)"
    by (metis last_in_set)
  then show ?thesis
    using distinct_concat_index [OF sccs_okD(1) [OF assms(1)] assms(2,3)] assms(4) by blast
qed

lemma path_is_chain:
  assumes "sccs_ok ((\<lambda>(s, d, ew). (s, d)) ` set E) T cs" "condensation_of E cs W D" "dag_path W D p w"
  shows "wait_chain E T (map (\<lambda>i. set (cs ! i)) p) w"
  using assms(3)
proof induction
  case (single u)
  then have u: "u < length cs" "W ! u = class_weight E (set (cs ! u))"
    using condensation_nodes [OF assms(2)] by simp_all
  then have "wait_class E T (set (cs ! u))"
    using wait_class_iff [OF assms(1)] by blast
  from wait_chain.single [OF this] show ?case
    by (simp only: u(2) list.map)
next
  case (step v r w u e)
  have D: "v < length cs" "u < length cs" "v \<noteq> u" "joint_delays E (set (cs ! v)) (set (cs ! u)) \<noteq> {}"
    "e = Max (joint_delays E (set (cs ! v)) (set (cs ! u)))"
    using step.hyps(2) condensation_edges [OF assms(2)] by blast+
  have "W ! u = class_weight E (set (cs ! u))"
    using D(2) condensation_nodes [OF assms(2)] by simp
  moreover have "set (cs ! v) \<noteq> set (cs ! u)"
    using component_inj [OF assms(1) D(1,2)] D(3) by blast
  moreover have "wait_class E T (set (cs ! u))"
    using wait_class_iff [OF assms(1)] D(2) by blast
  ultimately show ?case
    using wait_chain.step [OF step.IH [unfolded list.map]] D(4) unfolding D(5) list.map by metis
qed

lemma chain_is_path:
  assumes "sccs_ok ((\<lambda>(s, d, ew). (s, d)) ` set E) T cs" "condensation_of E cs W D" "wait_chain E T Ks w"
  shows "\<exists>p. dag_path W D p w \<and> Ks = map (\<lambda>i. set (cs ! i)) p"
  using assms(3)
proof induction
  case (single K)
  then obtain i where i: "i < length cs" "K = set (cs ! i)"
    using wait_class_iff [OF assms(1)] by blast
  then have "i < length W" "W ! i = class_weight E K"
    using condensation_nodes [OF assms(2)] by simp_all
  then show ?case
    using dag_path.single [of i W D] i(2) by (intro exI [of _ "[i]"]) simp
next
  case (step K r w K')
  from step.IH obtain p where p: "dag_path W D p w" "K # r = map (\<lambda>i. set (cs ! i)) p"
    by (elim exE conjE)
  obtain v q where q: "p = v # q" "K = set (cs ! v)" "r = map (\<lambda>i. set (cs ! i)) q"
    using Cons_eq_map_D [OF p(2)] by (elim exE conjE)
  have W: "length W = length cs"
    using condensation_nodes [OF assms(2)] by simp
  then have v: "v < length cs"
    using dag_path_nodes [OF p(1)] q(1) by simp
  obtain u where u: "u < length cs" "K' = set (cs ! u)"
    using step.hyps(2) wait_class_iff [OF assms(1)] by blast
  have "v \<noteq> u"
    using step.hyps(3) q(2) u(2) by blast
  then have "(v, u, Max (joint_delays E K K')) \<in> set D"
    using condensation_edges [OF assms(2)] step.hyps(4) u v q(2) by simp
  moreover have "W ! u = class_weight E K'"
    using condensation_nodes [OF assms(2)] u by simp
  ultimately have "dag_path W D (u # v # q) (w + unat (Max (joint_delays E K K')) + unat (class_weight E K'))"
    using dag_path.step [of W D v q w u] p(1) q(1) u(1) W by simp
  then show ?case
    using q u by (intro exI [of _ "u # v # q"]) simp
qed

section \<open>No overflow\<close>

lemma class_weight_le:
  assumes "\<And>s d ew. (s, d, ew) \<in> set E \<Longrightarrow> unat (attributed_delay_ms ew) \<le> B"
  shows "unat (class_weight E K) \<le> B"
proof -
  have fin: "finite {attributed_delay_ms ew | s d ew. (s, d, ew) \<in> set E \<and> P s d}" for P
    by (rule finite_subset [of _ "(\<lambda>(s, d, ew). attributed_delay_ms ew) ` set E"]) force+
  have Max: "unat (Max {attributed_delay_ms ew | s d ew. (s, d, ew) \<in> set E \<and> P s d}) \<le> B"
    if ne: "{attributed_delay_ms ew | s d ew. (s, d, ew) \<in> set E \<and> P s d} \<noteq> {}" for P
  proof -
    obtain s d ew where "(s, d, ew) \<in> set E" and
      "Max {attributed_delay_ms ew | s d ew. (s, d, ew) \<in> set E \<and> P s d} = attributed_delay_ms ew"
      using Max_in [OF fin [of P] ne] unfolding mem_Collect_eq by (elim exE conjE) (rule that)
    then show ?thesis
      using assms by simp
  qed
  show ?thesis
    unfolding class_weight_def Let_def
    using Max [of "\<lambda>s d. s \<in> K \<and> d \<in> K"] Max [of "\<lambda>s d. s \<in> K \<or> d \<in> K"] by (simp split: if_split)
qed

lemma joint_delay_le:
  assumes "\<And>s d ew. (s, d, ew) \<in> set E \<Longrightarrow> unat (attributed_delay_ms ew) \<le> B" "joint_delays E K K' \<noteq> {}"
  shows "unat (Max (joint_delays E K K')) \<le> B"
proof -
  have "finite (joint_delays E K K')"
    by (rule finite_subset [of _ "(\<lambda>(s, d, ew). attributed_delay_ms ew) ` set E"]) (force simp: joint_delays_def)+
  from Max_in [OF this assms(2)] show ?thesis
    using assms(1) by (auto simp: joint_delays_def)
qed

text \<open>A path descends through the components, which the graph library returns sinks first, so it
  has at most as many nodes as there are threads.\<close>

lemma components_le: "distinct (concat cs) \<Longrightarrow> [] \<notin> set cs \<Longrightarrow> length cs \<le> card (set (concat cs))"
proof (induction cs)
  case (Cons c cs)
  then have "card (set (concat (c # cs))) = length (concat (c # cs))"
    by (metis distinct_card)
  moreover have "card (set (concat cs)) = length (concat cs)"
    using Cons.prems(1) by (intro distinct_card) simp
  moreover have "Suc 0 \<le> length c"
    using Cons.prems(2) by (cases c) simp_all
  moreover have "length cs \<le> card (set (concat cs))"
    using Cons by simp
  ultimately show ?case
    by (simp del: set_concat)
qed simp

lemma dag_path_length:
  assumes "dag_path W D p w" "\<forall>(i, j, x) \<in> set D. j < i"
  shows "length p \<le> length W"
proof -
  have "sorted_wrt (<) p"
    using assms(1)
  proof induction
    case (step v r w u e)
    then have "u < v"
      using assms(2) by blast
    then show ?case
      using step.IH by auto
  qed simp
  then have "distinct p"
    by (simp add: strict_sorted_iff)
  moreover have "set p \<subseteq> {..<length W}"
    using dag_path_nodes [OF assms(1)] by auto
  ultimately show ?thesis
    using distinct_card [of p] card_mono [of "{..<length W}" "set p"] by simp
qed

lemma dag_path_weight:
  assumes "dag_path W D p w" "\<forall>x \<in> set W. unat x \<le> B" "\<forall>(i, j, x) \<in> set D. unat x \<le> B"
  shows "w + B \<le> 2 * length p * B"
  using assms(1)
proof induction
  case (single u)
  then show ?case
    using assms(2) by auto
next
  case (step v r w u e)
  then have "unat e \<le> B" "unat (W ! u) \<le> B"
    using assms(2,3) by auto
  then show ?case
    using step.IH by (simp add: algebra_simps)
qed

section \<open>The critical path of a graph\<close>

context scc_graph
begin

lemma weighted_condensation:
  assumes "wfg_inv api g" "tarjan_ok api (graph g) (tarjan (graph g))"
  obtains c0 c cs where "build_condensation api dapi tarjan g = Some c0" "apply_max_heuristic api dapi g c0 = Some c"
    "sccs_ok (wait_rel api g) (wfg_threads g) cs" "map sn_members (pg_nodes dapi (dag c)) = cs"
    "condensation_of (wfg_edges api g) cs (dag_weights dapi c) (pg_edges dapi (dag c))"
    "\<forall>(i, j, w) \<in> set (pg_edges dapi (dag c)). j < i"
proof -
  let ?E = "wfg_edges api g"
  obtain c0 cs where c0: "build_condensation api dapi tarjan g = Some c0"
    and cs: "sccs_ok (wait_rel api g) (wfg_threads g) cs" "condensed dapi ?E cs c0"
    using build_condensation_ok [where tarjan = tarjan, OF assms] by blast
  obtain c where c: "apply_max_heuristic api dapi g c0 = Some c" "pg_edges dapi (dag c) = pg_edges dapi (dag c0)"
    "pg_nodes dapi (dag c) = map (\<lambda>(i, ms). \<lparr>scc_index = i, sn_members = ms, weight = heuristic_spec ?E ms\<rparr>)
       (enumerate 0 cs)"
    by (rule apply_max_heuristic_eq [OF assms(1) cs])
  have "map sn_members (pg_nodes dapi (dag c)) = cs"
    by (simp add: c(3) comp_def split_beta')
  moreover have "dag_weights dapi c = map (heuristic_spec ?E) cs"
    by (simp add: dag_weights_def c(3) comp_def split_beta' flip: map_map [of _ snd, unfolded comp_def])
  then have W: "dag_weights dapi c = map (\<lambda>ms. class_weight ?E (set ms)) cs"
    using sccs_okD(5) [OF cs(1)] by (simp add: heuristic_spec_class)
  have "condensation_of ?E cs (dag_weights dapi c) (pg_edges dapi (dag c))"
    using cs(2) unfolding condensation_of_def W c(2) joint_cross_delays set_empty condensed_def by blast
  moreover have "\<forall>(i, j, w) \<in> set (pg_edges dapi (dag c)). j < i"
    using condensed_edge_less [OF cs] by (auto simp: c(2))
  ultimately show thesis
    using that [OF c0 c(1) cs(1)] by blast
qed

lemma critical_path_chain:
  assumes "wfg_inv api g" "tarjan_ok api (graph g) (tarjan (graph g))" "\<And>d. toposort_ok dapi d (toposort d)"
    and "\<And>s d ew. (s, d, ew) \<in> set (wfg_edges api g) \<Longrightarrow> unat (attributed_delay_ms ew) \<le> B"
    and "2 * card (wfg_threads g) * B < 2 ^ 64"
  obtains c0 c cp where "build_condensation api dapi tarjan g = Some c0" "apply_max_heuristic api dapi g c0 = Some c"
    "critical_path_dp dapi toposort c = Some cp" "critical_chain (wfg_edges api g) (wfg_threads g) cp"
proof -
  let ?E = "wfg_edges api g" and ?T = "wfg_threads g"
  obtain c0 c cs where c: "build_condensation api dapi tarjan g = Some c0" "apply_max_heuristic api dapi g c0 = Some c"
    "sccs_ok (wait_rel api g) ?T cs" "map sn_members (pg_nodes dapi (dag c)) = cs"
    "condensation_of ?E cs (dag_weights dapi c) (pg_edges dapi (dag c))"
    "\<forall>(i, j, w) \<in> set (pg_edges dapi (dag c)). j < i"
    by (rule weighted_condensation [where tarjan = tarjan, OF assms(1,2)])
  let ?W = "dag_weights dapi c" and ?D = "pg_edges dapi (dag c)"
  have n: "pg_node_count dapi (dag c) = length cs" "length ?W = length cs"
    using arg_cong [OF c(4), of length] condensation_nodes [OF c(5)] by simp_all
  have bound: "w < 2 ^ 64" if path: "dag_path ?W ?D p w" for p w
  proof -
    have "\<forall>x \<in> set ?W. unat x \<le> B"
      unfolding condensation_nodes [OF c(5)] using class_weight_le [of ?E, OF assms(4)] by auto
    moreover have "\<forall>(i, j, x) \<in> set ?D. unat x \<le> B"
      using condensation_edges [OF c(5)] joint_delay_le [of ?E, OF assms(4)] by auto
    ultimately have "w + B \<le> 2 * length p * B"
      by (rule dag_path_weight [OF path])
    also have "\<dots> \<le> 2 * card ?T * B"
      using dag_path_length [OF path c(6)] components_le [of cs] sccs_okD(1-3) [OF c(3)] n(2)
      by (intro mult_le_mono) simp_all
    also note assms(5)
    finally show ?thesis
      by (rule add_lessD1)
  qed
  show thesis
  proof (cases "?T = {}")
    case True
    then have "pg_node_count dapi (dag c) = 0"
      using sccs_okD(2,3) [OF c(3)] n by (cases cs) auto
    then show thesis
      using that [OF c(1,2), of None] True by (simp add: critical_path_dp_empty critical_chain_def)
  next
    case False
    then have "0 < pg_node_count dapi (dag c)"
      using sccs_okD(3) [OF c(3)] n by (cases cs) auto
    moreover have "\<forall>(v, u, w) \<in> set ?D. v < pg_node_count dapi (dag c) \<and> u < pg_node_count dapi (dag c)"
      using condensation_edges [OF c(5)] n by auto
    moreover have "acyclic (pg_rel dapi (dag c))"
      using c(6) by (intro acyclic_descending) (auto simp: pg_rel_def)
    ultimately have "\<exists>cp p. critical_path_dp dapi toposort c = Some (Some cp) \<and>
      dag_path ?W ?D (rev p) (unat (total_weight cp)) \<and>
      chain cp = map (\<lambda>i. \<lparr>cp_members = sn_members (pg_nodes dapi (dag c) ! i),
        cp_weight = weight (pg_nodes dapi (dag c) ! i)\<rparr>) p \<and>
      (\<forall>q w. dag_path ?W ?D q w \<longrightarrow> w \<le> unat (total_weight cp))"
      using bound by (intro dag_graph.critical_path_ok [OF dag_graph.intro [OF dg.petgraph_axioms]] assms(3)) blast+
    then obtain cp p where cp: "critical_path_dp dapi toposort c = Some (Some cp)"
      "dag_path ?W ?D (rev p) (unat (total_weight cp))"
      "chain cp = map (\<lambda>i. \<lparr>cp_members = sn_members (pg_nodes dapi (dag c) ! i),
        cp_weight = weight (pg_nodes dapi (dag c) ! i)\<rparr>) p"
      "\<And>q w. dag_path ?W ?D q w \<Longrightarrow> w \<le> unat (total_weight cp)"
      by (elim exE conjE) (rule that, assumption+, blast)
    note sccs = c(3) [unfolded wait_rel_def]
    have p: "i < length cs" "sn_members (pg_nodes dapi (dag c) ! i) = cs ! i"
      "weight (pg_nodes dapi (dag c) ! i) = class_weight ?E (set (cs ! i))" if "i \<in> set p" for i
    proof -
      show i: "i < length cs"
        using dag_path_nodes [OF cp(2)] that n(2) by simp
      show "sn_members (pg_nodes dapi (dag c) ! i) = cs ! i"
        using i n(1) arg_cong [OF c(4), of "\<lambda>xs. xs ! i"] by simp
      show "weight (pg_nodes dapi (dag c) ! i) = class_weight ?E (set (cs ! i))"
        using i n(1) arg_cong [OF condensation_nodes [OF c(5)], of "\<lambda>xs. xs ! i"] by (simp add: dag_weights_def)
    qed
    have "rev (map (\<lambda>n. set (cp_members n)) (chain cp)) = map (\<lambda>i. set (cs ! i)) (rev p)"
      using p(2) by (simp add: cp(3) rev_map)
    then have "wait_chain ?E ?T (rev (map (\<lambda>n. set (cp_members n)) (chain cp))) (unat (total_weight cp))"
      using path_is_chain [OF sccs c(5) cp(2)] by simp
    moreover have "w \<le> unat (total_weight cp)" if "wait_chain ?E ?T Ks w" for Ks w
      using chain_is_path [OF sccs c(5) that] cp(4) by blast
    moreover have "\<forall>n \<in> set (chain cp). cp_weight n = class_weight ?E (set (cp_members n))"
      using p by (auto simp: cp(3))
    ultimately show thesis
      using that [OF c(1,2) cp(1)] False by (simp add: critical_chain_def)
  qed
qed

end

section \<open>The waits of a trace\<close>

text \<open>Timestamps are nanoseconds in 64 bits, so no wait is longer than 2^64 / 10^6 ms.\<close>

lemma unat_ms_le: "unat ((x :: u64) div 1000000) \<le> 18446744073709"
proof -
  have "unat x div 1000000 \<le> (2 ^ 64 - 1) div 1000000"
    using unat_u64_less [of x] by (intro div_le_mono) simp
  then show ?thesis
    by (simp add: unat_div_distrib)
qed

lemma window_le:
  "unat (duration (TimeWindow_new ((a :: u64) div 1000000) (a div 1000000 + b div 1000000))) \<le> 18446744073709"
  "unat (duration (TimeWindow_new (a div 1000000) (max (b div 1000000) (a div 1000000)))) \<le> 18446744073709"
proof -
  have "unat (a div 1000000 + b div 1000000) = unat (a div 1000000) + unat (b div 1000000)"
    using unat_ms_le [of a] unat_ms_le [of b] by (intro unat_plus_no_wrap) simp
  then show "unat (duration (TimeWindow_new (a div 1000000) (a div 1000000 + b div 1000000))) \<le> 18446744073709"
    using unat_duration [OF window_ok_new [THEN iffD2, OF ms_window_ok [of a b]]] unat_ms_le [of b] by simp
  have "unat (duration (TimeWindow_new (a div 1000000) (max (b div 1000000) (a div 1000000)))) \<le>
      unat (max (b div 1000000) (a div 1000000))"
    using unat_duration [OF window_ok_new [THEN iffD2, OF max.cobounded2]] by simp
  then show "unat (duration (TimeWindow_new (a div 1000000) (max (b div 1000000) (a div 1000000)))) \<le> 18446744073709"
    using unat_ms_le [of a] unat_ms_le [of b] by (auto simp: max_def split: if_splits)
qed

context wfg_graph
begin

text \<open>Every edge is a wait or comes from a pair of IO events.\<close>

lemma edge_origin:
  assumes "drain_ok drain" "correlate_events api drain events thr = Some (g, st)" "(s, d, ew) \<in> set (wfg_edges api g)"
  obtains t where "is_wait t events (s, d, ew)" "raw_wait_ms ew = duration (time_window ew)"
  | "(s, d, ew) \<in> set (io_edges events)" "raw_wait_ms ew = duration (time_window ew)"
proof -
  have g: "graph_ok api g" "\<And>t. emitted t (wfg_edges api g) = thread_edges thr t events"
    using correlate_events_ok [OF assms(1), of events thr] assms(2) by auto
  have shape: "edge_shape (s, d, ew)"
    using g(1) assms(3) by (auto simp: graph_ok_def list_all_iff)
  then have raw: "raw_wait_ms ew = duration (time_window ew)"
    by (simp add: edge_shape_def edge_ok_def)
  show thesis
  proof (cases "wait_type ew = Some IoBlock")
    case True
    then have "(s, d, ew) \<in> set (io_only (wfg_edges api g))"
      using assms(3) by (simp add: io_only_def)
    then show thesis
      using that(2) correlate_events_io [OF assms(1,2)] raw by simp
  next
    case False
    then obtain t where "s = user_thread t"
      using shape by (auto simp: edge_shape_def split: if_splits)
    then have "(s, d, ew) \<in> set (emitted t (wfg_edges api g))"
      using assms(3) False by (simp add: emitted_def)
    then have "is_wait t events (s, d, ew)"
      unfolding g(2) using sound_run [of t events thr] by (auto simp: sound_def thread_edges_def)
    then show thesis
      using that(1) raw by blast
  qed
qed

lemma correlate_wait_le:
  assumes "drain_ok drain" "correlate_events api drain events thr = Some (g, st)" "(s, d, ew) \<in> set (wfg_edges api g)"
  shows "unat (raw_wait_ms ew) \<le> 18446744073709"
  by (rule edge_origin [OF assms])
    (auto simp: is_wait_def window_le io_edges_def io_pair_def Let_def split: if_splits option.splits)

end

section \<open>The threads of a trace\<close>

text \<open>Every node of the graph is the end of an edge.\<close>

definition endpoints :: "(ThreadId \<times> ThreadId \<times> EdgeWeight) list \<Rightarrow> ThreadId set" where
  "endpoints E = fst ` set E \<union> (\<lambda>x. fst (snd x)) ` set E"

lemma endpoints_simps [simp]:
  "endpoints [] = {}" "endpoints (E @ F) = endpoints E \<union> endpoints F"
  "endpoints ((s, d, ew) # E) = insert s (insert d (endpoints E))"
  by (auto simp: endpoints_def)

lemma endpoints_pe_edge [simp]: "endpoints [pe_edge pe] = {pe_src pe, pe_dst pe}"
  by (auto simp: endpoints_def)

definition spanned :: "'g wfg_api \<Rightarrow> 'g WaitForGraph \<Rightarrow> bool" where
  "spanned api g \<longleftrightarrow> wfg_threads g = endpoints (wfg_edges api g)"

context wfg_graph
begin

lemma spanned_add:
  assumes "graph_ok api (c_graph s)" "pe_src pe = user_thread a" "pe_dst pe = user_thread b"
    "window_ok (pe_window pe)" "pe_wait_type pe \<noteq> Some IoBlock" "spanned api (c_graph s)"
    "add_edge_from_pending api pe s = Some s'"
  shows "spanned api (c_graph s')"
  using add_edge_from_pending_ok [OF assms(1-5)] assms(6,7) by (auto simp: spanned_def)

lemma spanned_commit:
  assumes "ready api s" "Mapping.lookup (pending_edges s) t = Some pe" "spanned api (c_graph s)"
    "add_edge_from_pending api pe (s\<lparr>pending_edges := Mapping.delete t (pending_edges s)\<rparr>) = Some s'"
  shows "spanned api (c_graph s')"
proof -
  obtain b where pe: "pe_src pe = user_thread t" "pe_dst pe = user_thread b" "pe_wait_type pe \<noteq> Some IoBlock"
    "window_ok (pe_window pe)"
    using readyD(4) [OF assms(1,2)] by blast
  show ?thesis
    by (rule spanned_add [OF _ pe(1,2,4,3) _ assms(4)]) (use readyD(1) [OF assms(1)] assms(3) in simp_all)
qed

lemma spanned_resolve:
  assumes "ready api s" "spanned api (c_graph s)" "resolve_pending api thr e s = Some s'"
  shows "spanned api (c_graph s')"
proof (cases "prev_tid e = 0 \<or> Mapping.lookup (pending_edges s) (prev_tid e) = None")
  case True
  then show ?thesis
    using assms(2,3) by (auto simp: resolve_pending_def split: if_splits)
next
  case False
  then obtain pe where pe: "prev_tid e \<noteq> 0" "Mapping.lookup (pending_edges s) (prev_tid e) = Some pe"
    by auto
  then show ?thesis
    using assms(2,3) spanned_commit [OF assms(1) pe(2)] by (auto simp: resolve_pending_def Let_def split: if_splits)
qed

lemma switch_graph: "c_graph (switch_in e s) = c_graph s" "c_graph (switch_out e s) = c_graph s"
  by (simp_all add: switch_in_def switch_out_def Let_def split: option.split)

lemma spanned_event:
  assumes "ready api s" "spanned api (c_graph s)" "correlate_event api thr e s = Some s'"
  shows "spanned api (c_graph s')"
proof -
  let ?s = "upd_stats (\<lambda>st. st\<lparr>events_processed := events_processed st + 1\<rparr>) s"
  have r: "ready api ?s" "spanned api (c_graph ?s)"
    using assms(1,2) by simp_all
  show ?thesis
  proof (cases "EventType_from_u8 (event_type e)")
    case None
    then show ?thesis
      using assms(2,3) by (auto simp: correlate_event_def)
  next
    case (Some ty)
    have wakeup: "c_graph (handle_wakeup e ?s) = c_graph s"
      by (simp add: handle_wakeup_def Let_def split: option.split)
    show ?thesis
    proof (cases ty)
      case Switch
      then obtain s1 where s1: "resolve_pending api thr e ?s = Some s1" "s' = switch_in e (switch_out e s1)"
        using assms(3) Some by (auto simp: correlate_event_def handle_switch_def)
      then show ?thesis
        using spanned_resolve [OF r s1(1)] by (simp add: switch_graph)
    next
      case Exit
      then obtain s1 where s1: "commit_pending_edge api (tid e) ?s = Some s1" "c_graph s' = c_graph s1"
        using assms(3) Some by (auto simp: correlate_event_def)
      then show ?thesis
        using spanned_commit [OF r(1), of "tid e"] r(2) by (auto simp: commit_pending_edge_def split: option.splits)
    next
      case IoComplete
      then have run: "handle_io_complete api e ?s = Some s'"
        using assms(3) Some by (simp add: correlate_event_def)
      show ?thesis
      proof (cases "Mapping.lookup (pending_io ?s) (IoKey_from_event e)")
        case None
        then show ?thesis
          using run assms(2) by (auto simp: handle_io_complete_def)
      next
        case (Some p)
        show ?thesis
          using io_complete_step [OF readyD(1) [OF r(1)] Some] run r(2) by (auto simp: spanned_def)
      qed
    qed (use assms(2,3) Some wakeup in \<open>auto simp: correlate_event_def handle_io_issue_def handle_futex_wait_def Let_def\<close>)
  qed
qed

lemma spanned_drain:
  assumes "graph_ok api (c_graph s)" "spanned api (c_graph s)"
    and "\<And>k pe. (k, pe) \<in> set D \<Longrightarrow> pe_src pe = user_thread k \<and> (\<exists>w. pe_dst pe = user_thread w) \<and>
      pe_wait_type pe \<noteq> Some IoBlock \<and> window_ok (pe_window pe)"
    and "foldM (\<lambda>(_, pe). add_edge_from_pending api pe) D s = Some s'"
  shows "spanned api (c_graph s')"
  using assms
proof (induction D arbitrary: s)
  case (Cons p D)
  obtain k pe where p: "p = (k, pe)" by fastforce
  obtain b where pe: "pe_src pe = user_thread k" "pe_dst pe = user_thread b" "window_ok (pe_window pe)"
    "pe_wait_type pe \<noteq> Some IoBlock"
    using Cons.prems(3) [of k pe] p by auto
  obtain s1 where s1: "add_edge_from_pending api pe s = Some s1"
    "foldM (\<lambda>(_, pe). add_edge_from_pending api pe) D s1 = Some s'"
    using Cons.prems(4) by (auto simp: p bind_eq_Some_conv)
  show ?case
  proof (rule Cons.IH [OF _ _ _ s1(2)])
    show "graph_ok api (c_graph s1)"
      using add_edge_from_pending_ok [OF Cons.prems(1) pe] s1(1) by auto
    show "spanned api (c_graph s1)"
      by (rule spanned_add [OF Cons.prems(1) pe Cons.prems(2) s1(1)])
  qed (use Cons.prems(3) in auto)
qed simp

lemma correlate_spanned:
  assumes "drain_ok drain" "correlate_events api drain events thr = Some (g, st)"
  shows "spanned api g"
proof -
  have "foldM (correlate_event api thr) [] (Correlator_init api) = Some (Correlator_init api)"
    by simp
  then have init: "ready api (Correlator_init api)"
    using correlate_loop [of thr "[]"] by simp
  have "spanned api (c_graph (Correlator_init api))"
    by (simp add: spanned_def Correlator_init_def new_wfg)
  moreover have "\<exists>s'. correlate_event api thr e s = Some s' \<and> ready api s' \<and> spanned api (c_graph s')"
    if "ready api s \<and> spanned api (c_graph s)" for e s
    using correlate_event_ok [of s thr e] spanned_event [of s thr e] that by blast
  ultimately obtain s where s: "foldM (correlate_event api thr) events (Correlator_init api) = Some s" "ready api s"
    "spanned api (c_graph s)"
    using foldM_history [of "\<lambda>_ s. ready api s \<and> spanned api (c_graph s)" "correlate_event api thr" "[]"] init
    by (metis (no_types, lifting) append_Nil)
  note r = readyD [OF s(2)]
  let ?D = "drain (pending_edges s)"
  have D: "(k, pe) \<in> set ?D \<longleftrightarrow> Mapping.lookup (pending_edges s) k = Some pe" for k pe
    using assms(1) r(2) by (simp add: drain_ok_def)
  obtain s' where s': "foldM (\<lambda>(_, pe). add_edge_from_pending api pe) ?D s = Some s'" "g = c_graph s'"
    using assms(2) s(1) by (auto simp: correlate_events_def bind_eq_Some_conv)
  show ?thesis
    unfolding s'(2) by (rule spanned_drain [OF r(1) s(3) _ s'(1)]) (use D r(4) in blast)
qed

end

text \<open>So every thread is the disk or one that an event names.\<close>

definition named_threads :: "WperfEvent list \<Rightarrow> ThreadId set" where
  "named_threads es = insert (ThreadId DISK_TID) (user_thread ` (tid ` set es \<union> prev_tid ` set es \<union> next_tid ` set es))"

lemma card_named_threads: "card (named_threads es) \<le> 3 * length es + 1"
proof -
  have "card (f ` set es) \<le> length es" for f :: "WperfEvent \<Rightarrow> u32"
    using card_image_le [of "set es" f] card_length [of es] by simp
  from this [of tid] this [of prev_tid] this [of next_tid]
  have "card (tid ` set es \<union> prev_tid ` set es \<union> next_tid ` set es) \<le> 3 * length es"
    using card_Un_le [of "tid ` set es \<union> prev_tid ` set es" "next_tid ` set es"] card_Un_le [of "tid ` set es" "prev_tid ` set es"]
    by linarith
  moreover have "card (user_thread ` (tid ` set es \<union> prev_tid ` set es \<union> next_tid ` set es)) \<le>
      card (tid ` set es \<union> prev_tid ` set es \<union> next_tid ` set es)"
    by (intro card_image_le) simp
  ultimately show ?thesis
    unfolding named_threads_def using card_insert_le_m1 by (simp add: card_insert_if)
qed

lemma open_issue_in: "open_issue k es = Some i \<Longrightarrow> i \<in> set es"
  by (auto simp: open_issue_def find_Some_iff split: option.splits if_splits) (metis nth_mem set_rev length_rev)

lemma last_waker_in: "last_waker t es = Some w \<Longrightarrow> \<exists>e \<in> set es. w = prev_tid e"
  by (induction es rule: rev_induct) (auto split: if_splits)

lemma is_wait_named: "is_wait t es (s, d, ew) \<Longrightarrow> s \<in> named_threads es \<and> d \<in> named_threads es"
  using last_waker_in by (fastforce simp: is_wait_def named_threads_def comes_on_def)

lemma io_edges_named: "(s, d, ew) \<in> set (io_edges es) \<Longrightarrow> s \<in> named_threads es \<and> d \<in> named_threads es"
proof -
  assume "(s, d, ew) \<in> set (io_edges es)"
  then obtain n i where "open_issue (IoKey_from_event (es ! n)) (take n es) = Some i"
    "s = user_thread (tid i) \<and> d = ThreadId DISK_TID \<or> s = ThreadId DISK_TID \<and> d = user_thread (tid i)"
    by (auto simp: io_edges_def io_pair_def Let_def user_thread_def intro: that [OF sym] split: if_splits option.splits)
  moreover from open_issue_in [OF this(1)] have "i \<in> set es"
    by (rule in_set_takeD)
  ultimately show ?thesis
    by (auto simp: named_threads_def)
qed

context wfg_graph
begin

lemma threads_named:
  assumes "drain_ok drain" "correlate_events api drain events thr = Some (g, st)"
  shows "wfg_threads g \<subseteq> named_threads events" "card (wfg_threads g) \<le> 3 * length events + 1"
proof -
  have "s \<in> named_threads events \<and> d \<in> named_threads events" if "(s, d, ew) \<in> set (wfg_edges api g)" for s d ew
    by (rule edge_origin [OF assms that]) (simp_all add: is_wait_named io_edges_named)
  then show sub: "wfg_threads g \<subseteq> named_threads events"
    using correlate_spanned [OF assms] by (auto simp: spanned_def endpoints_def)
  have "finite (named_threads events)"
    by (simp add: named_threads_def)
  from card_mono [OF this sub] show "card (wfg_threads g) \<le> 3 * length events + 1"
    using card_named_threads [of events] by simp
qed

end

section \<open>The critical path of the report\<close>

lemma analyse_graph_chain:
  assumes "libs_ok L" "wfg_inv (l_api L) g" "card (wfg_threads g) \<le> 500000"
    and "\<And>s d ew. (s, d, ew) \<in> set (wfg_edges (l_api L) g) \<Longrightarrow> unat (raw_wait_ms ew) \<le> 18446744073709"
    and "analyse_graph L g st md = Some (Inr out)"
  obtains r where "cascade_engine (l_api L) g None = Some (Inr r)"
    "wfg_edges (l_api L) r = map (attribute (wfg_edges (l_api L) g) (effective_depth None)) (wfg_edges (l_api L) g)"
    "wfg_threads r = wfg_threads g" "critical_chain (wfg_edges (l_api L) r) (wfg_threads r) (critical_path out)"
proof -
  have lib: "petgraph (l_api L)" "petgraph (l_dapi L)" "\<And>x. tarjan_ok (l_api L) x (l_tarjan L x)"
    "\<And>d. toposort_ok (l_dapi L) d (l_toposort L d)"
    using assms(1) by (simp_all add: libs_ok_def)
  note wg = wfg_graph.intro [OF lib(1)]
  note sg = scc_graph.intro [OF wg lib(2)]
  obtain r where r: "cascade_engine (l_api L) g None = Some (Inr r)" "wfg_inv (l_api L) r"
    "wfg_edges (l_api L) r = map (attribute (wfg_edges (l_api L) g) (effective_depth None)) (wfg_edges (l_api L) g)"
    "wfg_threads r = wfg_threads g" "wfg_kind (l_api L) r = wfg_kind (l_api L) g"
    "check_non_amplification (l_api L) r = Some True" "check_locality (l_api L) g r = Some True"
    by (rule wfg_graph.cascade_engine_eq [OF wg assms(2)])
  have B: "unat (attributed_delay_ms ew) \<le> 18446744073709" if e: "(s, d, ew) \<in> set (wfg_edges (l_api L) r)" for s d ew
  proof -
    obtain ew' where ew': "(s, d, ew') \<in> set (wfg_edges (l_api L) g)"
      "ew = set_attribution (attributed_delay (wfg_edges (l_api L) g) (effective_depth None) (s, d, ew')) ew'"
      using e by (auto simp: r(3) attribute_def)
    then show ?thesis
      using assms(4) [OF ew'(1)] attributed_le_raw [of "wfg_edges (l_api L) g" "effective_depth None" s d ew']
      by (simp add: word_le_nat_alt)
  qed
  have "2 * card (wfg_threads r) * 18446744073709 < 2 ^ 64"
    using assms(3) by (simp add: r(4))
  then obtain c0 c cp where "build_condensation (l_api L) (l_dapi L) (l_tarjan L) r = Some c0"
    "apply_max_heuristic (l_api L) (l_dapi L) r c0 = Some c" "critical_path_dp (l_dapi L) (l_toposort L) c = Some cp"
    and cp: "critical_chain (wfg_edges (l_api L) r) (wfg_threads r) cp"
    using scc_graph.critical_path_chain [where tarjan = "l_tarjan L" and toposort = "l_toposort L", OF sg r(2) lib(3,4)] B
    by metis
  then have "critical_path out = cp"
    using assms(5) r(1) by (auto simp: analyse_graph_def bind_eq_Some_conv Let_def)
  then show thesis
    using that [OF r(1,3,4)] cp by simp
qed

lemma trace_report_success:
  assumes "libs_ok L" "trace_report L thr bytes = Some (Inr out)"
  obtains evs g st md where "read_trace bytes = Inr evs"
    "correlate_events (l_api L) (l_drain L) (sort_events evs) thr = Some (g, st)" "wfg_inv (l_api L) g"
    "analyse_graph L g \<lparr>events_read = of_nat (length evs), correlation = st\<rparr> md = Some (Inr out)"
proof -
  obtain r d where open': "WperfReader_open (file_of bytes) = (Inr r, d)"
    using assms(2) by (cases "WperfReader_open (file_of bytes)"; cases "fst (WperfReader_open (file_of bytes))")
      (simp_all add: trace_report_def)
  obtain evs where evs: "read_trace bytes = Inr evs"
    using trace_report_unreadable(1) [OF open', of _ L thr] assms(2) by (cases "read_trace bytes") auto
  obtain g st where g: "correlate_events (l_api L) (l_drain L) (sort_events evs) thr = Some (g, st)" "wfg_inv (l_api L) g"
    "trace_report L thr bytes = (case read_trace_metadata bytes of
        Inl e \<Rightarrow> Some (Inl (ReportPipeline (PipelineReader e)))
      | Inr md \<Rightarrow> analyse_graph L g \<lparr>events_read = of_nat (length evs), correlation = st\<rparr> md)"
    by (rule trace_report_eq [OF assms(1) evs])
  then show thesis
    using that [OF evs] assms(2) by (cases "read_trace_metadata bytes") auto
qed

lemma report_chain:
  assumes "libs_ok L" "correlate_events (l_api L) (l_drain L) events thr = Some (g, st)" "wfg_inv (l_api L) g"
    "analyse_graph L g pst md = Some (Inr out)" "gm_node_count (graph_metrics (cascade out)) \<le> 500000"
  obtains r where "cascade_engine (l_api L) g None = Some (Inr r)"
    "wfg_edges (l_api L) r = map (attribute (wfg_edges (l_api L) g) (effective_depth None)) (wfg_edges (l_api L) g)"
    "wfg_threads r = wfg_threads g" "critical_chain (wfg_edges (l_api L) r) (wfg_threads r) (critical_path out)"
proof -
  have lib: "petgraph (l_api L)" "drain_ok (l_drain L)"
    using assms(1) by (simp_all add: libs_ok_def)
  obtain r where "cascade_engine (l_api L) g None = Some (Inr r)" "CascadeResult_from_graph (l_api L) g r = Some (cascade out)"
    using analyse_graph_ok [OF assms(1,3), of pst md] assms(4) by auto
  from graph_metrics_nodes [OF lib(1) assms(3) this] have "card (wfg_threads g) \<le> 500000"
    using assms(5) by simp
  from analyse_graph_chain [OF assms(1,3) this _ assms(4)]
    wfg_graph.correlate_wait_le [OF wfg_graph.intro [OF lib(1)] lib(2) assms(2)]
  show thesis using that by metis
qed

section \<open>Properties\<close>

text \<open>Property C4. On a trace of at most half a million threads the critical path of the report is
  the heaviest chain of waits of the whole program, stated on the wait-for graph of the trace
  after the cascade and not on its condensation: there is none exactly when the graph is
  empty; otherwise its nodes are classes of mutually waiting threads, each waits for the
  next, its total is the sum of the weights of the classes and of the heaviest delays
  between them, computed without overflow, and no chain weighs more.\<close>

theorem report_critical_path:
  assumes "libs_ok L" "trace_report L thr bytes = Some (Inr out)"
    "gm_node_count (graph_metrics (cascade out)) \<le> 500000"
  shows "\<exists>evs g st r. read_trace bytes = Inr evs \<and>
    correlate_events (l_api L) (l_drain L) (sort_events evs) thr = Some (g, st) \<and>
    cascade_engine (l_api L) g None = Some (Inr r) \<and>
    (case critical_path out of
       None \<Rightarrow> wfg_threads r = {}
     | Some path \<Rightarrow> wfg_threads r \<noteq> {} \<and>
         wait_chain (wfg_edges (l_api L) r) (wfg_threads r)
           (rev (map (\<lambda>n. set (cp_members n)) (chain path))) (unat (total_weight path)) \<and>
         (\<forall>Ks w. wait_chain (wfg_edges (l_api L) r) (wfg_threads r) Ks w \<longrightarrow> w \<le> unat (total_weight path)) \<and>
         (\<forall>n \<in> set (chain path). cp_weight n = class_weight (wfg_edges (l_api L) r) (set (cp_members n))))"
proof -
  obtain evs g st md where g: "read_trace bytes = Inr evs"
    "correlate_events (l_api L) (l_drain L) (sort_events evs) thr = Some (g, st)" "wfg_inv (l_api L) g"
    "analyse_graph L g \<lparr>events_read = of_nat (length evs), correlation = st\<rparr> md = Some (Inr out)"
    by (rule trace_report_success [OF assms(1,2)])
  obtain r where "cascade_engine (l_api L) g None = Some (Inr r)"
    "critical_chain (wfg_edges (l_api L) r) (wfg_threads r) (critical_path out)"
    by (rule report_chain [OF assms(1) g(2-4) assms(3)])
  with g(1,2) show ?thesis
    unfolding critical_chain_def by blast
qed

text \<open>The trace of the demonstration: a sleep and a block read.\<close>

lemma demo_report:
  obtains out g st where "trace_report demo_libs 50000 demo_file = Some (Inr out)"
    "correlate_events adj_api mapping_entries demo_trace 50000 = Some (g, st)"
    "gm_node_count (graph_metrics (cascade out)) \<le> 500000" "critical_path out \<noteq> None"
proof -
  have sel: "l_api demo_libs = adj_api" "l_drain demo_libs = mapping_entries"
    by (simp_all add: demo_libs_def)
  obtain g st where g: "correlate_events adj_api mapping_entries demo_trace 50000 = Some (g, st)" "wfg_inv adj_api g"
    "trace_report demo_libs 50000 demo_file = (case read_trace_metadata demo_file of
        Inl e \<Rightarrow> Some (Inl (ReportPipeline (PipelineReader e)))
      | Inr md \<Rightarrow> analyse_graph demo_libs g \<lparr>events_read = of_nat (length (rev demo_trace)), correlation = st\<rparr> md)"
    by (rule trace_report_eq [OF demo_libs_ok demo_file_ok, where thr = 50000]) (simp only: sel sort_demo_trace)
  note wg = wfg_graph.intro [OF adj.petgraph_axioms]
  have small: "card (wfg_threads g) \<le> 500000"
    using wfg_graph.threads_named(2) [OF wg drain_ok_entries g(1)] by (simp add: demo_trace_def)
  have "emitted 7 (wfg_edges adj_api g) = [(ThreadId 7, ThreadId 9, EdgeWeight_new (TimeWindow_new 1 4))]"
    using demo_emitted [of 7] g(1) by (simp add: demo_graph_def demo_edges)
  then have "(ThreadId 7, ThreadId 9, EdgeWeight_new (TimeWindow_new 1 4)) \<in> set (wfg_edges adj_api g)"
    unfolding emitted_def by (metis (no_types, lifting) filter_is_subset list.set_intros(1) subsetD)
  then have busy: "wfg_threads g \<noteq> {}"
    using wfg_graph.edges_in_threads(1) [OF wg g(2)] by blast
  obtain out r where out: "trace_report demo_libs 50000 demo_file = Some (Inr out)" "cascade_engine adj_api g None = Some (Inr r)"
    "CascadeResult_from_graph adj_api g r = Some (cascade out)" "critical_path out = None \<longleftrightarrow> wfg_threads g = {}"
    using analyse_graph_ok [OF demo_libs_ok, unfolded sel, OF g(2)] unfolding g(3) demo_file_metadata sum.case by metis
  have "gm_node_count (graph_metrics (cascade out)) \<le> 500000"
    using graph_metrics_nodes [OF adj.petgraph_axioms g(2) out(2,3)] small by simp
  then show thesis
    using that out(1,4) g(1) busy by blast
qed

lemma report_critical_path_witness:
  "\<exists>out path g st r. trace_report demo_libs 50000 demo_file = Some (Inr out) \<and> critical_path out = Some path \<and>
    correlate_events adj_api mapping_entries demo_trace 50000 = Some (g, st) \<and> cascade_engine adj_api g None = Some (Inr r) \<and>
    wait_chain (wfg_edges adj_api r) (wfg_threads r) (rev (map (\<lambda>n. set (cp_members n)) (chain path)))
      (unat (total_weight path))"
proof -
  have sel: "l_api demo_libs = adj_api" "l_drain demo_libs = mapping_entries"
    by (simp_all add: demo_libs_def)
  obtain out where out: "trace_report demo_libs 50000 demo_file = Some (Inr out)"
    "gm_node_count (graph_metrics (cascade out)) \<le> 500000" "critical_path out \<noteq> None"
    by (rule demo_report)
  then obtain path where path: "critical_path out = Some path"
    by blast
  from report_critical_path [OF demo_libs_ok out(1,2)] obtain g st r where
    "correlate_events adj_api mapping_entries demo_trace 50000 = Some (g, st)" "cascade_engine adj_api g None = Some (Inr r)"
    "wait_chain (wfg_edges adj_api r) (wfg_threads r) (rev (map (\<lambda>n. set (cp_members n)) (chain path)))
      (unat (total_weight path))"
    unfolding sel path option.case demo_file_ok by (auto simp: sort_demo_trace)
  with out(1) path show ?thesis
    by blast
qed

end
