(* ===== verification/Determinism.thy ===== *)
theory Determinism
  imports Critical_Chain
begin

text \<open>
  The report is a function of the file (\<open>src/report.rs\<close>). The correlator drains a hash map whose
  order differs from run to run, and the graph library numbers nodes and edges as it likes.
  The lemmas show that what is left of this in the graph, the order in which edges with
  different ends were added, does not reach the output: \<open>all_edges\<close> sorts stably by the ends,
  and the cascade, the sums and the weight of the critical path are functions of the set or
  the multiset of the edges. As the events are sorted first, the order of recording does not
  reach it either.
\<close>

section \<open>The edges with given ends\<close>

definition between :: "ThreadId \<times> ThreadId \<Rightarrow> (ThreadId \<times> ThreadId \<times> EdgeWeight) list \<Rightarrow>
    (ThreadId \<times> ThreadId \<times> EdgeWeight) list" where
  "between k E = filter (\<lambda>(s, d, _). (s, d) = k) E"

text \<open>In the order they were added they are known from the trace: the edges at the disk are the
  IO edges, the others are those of the automaton of their source.\<close>

lemma between_io:
  assumes "graph_ok api g" "fst k = ThreadId DISK_TID \<or> snd k = ThreadId DISK_TID"
  shows "between k (wfg_edges api g) = between k (io_only (wfg_edges api g))"
proof -
  have "wait_type ew = Some IoBlock" if "(s, d, ew) \<in> set (wfg_edges api g)" "(s, d) = k" for s d ew
    using assms that by (fastforce simp: graph_ok_def list_all_iff edge_shape_def split: if_splits)
  then show ?thesis
    unfolding between_def io_only_def filter_filter by (intro filter_cong) auto
qed

lemma between_user:
  assumes "graph_ok api g" "fst k = user_thread t" "snd k \<noteq> ThreadId DISK_TID"
  shows "between k (wfg_edges api g) = between k (emitted t (wfg_edges api g))"
proof -
  have "s = user_thread t \<and> wait_type ew \<noteq> Some IoBlock" if "(s, d, ew) \<in> set (wfg_edges api g)" "(s, d) = k" for s d ew
    using assms that by (fastforce simp: graph_ok_def list_all_iff edge_shape_def split: if_splits)
  then show ?thesis
    unfolding between_def emitted_def filter_filter by (intro filter_cong) auto
qed

lemma between_none:
  assumes "graph_ok api g" "fst k \<noteq> ThreadId DISK_TID" "\<nexists>t. fst k = user_thread t"
  shows "between k (wfg_edges api g) = []"
  using assms by (fastforce simp: between_def filter_empty_conv graph_ok_def list_all_iff edge_shape_def split: if_splits)

lemma correlate_between:
  assumes "petgraph api" "drain_ok drain" "correlate_events api drain events thr = Some (g, st)"
    and "petgraph api'" "drain_ok drain'" "correlate_events api' drain' events thr = Some (g', st')"
  shows "between k (wfg_edges api g) = between k (wfg_edges api' g')"
proof -
  have g: "graph_ok api g" "\<And>t. emitted t (wfg_edges api g) = thread_edges thr t events"
    "io_only (wfg_edges api g) = io_edges events"
    using wfg_graph.correlate_events_ok [OF wfg_graph.intro [OF assms(1)] assms(2), of events thr] assms(3)
      wfg_graph.correlate_events_io [OF wfg_graph.intro [OF assms(1)] assms(2,3)] by auto
  have g': "graph_ok api' g'" "\<And>t. emitted t (wfg_edges api' g') = thread_edges thr t events"
    "io_only (wfg_edges api' g') = io_edges events"
    using wfg_graph.correlate_events_ok [OF wfg_graph.intro [OF assms(4)] assms(5), of events thr] assms(6)
      wfg_graph.correlate_events_io [OF wfg_graph.intro [OF assms(4)] assms(5,6)] by auto
  consider "fst k = ThreadId DISK_TID \<or> snd k = ThreadId DISK_TID"
    | t where "fst k = user_thread t" "snd k \<noteq> ThreadId DISK_TID"
    | "fst k \<noteq> ThreadId DISK_TID" "\<nexists>t. fst k = user_thread t"
    by blast
  then show ?thesis
  proof cases
    case 1
    then show ?thesis
      using between_io [OF g(1)] between_io [OF g'(1)] g(3) g'(3) by metis
  next
    case (2 t)
    then show ?thesis
      using between_user [OF g(1)] between_user [OF g'(1)] g(2) g'(2) by metis
  next
    case 3
    then show ?thesis
      using between_none [OF g(1)] between_none [OF g'(1)] by metis
  qed
qed

section \<open>Edge lists with the same edges between any two ends\<close>

definition same_edges :: "(ThreadId \<times> ThreadId \<times> EdgeWeight) list \<Rightarrow> (ThreadId \<times> ThreadId \<times> EdgeWeight) list \<Rightarrow> bool" where
  "same_edges E F \<longleftrightarrow> (\<forall>k. between k E = between k F)"

lemma same_edges_mset: "same_edges E F \<Longrightarrow> mset E = mset F"
proof (rule multiset_eqI)
  fix x :: "ThreadId \<times> ThreadId \<times> EdgeWeight"
  assume "same_edges E F"
  then have "between (fst x, fst (snd x)) E = between (fst x, fst (snd x)) F"
    by (simp add: same_edges_def)
  moreover have "count (mset (between (fst x, fst (snd x)) H)) x = count (mset H) x" for H
    by (simp add: between_def split_beta)
  ultimately show "count (mset E) x = count (mset F) x"
    by metis
qed

lemma same_edges_set: "same_edges E F \<Longrightarrow> set E = set F"
  by (drule same_edges_mset) (rule mset_eq_setD)

lemma same_edges_map:
  assumes "same_edges E F" "\<And>x. fst (f x) = fst x \<and> fst (snd (f x)) = fst (snd x)"
  shows "same_edges (map f E) (map f F)"
proof -
  have "between k (map f H) = map f (between k H)" for k H
    unfolding between_def filter_map using assms(2) by (intro arg_cong [of _ _ "map f"] filter_cong) (auto simp: split_beta)
  then show ?thesis
    using assms(1) by (simp add: same_edges_def)
qed

lemma map_sort_key: "map f (sort_key (\<lambda>x. g (f x)) xs) = sort_key g (map f xs)"
proof -
  have insert: "map f (insort_key (\<lambda>x. g (f x)) x ys) = insort_key g (f x) (map f ys)" for x ys
    by (induction ys) simp_all
  show ?thesis
    by (induction xs) (simp_all add: insert)
qed

text \<open>\<open>all_edges\<close> sorts them into the same list.\<close>

lemma same_edges_sorted:
  assumes "same_edges E F"
  shows "map snd (sort_key edge_key (indexed E)) = map snd (sort_key edge_key (indexed F))"
proof -
  define key :: "ThreadId \<times> ThreadId \<times> EdgeWeight \<Rightarrow> ThreadId \<times> ThreadId" where "key = (\<lambda>(s, d, _). (s, d))"
  have edge_key: "edge_key = (\<lambda>x. key (snd x))"
    by (auto simp: edge_key_def key_def)
  have sorted: "map snd (sort_key edge_key (indexed H)) = sort_key key H" for H
    using map_sort_key [of snd key "indexed H"] by (simp add: edge_key indexed_weights)
  have "sort_key key E = sort_key key F"
  proof (rule properties_for_sort_key)
    have key: "filter (\<lambda>x. key x = key y) H = between (key y) H" for y H
      by (auto simp: key_def between_def split_beta intro!: filter_cong)
    show "mset (sort_key key F) = mset E"
      using same_edges_mset [OF assms] by simp
    show "filter (\<lambda>x. key y = key x) (sort_key key F) = filter (\<lambda>x. key y = key x) E" for y
    proof -
      have "filter (\<lambda>x. key x = key y) (sort_key key F) = filter (\<lambda>x. key x = key y) E"
        using assms sort_key_stable [of key "key y" F] unfolding key same_edges_def by metis
      then show ?thesis
        by (simp only: eq_commute [of "key y"])
    qed
  qed simp
  then show ?thesis
    by (simp only: sorted)
qed

section \<open>The cascade looks at the set of the edges\<close>

lemma sweep_edges_cong: "set E = set F \<Longrightarrow> sweep_edges E n w = sweep_edges F n w"
  unfolding sweep_edges_def by (rule sweep_clipped_cong) (auto simp: in_clip_list)

lemma waiters_mset_cong:
  assumes "set E = set F"
  shows "waiters E t w = waiters F t w"
proof -
  have "set (map fst (filter (\<lambda>(s, d, ew). d = t \<and> edge_kind ew = Normal \<and> overlap (time_window ew) w \<noteq> None) E)) =
      set (map fst (filter (\<lambda>(s, d, ew). d = t \<and> edge_kind ew = Normal \<and> overlap (time_window ew) w \<noteq> None) F))"
    by (simp only: set_map set_filter assms)
  then show ?thesis
    by (simp only: waiters_def)
qed

lemma cascade_spec_cong: "set E = set F \<Longrightarrow> cascade_spec E k path n w = cascade_spec F k path n w"
  by (induction k arbitrary: path n w) (simp_all add: sweep_edges_cong [of E F] waiters_mset_cong [of E F])

lemma attribute_cong: "set E = set F \<Longrightarrow> attribute E m = attribute F m"
  by (simp add: fun_eq_iff attribute_def attributed_delay_def cascade_spec_cong [of E F])

section \<open>The graph and the statistics of a trace\<close>

lemma correlate_threads:
  assumes "petgraph api" "drain_ok drain" "correlate_events api drain events thr = Some (g, st)"
  shows "wfg_inv api g" "wfg_threads g = endpoints (wfg_edges api g)"
    "wfg_kind api g t = (if t \<in> endpoints (wfg_edges api g)
       then Some (if t = ThreadId DISK_TID then PseudoDisk else UserThread) else None)"
proof -
  note wg = wfg_graph.intro [OF assms(1)]
  have ok: "graph_ok api g"
    using wfg_graph.correlate_events_ok [OF wg assms(2), of events thr] assms(3) by auto
  show "wfg_inv api g"
    using ok by (simp add: graph_ok_def)
  show threads: "wfg_threads g = endpoints (wfg_edges api g)"
    using wfg_graph.correlate_spanned [OF wg assms(2,3)] by (simp add: spanned_def)
  have "(\<exists>k. wfg_kind api g t = Some k) \<longleftrightarrow> t \<in> wfg_threads g"
    by (auto simp: wfg_kind_def in_wfg_threads)
  moreover have "k = (if t = ThreadId DISK_TID then PseudoDisk else UserThread)" if "wfg_kind api g t = Some k" for k
    using ok that by (auto simp: graph_ok_def kinds_ok_def split: if_splits)
  ultimately show "wfg_kind api g t = (if t \<in> endpoints (wfg_edges api g)
       then Some (if t = ThreadId DISK_TID then PseudoDisk else UserThread) else None)"
    using threads by (cases "wfg_kind api g t") auto
qed

lemma correlate_stats:
  assumes "petgraph api" "drain_ok drain" "correlate_events api drain events thr = Some (g, st)"
    and "petgraph api'" "drain_ok drain'" "correlate_events api' drain' events thr = Some (g', st')"
  shows "st = st'"
proof -
  have E: "edge_count api g = edge_count api' g'"
    using mset_eq_length [OF same_edges_mset, of "wfg_edges api g" "wfg_edges api' g'"] correlate_between [OF assms]
    by (simp add: same_edges_def edge_count_def petgraph.length_pg_edges [OF assms(1)] petgraph.length_pg_edges [OF assms(4)])
  note a = correlate_accounts [OF assms(1-3)] and a' = correlate_accounts [OF assms(4-6)]
  note c = wfg_graph.correlate_events_counts [OF wfg_graph.intro [OF assms(1)] assms(3)]
    and c' = wfg_graph.correlate_events_counts [OF wfg_graph.intro [OF assms(4)] assms(6)]
  note i = wfg_graph.correlate_events_io [OF wfg_graph.intro [OF assms(1)] assms(2,3)]
    and i' = wfg_graph.correlate_events_io [OF wfg_graph.intro [OF assms(4)] assms(5,6)]
  have same: "events_processed st = events_processed st'" "edges_created st = edges_created st'"
    "unmatched_wakeup_count st = unmatched_wakeup_count st'" "unmatched_switch_in_count st = unmatched_switch_in_count st'"
    "switch_in_without_waker_count st = switch_in_without_waker_count st'"
    "unknown_event_type_count st = unknown_event_type_count st'"
    "io_orphan_complete_count st = io_orphan_complete_count st'" "io_pending_at_end_count st = io_pending_at_end_count st'"
    "io_userspace_pair_collision_count st = io_userspace_pair_collision_count st'"
    using a a' c c' i i' E by simp_all
  let ?n = "count_events switches_in events + 2 * count_events (is_type (Some IoComplete)) events"
  have "edges_created st + false_wakeup_filtered_count st + switch_in_without_waker_count st +
      unmatched_switch_in_count st + 2 * io_orphan_complete_count st = ?n"
    "edges_created st' + false_wakeup_filtered_count st' + switch_in_without_waker_count st' +
      unmatched_switch_in_count st' + 2 * io_orphan_complete_count st' = ?n"
    using a a' by blast+
  then have "edges_created st' + false_wakeup_filtered_count st = edges_created st' + false_wakeup_filtered_count st'"
    unfolding same by (metis add_right_cancel)
  then have "false_wakeup_filtered_count st = false_wakeup_filtered_count st'"
    by simp
  with same show ?thesis
    by (intro CorrelationStats.equality) simp_all
qed

section \<open>The analysis\<close>

text \<open>What the analysis is given of the graph.\<close>

definition same_graph :: "'g wfg_api \<Rightarrow> 'g WaitForGraph \<Rightarrow> 'h wfg_api \<Rightarrow> 'h WaitForGraph \<Rightarrow> bool" where
  "same_graph api g api' g' \<longleftrightarrow> same_edges (wfg_edges api g) (wfg_edges api' g') \<and> wfg_threads g = wfg_threads g' \<and>
     wfg_kind api g = wfg_kind api' g'"

lemma correlate_same_graph:
  assumes "petgraph api" "drain_ok drain" "correlate_events api drain events thr = Some (g, st)"
    and "petgraph api'" "drain_ok drain'" "correlate_events api' drain' events thr = Some (g', st')"
  shows "same_graph api g api' g'"
proof -
  have E: "same_edges (wfg_edges api g) (wfg_edges api' g')"
    using correlate_between [OF assms] by (simp add: same_edges_def)
  then have "endpoints (wfg_edges api g) = endpoints (wfg_edges api' g')"
    by (simp add: endpoints_def same_edges_set [OF E])
  then show ?thesis
    using E correlate_threads(2,3) [OF assms(1-3)] correlate_threads(2,3) [OF assms(4-6)]
    by (auto simp: same_graph_def fun_eq_iff)
qed

lemma same_graph_attributed:
  assumes "same_graph api g api' g'"
    and "wfg_edges api r = map (attribute (wfg_edges api g) m) (wfg_edges api g)"
      "wfg_threads r = wfg_threads g" "wfg_kind api r = wfg_kind api g"
    and "wfg_edges api' r' = map (attribute (wfg_edges api' g') m) (wfg_edges api' g')"
      "wfg_threads r' = wfg_threads g'" "wfg_kind api' r' = wfg_kind api' g'"
  shows "same_graph api r api' r'"
proof -
  have "attribute (wfg_edges api g) m = attribute (wfg_edges api' g') m"
    using assms(1) by (intro attribute_cong same_edges_set) (simp add: same_graph_def)
  moreover have "same_edges (map (attribute (wfg_edges api g) m) (wfg_edges api g))
      (map (attribute (wfg_edges api g) m) (wfg_edges api' g'))"
    using assms(1) by (intro same_edges_map) (auto simp: same_graph_def attribute_def split_beta)
  ultimately show ?thesis
    using assms by (simp add: same_graph_def)
qed

lemma same_sum:
  assumes "same_edges E F"
  shows "sum_list (map f E) = (sum_list (map f F) :: 'a :: comm_monoid_add)"
proof -
  have "sum_mset (image_mset f (mset E)) = sum_mset (image_mset f (mset F))"
    by (simp only: same_edges_mset [OF assms])
  then show ?thesis
    unfolding mset_map [symmetric] sum_mset_sum_list .
qed

lemma from_graph_same:
  assumes "petgraph api" "wfg_inv api r" "invariants_ok api g r = Some ok"
    and "petgraph api'" "wfg_inv api' r'" "invariants_ok api' g' r' = Some ok"
    and "same_graph api g api' g'" "same_graph api r api' r'"
  shows "CascadeResult_from_graph api g r = CascadeResult_from_graph api' g' r'"
proof -
  note wg = wfg_graph.intro [OF assms(1)] and wg' = wfg_graph.intro [OF assms(4)]
  have E: "same_edges (wfg_edges api g) (wfg_edges api' g')" "same_edges (wfg_edges api r) (wfg_edges api' r')"
    using assms(7,8) by (simp_all add: same_graph_def)
  have "map (\<lambda>x. edge_output (snd x)) (sort_key edge_key (indexed (wfg_edges api r))) =
      map (\<lambda>x. edge_output (snd x)) (sort_key edge_key (indexed (wfg_edges api' r')))"
    using arg_cong [OF same_edges_sorted [OF E(2)], of "map edge_output"] by (simp add: comp_def)
  moreover have "edge_count api r = edge_count api' r'"
    using mset_eq_length [OF same_edges_mset [OF E(2)]]
    by (simp add: edge_count_def petgraph.length_pg_edges [OF assms(1)] petgraph.length_pg_edges [OF assms(4)])
  moreover have "node_count api r = node_count api' r'"
    using assms(8) by (simp add: wfg_graph.node_count_threads [OF wg assms(2)] wfg_graph.node_count_threads [OF wg' assms(5)]
        same_graph_def)
  ultimately show ?thesis
    unfolding wfg_graph.from_graph_eq [OF wg assms(2,3)] wfg_graph.from_graph_eq [OF wg' assms(5,6)]
    by (simp add: same_sum [OF E(1)] same_sum [OF E(2)])
qed

lemma io_sum_same:
  assumes "same_graph api r api' r'"
  shows "io_sum api r l f (wfg_edges api r) = io_sum api' r' l f (wfg_edges api' r')"
proof -
  have kind: "io_kind api r = io_kind api' r'"
    using assms by (simp add: io_kind_def same_graph_def fun_eq_iff)
  have eq: "sum_list (map (\<lambda>(s, d, ew). f ew) (filter P E)) = sum_list (map (\<lambda>x. if P x then f (snd (snd x)) else 0) E)" for P E
    by (induction E) auto
  have E: "same_edges (wfg_edges api r) (wfg_edges api' r')"
    using assms by (simp add: same_graph_def)
  show ?thesis
    unfolding io_sum_def kind eq by (rule same_sum [OF E])
qed

lemma io_ratio_same:
  assumes "petgraph api" "wfg_inv api r" "petgraph api'" "wfg_inv api' r'" "same_graph api r api' r'"
  shows "compute_io_attributed_delay_ratio api ratio r = compute_io_attributed_delay_ratio api' ratio r'"
proof -
  note sums = io_sum_same [OF assms(5)]
  obtain x where x: "compute_io_attributed_delay_ratio api ratio r = Some x"
    "\<And>l. Option.bind x (\<lambda>m. Mapping.lookup m l) =
       (if io_sum api r l raw_wait_ms (wfg_edges api r) = 0 then None
        else Some (ratio (io_sum api r l attributed_delay_ms (wfg_edges api r)) (io_sum api r l raw_wait_ms (wfg_edges api r))))"
    "x = None \<longleftrightarrow> (\<forall>l. io_sum api r l raw_wait_ms (wfg_edges api r) = 0)"
    using wfg_graph.io_ratio_eq [OF wfg_graph.intro [OF assms(1)] assms(2), of ratio] by blast
  obtain y where y: "compute_io_attributed_delay_ratio api' ratio r' = Some y"
    "\<And>l. Option.bind y (\<lambda>m. Mapping.lookup m l) =
       (if io_sum api r l raw_wait_ms (wfg_edges api r) = 0 then None
        else Some (ratio (io_sum api r l attributed_delay_ms (wfg_edges api r)) (io_sum api r l raw_wait_ms (wfg_edges api r))))"
    "y = None \<longleftrightarrow> (\<forall>l. io_sum api r l raw_wait_ms (wfg_edges api r) = 0)"
    using wfg_graph.io_ratio_eq [OF wfg_graph.intro [OF assms(3)] assms(4), of ratio] unfolding sums by blast
  have "x = y"
  proof (cases "x = None")
    case True
    then show ?thesis
      using x(3) y(3) by simp
  next
    case False
    then obtain m n where "x = Some m" "y = Some n"
      using x(3) y(3) by auto
    moreover from this have "m = n"
      using x(2) y(2) by (intro mapping_eqI) simp
    ultimately show ?thesis by simp
  qed
  then show ?thesis
    by (simp only: x(1) y(1))
qed

lemma knot_class_same:
  assumes "same_graph api g api' g'"
  shows "knot_class api g = knot_class api' g'"
proof -
  have "set (wfg_edges api g) = set (wfg_edges api' g')" "wfg_threads g = wfg_threads g'" "wfg_kind api g = wfg_kind api' g'"
    using assms same_edges_set by (auto simp: same_graph_def)
  then show ?thesis
    by (simp add: fun_eq_iff knot_class_def wait_rel_def)
qed

section \<open>The report\<close>

text \<open>The health section is a function of the statistics, the footer, the sentinel and the ratios.\<close>

lemma analyse_graph_health:
  assumes "analyse_graph L g st md = Some (Inr out)"
  shows "health out = \<lparr>hm_invariants_ok = hm_invariants_ok (health out), hm_drop_count = md_drop_count md,
    hm_unmatched_wakeup_count = unmatched_wakeup_count (correlation st), partial_stack_count = None,
    cascade_depth_truncation_count = None,
    hm_false_wakeup_filtered_count = Some (false_wakeup_filtered_count (correlation st)),
    hm_io_orphan_complete_count = Some (io_orphan_complete_count (correlation st)),
    hm_io_pending_at_end_count = Some (io_pending_at_end_count (correlation st)),
    hm_io_userspace_pair_collision_count = Some (io_userspace_pair_collision_count (correlation st)),
    attributed_delay_ratio = attributed_delay_ratio (health out)\<rparr>"
proof (cases "cascade_engine (l_api L) g None")
  case (Some x)
  with assms show ?thesis
    by (cases x) (auto simp: analyse_graph_def bind_eq_Some_conv Let_def)
qed (use assms in \<open>simp add: analyse_graph_def\<close>)

lemma analyse_graph_same:
  assumes "libs_ok L" "libs_ok L'" "l_ratio L = l_ratio L'" "wfg_inv (l_api L) g" "wfg_inv (l_api L') g'"
    and "same_graph (l_api L) g (l_api L') g'"
  shows "\<exists>out out'. analyse_graph L g st md = Some (Inr out) \<and> analyse_graph L' g' st md = Some (Inr out') \<and>
    cascade out = cascade out' \<and> health out = health out' \<and> ro_stats out = ro_stats out' \<and>
    (\<forall>K. (\<exists>k \<in> set (knots out). set (kn_members k) = K) \<longleftrightarrow> (\<exists>k \<in> set (knots out'). set (kn_members k) = K))"
proof -
  have lib: "petgraph (l_api L)" "petgraph (l_api L')"
    using assms(1,2) by (simp_all add: libs_ok_def)
  note wg = wfg_graph.intro [OF lib(1)] and wg' = wfg_graph.intro [OF lib(2)]
  obtain r where r: "cascade_engine (l_api L) g None = Some (Inr r)" "wfg_inv (l_api L) r"
    "wfg_edges (l_api L) r = map (attribute (wfg_edges (l_api L) g) (effective_depth None)) (wfg_edges (l_api L) g)"
    "wfg_threads r = wfg_threads g" "wfg_kind (l_api L) r = wfg_kind (l_api L) g"
    "check_non_amplification (l_api L) r = Some True" "check_locality (l_api L) g r = Some True"
    by (rule wfg_graph.cascade_engine_eq [OF wg assms(4)])
  obtain r' where r': "cascade_engine (l_api L') g' None = Some (Inr r')" "wfg_inv (l_api L') r'"
    "wfg_edges (l_api L') r' = map (attribute (wfg_edges (l_api L') g') (effective_depth None)) (wfg_edges (l_api L') g')"
    "wfg_threads r' = wfg_threads g'" "wfg_kind (l_api L') r' = wfg_kind (l_api L') g'"
    "check_non_amplification (l_api L') r' = Some True" "check_locality (l_api L') g' r' = Some True"
    by (rule wfg_graph.cascade_engine_eq [OF wg' assms(5)])
  have ok: "invariants_ok (l_api L) g r = Some True" "invariants_ok (l_api L') g' r' = Some True"
    using r(6,7) r'(6,7) by (simp_all add: invariants_ok_def)
  have same: "same_graph (l_api L) r (l_api L') r'"
    by (rule same_graph_attributed [OF assms(6) r(3-5) r'(3-5)])
  note casc = from_graph_same [OF lib(1) r(2) ok(1) lib(2) r'(2) ok(2) assms(6) same]
  note ratio = io_ratio_same [OF lib(1) r(2) lib(2) r'(2) same]
  obtain out where out: "analyse_graph L g st md = Some (Inr out)"
    "CascadeResult_from_graph (l_api L) g r = Some (cascade out)" "hm_invariants_ok (health out)" "ro_stats out = st"
    "compute_io_attributed_delay_ratio (l_api L) (l_ratio L) r = Some (attributed_delay_ratio (health out))"
    "\<And>K. (\<exists>k \<in> set (knots out). set (kn_members k) = K) \<longleftrightarrow> knot_class (l_api L) g K"
    using analyse_graph_ok [OF assms(1,4), of st md] r(1) by auto
  obtain out' where out': "analyse_graph L' g' st md = Some (Inr out')"
    "CascadeResult_from_graph (l_api L') g' r' = Some (cascade out')" "hm_invariants_ok (health out')" "ro_stats out' = st"
    "compute_io_attributed_delay_ratio (l_api L') (l_ratio L') r' = Some (attributed_delay_ratio (health out'))"
    "\<And>K. (\<exists>k \<in> set (knots out'). set (kn_members k) = K) \<longleftrightarrow> knot_class (l_api L') g' K"
    using analyse_graph_ok [OF assms(2,5), of st md] r'(1) by auto
  have ratios: "attributed_delay_ratio (health out) = attributed_delay_ratio (health out')"
    using out(5) out'(5) ratio [of "l_ratio L"] assms(3) by simp
  have "health out = health out'"
    by (subst analyse_graph_health [OF out(1)], subst analyse_graph_health [OF out'(1)]) (simp add: out(3) out'(3) ratios)
  then show ?thesis
    using out out' casc knot_class_same [OF assms(6)] by (intro exI [of _ out] exI [of _ out']) simp
qed

lemma critical_weight_same:
  assumes "libs_ok L" "correlate_events (l_api L) (l_drain L) events thr = Some (g, st)" "wfg_inv (l_api L) g"
      "analyse_graph L g pst md = Some (Inr out)" "gm_node_count (graph_metrics (cascade out)) \<le> 500000"
    and "libs_ok L'" "correlate_events (l_api L') (l_drain L') events thr = Some (g', st')" "wfg_inv (l_api L') g'"
      "analyse_graph L' g' pst md = Some (Inr out')" "gm_node_count (graph_metrics (cascade out')) \<le> 500000"
    and "same_graph (l_api L) g (l_api L') g'"
  shows "map_option total_weight (critical_path out) = map_option total_weight (critical_path out')"
proof -
  have E: "set (wfg_edges (l_api L) g) = set (wfg_edges (l_api L') g')" and T: "wfg_threads g = wfg_threads g'"
    using assms(11) same_edges_set by (auto simp: same_graph_def)
  obtain r where r: "wfg_edges (l_api L) r = map (attribute (wfg_edges (l_api L) g) (effective_depth None)) (wfg_edges (l_api L) g)"
    "wfg_threads r = wfg_threads g" "critical_chain (wfg_edges (l_api L) r) (wfg_threads r) (critical_path out)"
    by (rule report_chain [OF assms(1-5)])
  obtain r' where r': "wfg_edges (l_api L') r' = map (attribute (wfg_edges (l_api L') g') (effective_depth None)) (wfg_edges (l_api L') g')"
    "wfg_threads r' = wfg_threads g'" "critical_chain (wfg_edges (l_api L') r') (wfg_threads r') (critical_path out')"
    by (rule report_chain [OF assms(6-10)])
  have "set (wfg_edges (l_api L) r) = set (wfg_edges (l_api L') r')"
    by (simp add: r(1) r'(1) E attribute_cong [OF E])
  with r(3) r'(3) show ?thesis
    unfolding r(2) r'(2) T by (rule critical_chain_weight)
qed

text \<open>Another drain order, and the libraries of the demonstration with it.\<close>

lemma drain_ok_reversed: "drain_ok (\<lambda>m. rev (mapping_entries m))"
  using drain_ok_entries by (auto simp: drain_ok_def rev_map [symmetric])

definition reversed_libs :: "((NodeWeight, EdgeWeight) adj, (SuperNode, u64) adj, u64 \<times> u64) Libs" where
  "reversed_libs = demo_libs\<lparr>l_drain := \<lambda>m. rev (mapping_entries m)\<rparr>"

lemma reversed_libs_ok: "libs_ok reversed_libs" "l_ratio demo_libs = l_ratio reversed_libs"
  using demo_libs_ok drain_ok_reversed by (simp_all add: libs_ok_def reversed_libs_def)

section \<open>Properties\<close>

text \<open>Property C3. The report is a function of the file: whatever order the hash map drains in,
  however the graph libraries number nodes and edges and in whichever order they return
  components, two runs on the same file fail with the same error or report the same edges in
  the same order with the same attributions, the same metrics, statistics and health, the
  same knots as sets of threads, and, up to half a million threads, a critical path of the
  same weight.\<close>

theorem report_deterministic:
  assumes "libs_ok L" "libs_ok L'" "l_ratio L = l_ratio L'"
  shows "case trace_report L thr bytes of
      Some (Inr out) \<Rightarrow> \<exists>out'. trace_report L' thr bytes = Some (Inr out') \<and>
        cascade out = cascade out' \<and> health out = health out' \<and> ro_stats out = ro_stats out' \<and>
        (\<forall>K. (\<exists>k \<in> set (knots out). set (kn_members k) = K) \<longleftrightarrow> (\<exists>k \<in> set (knots out'). set (kn_members k) = K)) \<and>
        (gm_node_count (graph_metrics (cascade out)) \<le> 500000 \<longrightarrow>
          map_option total_weight (critical_path out) = map_option total_weight (critical_path out'))
    | Some (Inl e) \<Rightarrow> trace_report L' thr bytes = Some (Inl e)
    | None \<Rightarrow> False"
proof (cases "WperfReader_open (file_of bytes)")
  case (Pair x d)
  show ?thesis
  proof (cases x)
    case (Inl e)
    then show ?thesis
      by (simp add: trace_report_def Pair)
  next
    case (Inr r)
    note open' = Pair [unfolded Inr]
    show ?thesis
    proof (cases "read_trace bytes")
      case (Inl e)
      then show ?thesis
        using trace_report_unreadable(1) [OF open' Inl, of L thr] trace_report_unreadable(1) [OF open' Inl, of L' thr] by simp
    next
      case (Inr evs)
      have lib: "petgraph (l_api L)" "drain_ok (l_drain L)" "petgraph (l_api L')" "drain_ok (l_drain L')"
        using assms(1,2) by (simp_all add: libs_ok_def)
      obtain g st where g: "correlate_events (l_api L) (l_drain L) (sort_events evs) thr = Some (g, st)" "wfg_inv (l_api L) g"
        "trace_report L thr bytes = (case read_trace_metadata bytes of
            Inl e \<Rightarrow> Some (Inl (ReportPipeline (PipelineReader e)))
          | Inr md \<Rightarrow> analyse_graph L g \<lparr>events_read = of_nat (length evs), correlation = st\<rparr> md)"
        by (rule trace_report_eq [OF assms(1) Inr])
      obtain g' st' where g': "correlate_events (l_api L') (l_drain L') (sort_events evs) thr = Some (g', st')" "wfg_inv (l_api L') g'"
        "trace_report L' thr bytes = (case read_trace_metadata bytes of
            Inl e \<Rightarrow> Some (Inl (ReportPipeline (PipelineReader e)))
          | Inr md \<Rightarrow> analyse_graph L' g' \<lparr>events_read = of_nat (length evs), correlation = st'\<rparr> md)"
        by (rule trace_report_eq [OF assms(2) Inr])
      have st: "st = st'"
        by (rule correlate_stats [OF lib(1,2) g(1) lib(3,4) g'(1)])
      note same = correlate_same_graph [OF lib(1,2) g(1) lib(3,4) g'(1)]
      show ?thesis
      proof (cases "read_trace_metadata bytes")
        case (Inl e)
        then show ?thesis
          by (simp add: g(3) g'(3))
      next
        case (Inr md)
        then show ?thesis
          using analyse_graph_same [OF assms g(2) g'(2) same, of "\<lparr>events_read = of_nat (length evs), correlation = st\<rparr>" md]
            critical_weight_same [OF assms(1) g(1,2) _ _ assms(2) g'(1,2) _ _ same]
          unfolding g(3) g'(3) by (auto simp: st)
      qed
    qed
  qed
qed

text \<open>The libraries of the demonstration with another drain order, on the demonstration's file.\<close>

lemma report_deterministic_witness:
  "\<exists>out out'. trace_report demo_libs 50000 demo_file = Some (Inr out) \<and>
    trace_report reversed_libs 50000 demo_file = Some (Inr out') \<and>
    cascade out = cascade out' \<and> health out = health out' \<and> critical_path out \<noteq> None \<and>
    map_option total_weight (critical_path out) = map_option total_weight (critical_path out')"
proof -
  obtain out where "trace_report demo_libs 50000 demo_file = Some (Inr out)"
    "gm_node_count (graph_metrics (cascade out)) \<le> 500000" "critical_path out \<noteq> None"
    by (rule demo_report)
  then show ?thesis
    using report_deterministic [OF demo_libs_ok reversed_libs_ok, of 50000 demo_file] by auto
qed

text \<open>Property C34. The graph does not depend on the order of recording, nor on the run: two
  recordings of the same events in different orders, on machines of different kinds and with
  different drop counts, both succeed, and the pipeline makes the same graph of them, whatever
  order the hash map drains in and however the graph library numbers nodes and edges in either
  run: the same threads of the same kinds, the same edges in the same order between any two
  threads, the same list of all edges, and the same statistics.\<close>

theorem pipeline_order_free:
  assumes "petgraph api" "drain_ok drain" "petgraph api'" "drain_ok drain'"
    and "mset evs = mset evs'" "129 + 45 * length evs < 2 ^ 63"
  shows "\<exists>d d' g g' st. write_trace target evs n (file_of []) = (Inr (), d) \<and>
    write_trace target' evs' n' (file_of []) = (Inr (), d') \<and>
    trace_graph api drain thr (dev_bytes d) = Some (Inr (g, st)) \<and>
    trace_graph api' drain' thr (dev_bytes d') = Some (Inr (g', st)) \<and>
    correlate_events api drain (sort_events evs) thr = Some (g, correlation st) \<and>
    wfg_threads g = wfg_threads g' \<and> wfg_kind api g = wfg_kind api' g' \<and>
    (\<forall>k. between k (wfg_edges api g) = between k (wfg_edges api' g')) \<and>
    map_option (map snd) (all_edges api g) = map_option (map snd) (all_edges api' g')"
proof -
  have len: "length evs' = length evs"
    using assms(5) by (metis size_mset)
  obtain d where d: "write_trace target evs n (file_of []) = (Inr (), d)" "read_trace (dev_bytes d) = Inr evs"
    by (rule recorded_trace [OF assms(6)])
  obtain d' where d': "write_trace target' evs' n' (file_of []) = (Inr (), d')" "read_trace (dev_bytes d') = Inr evs'"
    by (rule recorded_trace [of evs']) (use assms(6) len in simp)
  obtain g st where g: "correlate_events api drain (sort_events evs) thr = Some (g, st)"
    using wfg_graph.correlate_events_ok [OF wfg_graph.intro [OF assms(1)] assms(2), of "sort_events evs" thr] by blast
  obtain g' st' where g': "correlate_events api' drain' (sort_events evs) thr = Some (g', st')"
    using wfg_graph.correlate_events_ok [OF wfg_graph.intro [OF assms(3)] assms(4), of "sort_events evs" thr] by blast
  have st: "st = st'"
    by (rule correlate_stats [OF assms(1,2) g assms(3,4) g'])
  have same: "same_graph api g api' g'"
    by (rule correlate_same_graph [OF assms(1,2) g assms(3,4) g'])
  have "map_option (map snd) (all_edges api g) = map_option (map snd) (all_edges api' g')"
    using same_edges_sorted [of "wfg_edges api g" "wfg_edges api' g'"] same
      wfg_graph.all_edges_eq [OF wfg_graph.intro [OF assms(1)] correlate_threads(1) [OF assms(1,2) g]]
      wfg_graph.all_edges_eq [OF wfg_graph.intro [OF assms(3)] correlate_threads(1) [OF assms(3,4) g']]
    by (simp add: same_graph_def)
  moreover have "trace_graph api drain thr (dev_bytes d) = Some (Inr (g, \<lparr>events_read = of_nat (length evs), correlation = st\<rparr>))"
    "trace_graph api' drain' thr (dev_bytes d') = Some (Inr (g', \<lparr>events_read = of_nat (length evs), correlation = st\<rparr>))"
    using d(2) d'(2) g g' by (simp_all add: trace_graph_eq len st sort_events_mset [OF assms(5)])
  ultimately show ?thesis
    using d(1) d'(1) g same
    by (intro exI [of _ d] exI [of _ d'] exI [of _ g] exI [of _ g']
        exI [of _ "\<lparr>events_read = of_nat (length evs), correlation = st\<rparr>"]) (simp add: same_graph_def same_edges_def)
qed

lemma pipeline_order_free_witness:
  "\<exists>d d' g g' st. write_trace ''x86_64'' demo_trace 0 (file_of []) = (Inr (), d) \<and>
    write_trace ''aarch64'' (rev demo_trace) 3 (file_of []) = (Inr (), d') \<and>
    trace_graph adj_api mapping_entries 50000 (dev_bytes d) = Some (Inr (g, st)) \<and>
    trace_graph adj_api (\<lambda>m. rev (mapping_entries m)) 50000 (dev_bytes d') = Some (Inr (g', st)) \<and>
    wfg_threads g = wfg_threads g'"
proof -
  have "129 + 45 * length demo_trace < 2 ^ 63" "mset demo_trace = mset (rev demo_trace)"
    by (simp_all add: demo_trace_def)
  from pipeline_order_free [OF adj.petgraph_axioms drain_ok_entries adj.petgraph_axioms drain_ok_reversed this(2,1),
      where target = "''x86_64''" and target' = "''aarch64''" and n = 0 and n' = 3 and thr = 50000]
  show ?thesis by (elim exE conjE) (intro exI conjI, assumption+)
qed

text \<open>Property C29. From recording to report: two recordings of the same events, in different
  orders, yield the same report, whatever order the hash map drains in and however the graph
  libraries number and order things in either run: the same edges with the same attributions,
  metrics, statistics and health, the same knots as sets of threads, and, up to half a million
  threads, a critical path of the same weight. The report carries the recorded drop count and,
  of the graph that correlation builds from the events in order of time, all edges with their
  waits and exactly its knots, the deadlocked classes of threads.\<close>

theorem report_end_to_end:
  assumes "libs_ok L" "libs_ok L'" "l_ratio L = l_ratio L'"
    and "mset evs = mset evs'" "129 + 45 * length evs < 2 ^ 63"
  shows "\<exists>d d' out out' g. write_trace target evs n (file_of []) = (Inr (), d) \<and>
    write_trace target' evs' n (file_of []) = (Inr (), d') \<and>
    trace_report L thr (dev_bytes d) = Some (Inr out) \<and> trace_report L' thr (dev_bytes d') = Some (Inr out') \<and>
    cascade out = cascade out' \<and> health out = health out' \<and> ro_stats out = ro_stats out' \<and>
    (\<forall>K. (\<exists>k \<in> set (knots out). set (kn_members k) = K) \<longleftrightarrow> (\<exists>k \<in> set (knots out'). set (kn_members k) = K)) \<and>
    (gm_node_count (graph_metrics (cascade out)) \<le> 500000 \<longrightarrow>
      map_option total_weight (critical_path out) = map_option total_weight (critical_path out')) \<and>
    correlate_events (l_api L) (l_drain L) (sort_events evs) thr = Some (g, correlation (ro_stats out)) \<and>
    hm_drop_count (health out) = Some n \<and>
    mset (map (\<lambda>e. (eo_src e, eo_dst e, eo_raw_wait_ms e)) (cr_edges (cascade out))) =
      mset (map (\<lambda>(s, d, ew). (s, d, raw_wait_ms ew)) (wfg_edges (l_api L) g)) \<and>
    (\<forall>K. (\<exists>k \<in> set (knots out). set (kn_members k) = K) \<longleftrightarrow> knot_class (l_api L) g K)"
proof -
  have lib: "petgraph (l_api L)" "drain_ok (l_drain L)" "petgraph (l_api L')" "drain_ok (l_drain L')"
    using assms(1,2) by (simp_all add: libs_ok_def)
  have len: "length evs' = length evs"
    using assms(4) by (metis size_mset)
  have bound: "129 + 45 * length evs' < 2 ^ 63"
    using assms(5) len by simp
  let ?md = "\<lparr>md_event_count = Some (of_nat (length evs)), md_drop_count = Some n\<rparr>"
  obtain d where d: "write_trace target evs n (file_of []) = (Inr (), d)" "read_trace (dev_bytes d) = Inr evs"
    "read_trace_metadata (dev_bytes d) = Inr ?md"
    by (rule recorded_trace [OF assms(5)])
  obtain d' where d': "write_trace target' evs' n (file_of []) = (Inr (), d')" "read_trace (dev_bytes d') = Inr evs'"
    "read_trace_metadata (dev_bytes d') = Inr ?md"
    by (rule recorded_trace [OF bound]) (simp add: len)
  obtain g st where g: "correlate_events (l_api L) (l_drain L) (sort_events evs) thr = Some (g, st)" "wfg_inv (l_api L) g"
    "trace_report L thr (dev_bytes d) = analyse_graph L g \<lparr>events_read = of_nat (length evs), correlation = st\<rparr> ?md"
    by (rule trace_report_eq [OF assms(1) d(2)]) (simp add: d(3))
  obtain g' st' where g': "correlate_events (l_api L') (l_drain L') (sort_events evs) thr = Some (g', st')" "wfg_inv (l_api L') g'"
    "trace_report L' thr (dev_bytes d') = analyse_graph L' g' \<lparr>events_read = of_nat (length evs), correlation = st'\<rparr> ?md"
    by (rule trace_report_eq [OF assms(2) d'(2)]) (simp add: d'(3) len sort_events_mset [OF assms(4)])
  have st: "st = st'"
    by (rule correlate_stats [OF lib(1,2) g(1) lib(3,4) g'(1)])
  note same = correlate_same_graph [OF lib(1,2) g(1) lib(3,4) g'(1)]
  let ?st = "\<lparr>events_read = of_nat (length evs), correlation = st\<rparr>"
  obtain out out' where out: "analyse_graph L g ?st ?md = Some (Inr out)" "analyse_graph L' g' ?st ?md = Some (Inr out')"
    "cascade out = cascade out'" "health out = health out'" "ro_stats out = ro_stats out'"
    "\<forall>K. (\<exists>k \<in> set (knots out). set (kn_members k) = K) \<longleftrightarrow> (\<exists>k \<in> set (knots out'). set (kn_members k) = K)"
    using analyse_graph_same [OF assms(1-3) g(2) g'(2) same, of ?st ?md] by blast
  have weight: "gm_node_count (graph_metrics (cascade out)) \<le> 500000 \<longrightarrow>
      map_option total_weight (critical_path out) = map_option total_weight (critical_path out')"
    using critical_weight_same [OF assms(1) g(1,2) out(1) _ assms(2) g'(1,2) out(2) _ same] out(3) by simp
  obtain q where q: "cascade_engine (l_api L) g None = Some (Inr q)" "CascadeResult_from_graph (l_api L) g q = Some (cascade out)"
    "hm_drop_count (health out) = Some n" "ro_stats out = ?st"
    "\<forall>K. (\<exists>k \<in> set (knots out). set (kn_members k) = K) \<longleftrightarrow> knot_class (l_api L) g K"
    using analyse_graph_ok [OF assms(1) g(2), of ?st ?md] out(1) by auto
  have edges: "mset (map (\<lambda>e. (eo_src e, eo_dst e, eo_raw_wait_ms e)) (cr_edges (cascade out))) =
      mset (map (\<lambda>(s, d, ew). (s, d, raw_wait_ms ew)) (wfg_edges (l_api L) g))"
    by (rule cascade_section_edges [OF lib(1) g(2) q(1,2)])
  have reports: "trace_report L thr (dev_bytes d) = Some (Inr out)" "trace_report L' thr (dev_bytes d') = Some (Inr out')"
    using g(3) g'(3) out(1,2) st by simp_all
  have corr: "correlate_events (l_api L) (l_drain L) (sort_events evs) thr = Some (g, correlation (ro_stats out))"
    using g(1) q(4) by simp
  show ?thesis
    by (intro exI [of _ d] exI [of _ d'] exI [of _ out] exI [of _ out'] exI [of _ g] conjI)
      (fact d(1) d'(1) reports out(3-6) weight corr q(3,5) edges)+
qed

lemma report_end_to_end_witness:
  "\<exists>d d' out out'. write_trace ''x86_64'' demo_trace 7 (file_of []) = (Inr (), d) \<and>
    write_trace ''aarch64'' (rev demo_trace) 7 (file_of []) = (Inr (), d') \<and>
    trace_report demo_libs 50000 (dev_bytes d) = Some (Inr out) \<and>
    trace_report reversed_libs 50000 (dev_bytes d') = Some (Inr out') \<and>
    cascade out = cascade out' \<and> hm_drop_count (health out) = Some 7"
proof -
  have "129 + 45 * length demo_trace < 2 ^ 63" "mset demo_trace = mset (rev demo_trace)"
    by (simp_all add: demo_trace_def)
  from report_end_to_end [OF demo_libs_ok reversed_libs_ok this(2,1), of "''x86_64''" 7 "''aarch64''" 50000] show ?thesis
    by (elim exE conjE) (intro exI conjI, assumption+)
qed

end
