(* ===== verification/Spec2Isabelle.thy ===== *)
theory Spec2Isabelle
  imports Program Depth Correlate_Stats Bookmark Determinism
begin

text \<open>
  A model of wperf, an off-line wait-for-graph profiler (crate \<open>src/\<close>, Rust), and its
  correctness. The program has two commands. \<open>record\<close> probes the kernel, loads BPF programs,
  polls their scheduler and block-IO events through a ring buffer or per-CPU perf buffers, and
  writes them to a trace file. \<open>report\<close> reads such a file, correlates the events into a
  wait-for graph, redistributes the waits over it (the cascade), condenses its strongly
  connected components, finds deadlocked classes of threads (knots) and the critical path,
  and prints the result as JSON, DOT or SVG.

  Conventions. Definitions keep the names of the Rust items. u8 to u64 are words of that
  width, and arithmetic wraps around as in a release build, where debug assertions are gone;
  the one a caller can violate, on the order of the events that \<open>correlate_events\<close> is given, has
  a definition of its own. usize and indices are \<open>nat\<close>. \<open>None\<close> as the result of a function that returns normally in
  Rust is a panic; errors are the left summand of a sum. A \<open>BTreeMap\<close> or \<open>HashMap\<close> is a
  \<open>mapping\<close>, enumerated in key order for the former. Code outside the sources is an argument:
  petgraph (record \<open>petgraph_api\<close>, locale \<open>petgraph\<close>), its \<open>tarjan_scc\<close> and \<open>toposort\<close> (predicates
  \<open>tarjan_ok\<close>, \<open>toposort_ok\<close>), the drain order of a hash map (\<open>drain_ok\<close>), the quotient of two
  u64 as f64, the JSON serialiser, the process \<open>dot\<close>, and the kernel with libbpf. The
  hypotheses on them are documented behaviour; the theories \<open>Petgraph\<close> and \<open>Scc_Reference\<close>
  hold executable implementations that satisfy them, on which the witnesses run.

  Theories and the files they model.

  Shared: \<open>Wperf_Prelude\<close> (integers, little-endian codecs, lists and mappings) and \<open>Device\<close>
  (the part of \<open>std::io\<close> in use: a byte stream that fails after a budget of bytes).

  Analysis: \<open>Graph_Types\<close> (\<open>graph/types.rs\<close>), \<open>Petgraph\<close>, \<open>Wfg\<close> (\<open>graph/wfg.rs\<close>), \<open>Sweep\<close>
  (\<open>graph/sweep.rs\<close>), \<open>Invariants\<close> and \<open>Cascade\<close> (\<open>cascade/\<close>), \<open>Tarjan\<close>, \<open>Heuristic\<close>, \<open>Knot\<close>
  (\<open>scc/\<close>), \<open>Critical_Path\<close> (\<open>critical_path/mod.rs\<close>). The graph operations are shown equal to
  operations on the list of the edges with their thread identifiers, in the locale
  \<open>wfg_graph\<close>; every component is then specified on that list. The sweep cuts a window into
  the intervals at which a set of targets is active; the recursion of the cascade refines the
  structural function \<open>cascade_spec\<close>, yields what the recursion \<open>cascade_exact\<close> on natural numbers
  yields and never propagates more than it is given; the engine succeeds on every well-formed graph and its sentinel never fires; the
  condensation, the knots and the critical path are characterised on the wait-for graph
  itself. The depth of the cascade is bounded by \<open>max_depth\<close> as in the source, which makes
  its recursion a terminating function, and \<open>Depth\<close> shows what that bound does to the
  attributions; the trace back of the critical path is a partial function that is shown to
  return.

  Trace format: \<open>Event_Format\<close>, \<open>Header_Format\<close>, \<open>Writer\<close>, \<open>Reader\<close>, \<open>Bookmark\<close> (\<open>format/\<close>). What
  is written is read back, also after a write that stopped in the middle; the reader returns on
  every file; a crash loses no event before the last bookmark. Offsets are natural numbers; a
  seek to 2^63 or beyond fails, as it does on a file, and the theorems on whole files assume
  that a file has fewer than 2^63 bytes.

  Correlation: \<open>Correlate\<close>, \<open>Correlate_Io\<close> and \<open>Correlate_Stats\<close> (\<open>correlate.rs\<close>), \<open>Pipeline\<close>
  (\<open>pipeline.rs\<close>). The correlator refines one automaton per thread; every such edge is a wait that happened; the IO
  edges are exactly the completed requests; the statistics account for every event, and each
  diagnostic counter is the number of occurrences it names, read off the trace.

  Output: \<open>Output\<close> (\<open>output.rs\<close>), \<open>Dot\<close> (\<open>dot.rs\<close>), \<open>Report\<close> (\<open>report.rs\<close>). \<open>Critical_Chain\<close>
  characterises the critical path of a report on the wait-for graph of its trace, as the
  heaviest chain of classes of mutually waiting threads; a wait is at most 2^64 / 10^6 ms
  long, so no sum wraps around below 500,000 threads. \<open>Determinism\<close>
  shows that the report is a function of the file, whatever the drain order of the hash map
  and the numbering of the graph library are: the edges in their order, the attributions,
  the metrics, the weight of the critical path and, as sets, the knots. Only the choice of the
  critical path among paths of the same weight is left to the library. It depends on the
  multiset of the recorded events only, not on the order of recording.

  Recording: \<open>Cli\<close> (\<open>cli.rs\<close>), \<open>Probe\<close> (\<open>probe/features.rs\<close>), \<open>Transport\<close> (\<open>transport/mod.rs\<close>,
  \<open>transport/config.rs\<close>), \<open>Reorder\<close> (\<open>transport/reorder.rs\<close>), \<open>Recorder\<close> (\<open>record.rs\<close>). Both
  poll loops are shown to be the writer run on the captured events; the reorder buffer is a
  permutation that sorts what is out of order by no more than its window. What a session sees
  of the world is a history of the rounds of its poll loop, each with the stop flag, the clock
  and the samples; a session that has not left the loop at the end of the history is \<open>Running\<close>.
  It leaves the loop exactly when a round finds the flag set or the deadline reached, or on a
  write error.

  Program: \<open>Program\<close> (\<open>main.rs\<close>) has the dispatch and the theorems that join the two
  commands: what the report says of the file of a session that succeeded, and of one that
  failed at any point.

  Not modelled. The BPF programs under \<open>bpf/\<close> are C that runs in the kernel, and the build
  script generates their skeleton: what they deliver is an argument of \<open>Recorder\<close>. The sleeping
  between the rounds of the poll loops is left out, and so is what is on disk of a session that
  is still running, whose \<open>BufWriter\<close> holds a part of it; on an error or a panic it is flushed
  as it is dropped. Read errors of the medium, write errors that go away again, and the panic
  of petgraph beyond 2^32 - 1 nodes or edges are left out. Clap's derived
  parser and serde's derived serialisers are third-party code. The progress and diagnostic
  messages on standard error are left out, except for the error the process ends with. The
  \<open>From\<close> conversions between error types are applied where \<open>?\<close> applies them.
\<close>

end
